(* ===== verification/Prelude.thy ===== *)
theory Prelude
  imports Main "HOL-Library.Word" "HOL-Library.Char_ord" "HOL-Library.List_Lexorder"
begin

unbundle bit_operations_syntax

text \<open>
  The shared vocabulary of the development: the machine integer types, the bytes of
  a \<^verbatim>\<open>std::string\<close> (a HOL \<^typ>\<open>string\<close>, whose characters are bytes; their order is the
  unsigned one that \<^verbatim>\<open>memcmp\<close> and \<^verbatim>\<open>std::char_traits<char>\<close> use), the library calls that
  the sources make on strings and numbers (\<^verbatim>\<open>std::to_string\<close>, \<^verbatim>\<open>find_first_of\<close>, \<^verbatim>\<open>substr\<close>,
  C integer division), and the list and word lemmas that several components use.
\<close>

named_theorems bytes_simps \<open>conversions between bytes and 8-bit words\<close>
named_theorems level_simps \<open>the functional form of loops that the sources write with indices\<close>

section \<open>Machine integers and bytes\<close>

type_synonym u8 = "8 word"
type_synonym u32 = "32 word"
type_synonym u64 = "64 word"

definition ord8 :: "char \<Rightarrow> u8" where
  "ord8 c = of_nat (of_char c)"

definition chr8 :: "u8 \<Rightarrow> char" where
  "chr8 w = char_of (unat w)"

lemma of_char_lt_256: "(of_char c :: nat) < 256"
proof -
  have "(of_char c :: nat) = of_char (char_of (of_char c :: nat))" by simp
  also have "\<dots> = of_char c mod 256" by (simp only: of_char_of)
  finally show ?thesis by (metis mod_less_divisor zero_less_numeral)
qed

lemma unat_ord8 [bytes_simps]: "unat (ord8 c) = of_char c"
  using of_char_lt_256 [of c] by (simp add: ord8_def unat_of_nat take_bit_eq_mod)

lemma chr8_ord8 [simp, bytes_simps]: "chr8 (ord8 c) = c"
  by (simp add: chr8_def unat_ord8)

lemma ord8_chr8 [simp, bytes_simps]: "ord8 (chr8 w) = w"
proof -
  have "unat w < 2 ^ LENGTH(8)" by (rule unsigned_less)
  then show ?thesis by (simp add: chr8_def ord8_def of_char_of)
qed

lemma ord8_eq_iff [simp]: "ord8 c = ord8 d \<longleftrightarrow> c = d"
  by (metis chr8_ord8)

lemma chr8_eq_iff [simp]: "chr8 v = chr8 w \<longleftrightarrow> v = w"
  by (metis ord8_chr8)

lemma ord8_less_iff: "ord8 c < ord8 d \<longleftrightarrow> c < d"
  by (simp add: word_less_nat_alt unat_ord8 less_char_def)

lemma ord8_le_iff: "ord8 c \<le> ord8 d \<longleftrightarrow> c \<le> d"
  by (simp add: word_le_nat_alt unat_ord8 less_eq_char_def)

lemma unat_ucast_up:
  fixes x :: "'a::len word"
  assumes "LENGTH('a) \<le> LENGTH('b::len)"
  shows "unat (ucast x :: 'b word) = unat x"
proof -
  have "unat x < 2 ^ LENGTH('a)" by (rule unsigned_less)
  also have "\<dots> \<le> 2 ^ LENGTH('b)" using assms by (intro power_increasing) auto
  finally show ?thesis by (simp add: unsigned_ucast_eq take_bit_nat_eq_self)
qed

text \<open>C and C++ divide towards zero; the divisor is checked by the callers.\<close>

lemma unat_of_nat_u32: "n < 2 ^ 32 \<Longrightarrow> unat (of_nat n :: u32) = n"
  by (simp add: unsigned_of_nat take_bit_nat_eq_self)

lemma unat_of_nat_u64: "n < 2 ^ 64 \<Longrightarrow> unat (of_nat n :: u64) = n"
  by (simp add: unsigned_of_nat take_bit_nat_eq_self)

definition c_div :: "int \<Rightarrow> int \<Rightarrow> int" where
  "c_div a b = sgn a * sgn b * (\<bar>a\<bar> div \<bar>b\<bar>)"

lemma c_div_nonneg: "0 \<le> a \<Longrightarrow> 0 < b \<Longrightarrow> c_div a b = a div b"
  by (cases "a = 0") (auto simp: c_div_def)

lemma c_div_neg: "0 \<le> a \<Longrightarrow> b < 0 \<Longrightarrow> c_div a b = - (a div (- b))"
  by (cases "a = 0") (auto simp: c_div_def)

section \<open>Decimal printing: std::to_string and printf \"%llu\"\<close>

definition digit_char :: "nat \<Rightarrow> char" where
  "digit_char d = char_of (48 + d)"

fun nat_to_string :: "nat \<Rightarrow> string" where
  "nat_to_string n =
     (if n < 10 then [digit_char n]
      else nat_to_string (n div 10) @ [digit_char (n mod 10)])"

declare nat_to_string.simps [simp del]

definition to_string :: "int \<Rightarrow> string" where
  "to_string i = (if i < 0 then CHR ''-'' # nat_to_string (nat (- i)) else nat_to_string (nat i))"

definition digit_val :: "char \<Rightarrow> nat" where
  "digit_val c = of_char c - 48"

definition is_digit_char :: "char \<Rightarrow> bool" where
  "is_digit_char c \<longleftrightarrow> CHR ''0'' \<le> c \<and> c \<le> CHR ''9''"

fun decimal_val :: "nat \<Rightarrow> string \<Rightarrow> nat" where
  "decimal_val acc [] = acc"
| "decimal_val acc (c # cs) = decimal_val (acc * 10 + digit_val c) cs"

lemma of_char_digit_char: "d < 10 \<Longrightarrow> of_char (digit_char d) = (48 + d :: nat)"
  by (simp add: digit_char_def of_char_of)

lemma digit_val_digit_char [simp]: "d < 10 \<Longrightarrow> digit_val (digit_char d) = d"
  by (simp add: digit_val_def of_char_digit_char)

lemma is_digit_digit_char [simp]: "d < 10 \<Longrightarrow> is_digit_char (digit_char d)"
  by (simp add: is_digit_char_def less_eq_char_def of_char_digit_char)

lemma decimal_val_append: "decimal_val a (xs @ ys) = decimal_val (decimal_val a xs) ys"
  by (induction xs arbitrary: a) auto

lemma nat_to_string_nonempty [simp]: "nat_to_string n \<noteq> []"
  by (subst nat_to_string.simps) simp

lemma decimal_val_nat_to_string [simp]: "decimal_val 0 (nat_to_string n) = n"
proof (induction n rule: nat_to_string.induct)
  case (1 n)
  then show ?case
    by (cases "n < 10") (simp_all add: nat_to_string.simps [of n] decimal_val_append)
qed

lemma nat_to_string_digits: "list_all is_digit_char (nat_to_string n)"
proof (induction n rule: nat_to_string.induct)
  case (1 n)
  then show ?case
    by (cases "n < 10") (simp_all add: nat_to_string.simps [of n])
qed

lemma nat_to_string_inject [simp]: "nat_to_string m = nat_to_string n \<longleftrightarrow> m = n"
  by (metis decimal_val_nat_to_string)

section \<open>String operations of the C++ library\<close>

type_synonym size_t = u64

text \<open>\<^verbatim>\<open>std::string::npos\<close> is the largest \<^verbatim>\<open>size_t\<close>; arithmetic on positions wraps.\<close>

definition npos :: size_t where
  "npos = - 1"

fun find_index :: "char \<Rightarrow> string \<Rightarrow> nat option" where
  "find_index c [] = None"
| "find_index c (x # xs) = (if x = c then Some 0 else map_option Suc (find_index c xs))"

definition find_first_of :: "string \<Rightarrow> char \<Rightarrow> size_t" where
  "find_first_of s c = (case find_index c s of None \<Rightarrow> npos | Some i \<Rightarrow> of_nat i)"

text \<open>\<^verbatim>\<open>substr\<close> raises \<^verbatim>\<open>std::out_of_range\<close> (here \<^term>\<open>None\<close>) past the end, and clips the count.\<close>

definition substr :: "string \<Rightarrow> size_t \<Rightarrow> size_t \<Rightarrow> string option" where
  "substr s pos n = (if length s < unat pos then None else Some (take (unat n) (drop (unat pos) s)))"

definition ends_with :: "string \<Rightarrow> string \<Rightarrow> bool" where
  "ends_with s e \<longleftrightarrow> length e \<le> length s \<and> drop (length s - length e) s = e"

lemma find_index_append_notin:
  "c \<notin> set xs \<Longrightarrow> find_index c (xs @ c # ys) = Some (length xs)"
  by (induction xs) auto

lemma find_index_None: "find_index c xs = None \<longleftrightarrow> c \<notin> set xs"
  by (induction xs) auto

lemma ends_with_append [simp]: "ends_with (s @ e) e"
  by (simp add: ends_with_def)

section \<open>Lists\<close>

lemma fold_insert_image: "fold (\<lambda>x A. insert (f x) A) xs A = f ` set xs \<union> A"
  by (induction xs arbitrary: A) auto

lemma concat_map_take_drop:
  "concat (map (\<lambda>i. take r (drop (i * r) xs)) [0..<m]) = take (m * r) xs"
proof (induction m)
  case (Suc m)
  have "take (m * r + r) xs = take (m * r) xs @ take r (drop (m * r) xs)"
    by (rule take_add)
  then show ?case using Suc by (simp add: add.commute)
qed simp

lemma count_list_concat: "count_list (concat xss) x = (\<Sum>xs\<leftarrow>xss. count_list xs x)"
  by (induction xss) auto

end
