(* ===== verification/Coding.thy ===== *)
theory Coding
  imports Prelude
begin

text \<open>
  \<^verbatim>\<open>src/leveldb/util/coding.cc\<close> and \<^verbatim>\<open>coding.h\<close>: little-endian fixed-width numbers, varints and
  length-prefixed strings.  A pointer range \<open>[p, limit)\<close> is the string of its bytes; a
  routine that advances a slice returns the value and the rest, and \<^term>\<open>None\<close> where the
  source returns \<^verbatim>\<open>nullptr\<close> or \<^verbatim>\<open>false\<close>.  The \<^verbatim>\<open>Decode\<close> routines read without bounds checks, as
  the source does; their callers test the length.
\<close>

section \<open>Fixed-width numbers\<close>

definition byte32 :: "u32 \<Rightarrow> char" where
  "byte32 w = chr8 (ucast w)"

definition byte64 :: "u64 \<Rightarrow> char" where
  "byte64 w = chr8 (ucast w)"

definition EncodeFixed32 :: "u32 \<Rightarrow> string" where
  "EncodeFixed32 value =
     [byte32 value, byte32 (drop_bit 8 value), byte32 (drop_bit 16 value), byte32 (drop_bit 24 value)]"

definition EncodeFixed64 :: "u64 \<Rightarrow> string" where
  "EncodeFixed64 value =
     [byte64 value, byte64 (drop_bit 8 value), byte64 (drop_bit 16 value), byte64 (drop_bit 24 value),
      byte64 (drop_bit 32 value), byte64 (drop_bit 40 value), byte64 (drop_bit 48 value), byte64 (drop_bit 56 value)]"

definition DecodeFixed32 :: "string \<Rightarrow> u32" where
  "DecodeFixed32 p =
     ucast (ord8 (p ! 0)) OR push_bit 8 (ucast (ord8 (p ! 1))) OR
     push_bit 16 (ucast (ord8 (p ! 2))) OR push_bit 24 (ucast (ord8 (p ! 3)))"

definition DecodeFixed64 :: "string \<Rightarrow> u64" where
  "DecodeFixed64 p =
     ucast (ord8 (p ! 0)) OR push_bit 8 (ucast (ord8 (p ! 1))) OR
     push_bit 16 (ucast (ord8 (p ! 2))) OR push_bit 24 (ucast (ord8 (p ! 3))) OR
     push_bit 32 (ucast (ord8 (p ! 4))) OR push_bit 40 (ucast (ord8 (p ! 5))) OR
     push_bit 48 (ucast (ord8 (p ! 6))) OR push_bit 56 (ucast (ord8 (p ! 7)))"

definition PutFixed32 :: "string \<Rightarrow> u32 \<Rightarrow> string" where
  "PutFixed32 dst value = dst @ EncodeFixed32 value"

definition PutFixed64 :: "string \<Rightarrow> u64 \<Rightarrow> string" where
  "PutFixed64 dst value = dst @ EncodeFixed64 value"

section \<open>Varints\<close>

definition EncodeVarint32 :: "u32 \<Rightarrow> string" where
  "EncodeVarint32 v =
     (if v < 2 ^ 7 then [byte32 v]
      else if v < 2 ^ 14 then [byte32 (v OR 128), byte32 (drop_bit 7 v)]
      else if v < 2 ^ 21 then [byte32 (v OR 128), byte32 (drop_bit 7 v OR 128), byte32 (drop_bit 14 v)]
      else if v < 2 ^ 28 then
        [byte32 (v OR 128), byte32 (drop_bit 7 v OR 128), byte32 (drop_bit 14 v OR 128), byte32 (drop_bit 21 v)]
      else
        [byte32 (v OR 128), byte32 (drop_bit 7 v OR 128), byte32 (drop_bit 14 v OR 128),
         byte32 (drop_bit 21 v OR 128), byte32 (drop_bit 28 v)])"

definition PutVarint32 :: "string \<Rightarrow> u32 \<Rightarrow> string" where
  "PutVarint32 dst v = dst @ EncodeVarint32 v"

lemma unat_drop7_less: "128 \<le> (v :: u64) \<Longrightarrow> unat (drop_bit 7 v) < unat v"
proof -
  assume "128 \<le> v"
  then have "128 \<le> unat v" by (simp add: word_le_nat_alt)
  moreover have "unat (drop_bit 7 v) = unat v div 128"
    by (simp add: drop_bit_eq_div unat_div)
  ultimately show ?thesis by simp
qed

function EncodeVarint64 :: "u64 \<Rightarrow> string" where
  "EncodeVarint64 v =
     (if 128 \<le> v then byte64 (v OR 128) # EncodeVarint64 (drop_bit 7 v) else [byte64 v])"
  by pat_completeness auto
termination
  by (relation "measure unat") (auto simp: unat_drop7_less)

declare EncodeVarint64.simps [simp del]

definition PutVarint64 :: "string \<Rightarrow> u64 \<Rightarrow> string" where
  "PutVarint64 dst v = dst @ EncodeVarint64 v"

function VarintLength_loop :: "u64 \<Rightarrow> int \<Rightarrow> int" where
  "VarintLength_loop v len = (if 128 \<le> v then VarintLength_loop (drop_bit 7 v) (len + 1) else len)"
  by pat_completeness auto
termination
  by (relation "measure (\<lambda>(v, len). unat v)") (auto simp: unat_drop7_less)

declare VarintLength_loop.simps [simp del]

definition VarintLength :: "u64 \<Rightarrow> int" where
  "VarintLength v = VarintLength_loop v 1"

function GetVarint32PtrFallback :: "nat \<Rightarrow> u32 \<Rightarrow> string \<Rightarrow> (u32 \<times> string) option" where
  "GetVarint32PtrFallback shift result p =
     (if shift \<le> 28 \<and> p \<noteq> [] then
        let byte = ucast (ord8 (hd p)) :: u32
        in if byte AND 128 \<noteq> 0
           then GetVarint32PtrFallback (shift + 7) (result OR push_bit shift (byte AND 127)) (tl p)
           else Some (result OR push_bit shift byte, tl p)
      else None)"
  by pat_completeness auto
termination
  by (relation "measure (\<lambda>(shift, result, p). length p)") auto

declare GetVarint32PtrFallback.simps [simp del]

definition GetVarint32Ptr :: "string \<Rightarrow> (u32 \<times> string) option" where
  "GetVarint32Ptr p =
     (if p \<noteq> [] \<and> (ucast (ord8 (hd p)) :: u32) AND 128 = 0
      then Some (ucast (ord8 (hd p)), tl p)
      else GetVarint32PtrFallback 0 0 p)"

definition GetVarint32 :: "string \<Rightarrow> (u32 \<times> string) option" where
  "GetVarint32 input = GetVarint32Ptr input"

function GetVarint64Ptr_loop :: "nat \<Rightarrow> u64 \<Rightarrow> string \<Rightarrow> (u64 \<times> string) option" where
  "GetVarint64Ptr_loop shift result p =
     (if shift \<le> 63 \<and> p \<noteq> [] then
        let byte = ucast (ord8 (hd p)) :: u64
        in if byte AND 128 \<noteq> 0
           then GetVarint64Ptr_loop (shift + 7) (result OR push_bit shift (byte AND 127)) (tl p)
           else Some (result OR push_bit shift byte, tl p)
      else None)"
  by pat_completeness auto
termination
  by (relation "measure (\<lambda>(shift, result, p). length p)") auto

declare GetVarint64Ptr_loop.simps [simp del]

definition GetVarint64Ptr :: "string \<Rightarrow> (u64 \<times> string) option" where
  "GetVarint64Ptr p = GetVarint64Ptr_loop 0 0 p"

definition GetVarint64 :: "string \<Rightarrow> (u64 \<times> string) option" where
  "GetVarint64 input = GetVarint64Ptr input"

section \<open>Length-prefixed strings\<close>

text \<open>\<^verbatim>\<open>PutVarint32(dst, value.size())\<close> narrows the \<^verbatim>\<open>size_t\<close> to 32 bits.\<close>

definition PutLengthPrefixedSlice :: "string \<Rightarrow> string \<Rightarrow> string" where
  "PutLengthPrefixedSlice dst value = PutVarint32 dst (of_nat (length value)) @ value"

definition GetLengthPrefixedSlice :: "string \<Rightarrow> (string \<times> string) option" where
  "GetLengthPrefixedSlice input =
     (case GetVarint32 input of
        None \<Rightarrow> None
      | Some (len, rest) \<Rightarrow>
          if unat len \<le> length rest then Some (take (unat len) rest, drop (unat len) rest) else None)"

section \<open>Round trips\<close>

lemma ucast_byte32 [bytes_simps]: "ucast (ord8 (byte32 w)) = take_bit 8 w"
  by (rule bit_word_eqI) (auto simp: byte32_def bit_simps)

lemma ucast_byte64 [bytes_simps]: "ucast (ord8 (byte64 w)) = take_bit 8 w"
  by (rule bit_word_eqI) (auto simp: byte64_def bit_simps)

lemma or_next_byte:
  "take_bit k (v :: 'a::len word) OR push_bit k (take_bit 8 (drop_bit k v)) = take_bit (k + 8) v"
  by (rule bit_word_eqI) (auto simp: bit_simps)

lemmas or_next_bytes =
  or_next_byte [of 8] or_next_byte [of 16] or_next_byte [of 24] or_next_byte [of 32]
  or_next_byte [of 40] or_next_byte [of 48] or_next_byte [of 56]

lemma length_EncodeFixed [simp]: "length (EncodeFixed32 v) = 4" "length (EncodeFixed64 w) = 8"
  by (simp_all add: EncodeFixed32_def EncodeFixed64_def)

lemma DecodeFixed32_Encode [simp]: "DecodeFixed32 (EncodeFixed32 v @ s) = v"
proof -
  have "DecodeFixed32 (EncodeFixed32 v @ s) = take_bit 32 v"
    by (simp add: DecodeFixed32_def EncodeFixed32_def bytes_simps or.assoc [symmetric]
        or_next_bytes [simplified] del: take_bit_or push_bit_or)
  then show ?thesis by (simp add: take_bit_word_eq_self)
qed

lemma DecodeFixed64_Encode [simp]: "DecodeFixed64 (EncodeFixed64 v @ s) = v"
proof -
  have "DecodeFixed64 (EncodeFixed64 v @ s) = take_bit 64 v"
    by (simp add: DecodeFixed64_def EncodeFixed64_def bytes_simps or.assoc [symmetric]
        or_next_bytes [simplified] del: take_bit_or push_bit_or)
  then show ?thesis by (simp add: take_bit_word_eq_self)
qed

lemma or_next_septet:
  "take_bit k (v :: 'a::len word) OR push_bit k (take_bit 7 (drop_bit k v)) = take_bit (k + 7) v"
  by (rule bit_word_eqI) (auto simp: bit_simps)

lemma or_last_septet: "take_bit k (v :: 'a::len word) OR push_bit k (drop_bit k v) = v"
proof (rule bit_word_eqI)
  fix n assume "n < LENGTH('a)"
  then show "bit (take_bit k v OR push_bit k (drop_bit k v)) n = bit v n"
    by (cases "n < k") (auto simp: bit_simps not_less)
qed

lemma push_bit_septets:
  "push_bit s (take_bit 7 v) OR push_bit (s + 7) (drop_bit 7 v) = push_bit s (v :: 'a::len word)"
proof (rule bit_word_eqI)
  fix n assume "n < LENGTH('a)"
  then show "bit (push_bit s (take_bit 7 v) OR push_bit (s + 7) (drop_bit 7 v)) n = bit (push_bit s v) n"
    by (cases "n - s < 7") (auto simp: bit_simps not_less)
qed

lemma bit_128 [bytes_simps]: "bit (128 :: int) n \<longleftrightarrow> n = 7"
  using bit_exp_iff [of 7 n, where 'a = int] by simp

lemma bit_127 [bytes_simps]: "bit (127 :: int) n \<longleftrightarrow> n < 7"
  using bit_mask_iff [of 7 n, where 'a = int] by (simp add: mask_eq_exp_minus_1)

lemma continuation_byte:
  fixes v :: u32 and w :: u64
  shows "take_bit 8 (v OR 128) AND 128 \<noteq> 0" "take_bit 8 (v OR 128) AND 127 = take_bit 7 v"
    and "take_bit 8 (w OR 128) AND 128 \<noteq> 0" "take_bit 8 (w OR 128) AND 127 = take_bit 7 w"
proof -
  have "bit (take_bit 8 (v OR 128) AND 128) 7" "bit (take_bit 8 (w OR 128) AND 128) 7"
    by (simp_all add: bit_take_bit_iff bit_or_iff bit_and_iff bytes_simps)
  then show "take_bit 8 (v OR 128) AND 128 \<noteq> 0" "take_bit 8 (w OR 128) AND 128 \<noteq> 0" by auto
  show "take_bit 8 (v OR 128) AND 127 = take_bit 7 v"
    by (rule bit_word_eqI) (auto simp: bit_take_bit_iff bit_or_iff bit_and_iff bytes_simps)
  show "take_bit 8 (w OR 128) AND 127 = take_bit 7 w"
    by (rule bit_word_eqI) (auto simp: bit_take_bit_iff bit_or_iff bit_and_iff bytes_simps)
qed

lemma bits_below:
  fixes v :: "'a::len word"
  assumes "v < 2 ^ k" and "bit v n"
  shows "n < k"
proof -
  have "v AND mask k = v" using assms(1) by (rule less_mask_eq)
  with assms(2) show ?thesis by (metis bit_and_iff bit_mask_iff)
qed

lemma final_byte:
  fixes v :: u32 and w :: u64
  shows "v < 128 \<Longrightarrow> take_bit 8 v = v" "v < 128 \<Longrightarrow> v AND 128 = 0"
    and "w < 128 \<Longrightarrow> take_bit 8 w = w" "w < 128 \<Longrightarrow> w AND 128 = 0"
proof -
  assume "v < 128"
  then have b: "bit v n \<Longrightarrow> n < 7" for n using bits_below [of v 7 n] by simp
  show "take_bit 8 v = v" "v AND 128 = 0"
    by (rule bit_word_eqI, auto simp: bit_take_bit_iff bit_and_iff bytes_simps dest: b)+
next
  assume "w < 128"
  then have b: "bit w n \<Longrightarrow> n < 7" for n using bits_below [of w 7 n] by simp
  show "take_bit 8 w = w" "w AND 128 = 0"
    by (rule bit_word_eqI, auto simp: bit_take_bit_iff bit_and_iff bytes_simps dest: b)+
qed

lemma GetVarint64Ptr_loop_Encode:
  "s \<le> 63 \<Longrightarrow> drop_bit (64 - s) v = 0 \<Longrightarrow>
   GetVarint64Ptr_loop s r (EncodeVarint64 v @ rest) = Some (r OR push_bit s v, rest)"
proof (induction v arbitrary: s r rule: EncodeVarint64.induct)
  case (1 v)
  show ?case
  proof (cases "128 \<le> v")
    case True
    have "s + 7 \<le> 63"
    proof (rule ccontr)
      assume "\<not> s + 7 \<le> 63"
      then have "64 - s \<le> 7" by simp
      then have "drop_bit 7 v = drop_bit (7 - (64 - s)) (drop_bit (64 - s) v)" by simp
      then have "drop_bit 7 v = 0" using "1.prems"(2) by simp
      then have "unat (v div 128) = 0" by (simp add: drop_bit_eq_div)
      then show False using True by (simp add: word_le_nat_alt unat_div)
    qed
    moreover have "drop_bit (64 - (s + 7)) (drop_bit 7 v) = drop_bit (64 - s) v"
      using \<open>s + 7 \<le> 63\<close> by simp
    ultimately have "GetVarint64Ptr_loop (s + 7) r' (EncodeVarint64 (drop_bit 7 v) @ rest)
        = Some (r' OR push_bit (s + 7) (drop_bit 7 v), rest)" for r'
      using "1.IH" [OF True] "1.prems" by simp
    then show ?thesis using True "1.prems"(1)
      by (simp add: EncodeVarint64.simps [of v] GetVarint64Ptr_loop.simps [of s] bytes_simps
          continuation_byte or.assoc push_bit_septets del: take_bit_or push_bit_or push_bit_and)
  next
    case False
    then show ?thesis using "1.prems"(1)
      by (simp add: EncodeVarint64.simps [of v] GetVarint64Ptr_loop.simps [of s] bytes_simps final_byte)
  qed
qed

lemma GetVarint64_Put: "GetVarint64 (PutVarint64 [] v @ rest) = Some (v, rest)"
proof -
  have "drop_bit (64 - 0) v = 0" by (rule bit_word_eqI) (simp add: bit_simps)
  then show ?thesis
    using GetVarint64Ptr_loop_Encode [of 0 v 0 rest]
    by (simp add: GetVarint64_def GetVarint64Ptr_def PutVarint64_def)
qed

lemma fallback_continue:
  "s \<le> 28 \<Longrightarrow> GetVarint32PtrFallback s r (byte32 (w OR 128) # p)
     = GetVarint32PtrFallback (s + 7) (r OR push_bit s (take_bit 7 w)) p"
  by (simp add: GetVarint32PtrFallback.simps [of s] bytes_simps continuation_byte
      del: take_bit_or push_bit_or push_bit_and)

lemma fallback_final:
  "s \<le> 28 \<Longrightarrow> w < 128 \<Longrightarrow> GetVarint32PtrFallback s r (byte32 w # p) = Some (r OR push_bit s w, p)"
  by (simp add: GetVarint32PtrFallback.simps [of s] bytes_simps final_byte)

lemma GetVarint32Ptr_fallback: "GetVarint32Ptr p = GetVarint32PtrFallback 0 0 p"
  by (simp add: GetVarint32Ptr_def GetVarint32PtrFallback.simps [of 0])

lemma drop_bit_less_128:
  fixes v :: u32
  shows "v < 2 ^ 14 \<Longrightarrow> drop_bit 7 v < 128" "v < 2 ^ 21 \<Longrightarrow> drop_bit 14 v < 128"
    and "v < 2 ^ 28 \<Longrightarrow> drop_bit 21 v < 128"
  by (simp_all add: word_less_nat_alt drop_bit_eq_div unat_div less_mult_imp_div_less)

lemma drop_bit_28_less: "drop_bit 28 (v :: u32) < 128"
proof -
  have "unat v < 2 ^ LENGTH(32)" by (rule unsigned_less)
  then show ?thesis by (simp add: word_less_nat_alt drop_bit_eq_div unat_div)
qed

lemmas or_septets =
  or_next_septet [of 7, simplified] or_next_septet [of 14, simplified] or_next_septet [of 21, simplified]

lemma GetVarint32_Put [simp]: "GetVarint32 (EncodeVarint32 v @ rest) = Some (v, rest)"
proof -
  note fb = GetVarint32_def GetVarint32Ptr_fallback EncodeVarint32_def fallback_continue fallback_final
  consider "v < 2 ^ 7" | "\<not> v < 2 ^ 7" "v < 2 ^ 14" | "\<not> v < 2 ^ 7" "\<not> v < 2 ^ 14" "v < 2 ^ 21"
    | "\<not> v < 2 ^ 7" "\<not> v < 2 ^ 14" "\<not> v < 2 ^ 21" "v < 2 ^ 28"
    | "\<not> v < 2 ^ 7" "\<not> v < 2 ^ 14" "\<not> v < 2 ^ 21" "\<not> v < 2 ^ 28" by blast
  then show ?thesis
  proof cases
    case 1
    then show ?thesis by (simp add: fb)
  next
    case 2
    then show ?thesis using drop_bit_less_128 [of v]
      by (simp add: fb or_last_septet del: take_bit_or push_bit_or)
  next
    case 3
    then show ?thesis using drop_bit_less_128 [of v]
      by (simp add: fb or_septets or_last_septet del: take_bit_or push_bit_or)
  next
    case 4
    then show ?thesis using drop_bit_less_128 [of v]
      by (simp add: fb or_septets or_last_septet del: take_bit_or push_bit_or)
  next
    case 5
    then show ?thesis using drop_bit_28_less [of v]
      by (simp add: fb or_septets or_last_septet del: take_bit_or push_bit_or)
  qed
qed

lemma GetLengthPrefixedSlice_Put:
  assumes "length s < 2 ^ 32"
  shows "GetLengthPrefixedSlice (PutLengthPrefixedSlice [] s @ rest) = Some (s, rest)"
  using assms by (simp add: GetLengthPrefixedSlice_def PutLengthPrefixedSlice_def PutVarint32_def
      unat_of_nat take_bit_nat_eq_self)

lemma VarintLength_loop_length:
  "VarintLength_loop v len = len + int (length (EncodeVarint64 v)) - 1"
proof (induction v len rule: VarintLength_loop.induct)
  case (1 v len)
  then show ?case
    by (cases "128 \<le> v") (simp_all add: VarintLength_loop.simps [of v] EncodeVarint64.simps [of v])
qed

lemma length_EncodeVarint32: "length (EncodeVarint32 v) \<le> 5"
  by (simp add: EncodeVarint32_def)

lemma length_EncodeVarint64_bound: "unat v < 2 ^ (7 * k) \<Longrightarrow> length (EncodeVarint64 v) \<le> max 1 k"
proof (induction v arbitrary: k rule: EncodeVarint64.induct)
  case (1 v)
  show ?case
  proof (cases "128 \<le> v")
    case True
    then have v: "128 \<le> unat v" by (simp add: word_le_nat_alt)
    with "1.prems" obtain k' where k: "k = Suc k'" by (cases k) auto
    have "k' \<noteq> 0" using "1.prems" v k by (intro notI) simp
    have "unat (drop_bit 7 v) = unat v div 128" by (simp add: drop_bit_eq_div unat_div)
    also have "\<dots> < 2 ^ (7 * k')"
      using "1.prems" k by (simp add: less_mult_imp_div_less power_add mult.commute)
    finally show ?thesis
      using "1.IH" [OF True, of k'] True k \<open>k' \<noteq> 0\<close> by (simp add: EncodeVarint64.simps [of v])
  qed (simp add: EncodeVarint64.simps [of v])
qed

section \<open>Fixed64 is a bijection on eight bytes\<close>

lemma bit_u8_high: "8 \<le> m \<Longrightarrow> \<not> bit (x :: u8) m"
  using bit_imp_le_length [of x m] by auto

lemma bit_shifted_byte:
  assumes "r < 8" and "j < 8" and "q < 8"
  shows "bit (push_bit (8 * j) (ucast (x :: u8)) :: u64) (8 * q + r) \<longleftrightarrow> q = j \<and> bit x r"
proof -
  consider "q < j" | "q = j" | "j < q" by linarith
  then show ?thesis
  proof cases
    case 1
    then have "\<not> 8 * j \<le> 8 * q + r" using assms by linarith
    then show ?thesis using 1 by (simp add: bit_push_bit_iff)
  next
    case 2
    then show ?thesis using assms by (simp add: bit_push_bit_iff bit_ucast_iff)
  next
    case 3
    then have "8 \<le> 8 * q + r - 8 * j" using assms by linarith
    then show ?thesis using 3 by (simp add: bit_push_bit_iff bit_ucast_iff bit_u8_high)
  qed
qed

lemmas bit_shifted_bytes =
  bit_shifted_byte [of _ 0, simplified] bit_shifted_byte [of _ 1, simplified] bit_shifted_byte [of _ 2, simplified]
  bit_shifted_byte [of _ 3, simplified] bit_shifted_byte [of _ 4, simplified] bit_shifted_byte [of _ 5, simplified]
  bit_shifted_byte [of _ 6, simplified] bit_shifted_byte [of _ 7, simplified]

lemma bit_DecodeFixed64:
  assumes "r < 8" and "q < 8"
  shows "bit (DecodeFixed64 p) (8 * q + r) \<longleftrightarrow> bit (ord8 (p ! q)) r"
proof -
  have "q = 0 \<or> q = 1 \<or> q = 2 \<or> q = 3 \<or> q = 4 \<or> q = 5 \<or> q = 6 \<or> q = 7"
    using assms(2) by linarith
  then show ?thesis
    unfolding DecodeFixed64_def bit_or_iff bit_shifted_bytes [OF assms] by (elim disjE) simp_all
qed

lemma byte64_Decode:
  assumes "q < 8"
  shows "byte64 (drop_bit (8 * q) (DecodeFixed64 p)) = p ! q"
proof -
  have "(ucast (drop_bit (8 * q) (DecodeFixed64 p)) :: u8) = ord8 (p ! q)"
    by (rule bit_word_eqI) (simp add: bit_ucast_iff bit_drop_bit_eq bit_DecodeFixed64 assms)
  then show ?thesis by (simp add: byte64_def)
qed

lemma EncodeFixed64_map: "EncodeFixed64 v = map (\<lambda>q. byte64 (drop_bit (8 * q) v)) [0..<8]"
  by (simp add: EncodeFixed64_def upt_rec)

lemma EncodeFixed64_Decode:
  assumes "length p = 8"
  shows "EncodeFixed64 (DecodeFixed64 p) = p"
proof -
  have "EncodeFixed64 (DecodeFixed64 p) = map ((!) p) [0..<length p]"
    unfolding EncodeFixed64_map assms by (rule map_cong) (simp_all add: byte64_Decode)
  then show ?thesis by (simp only: map_nth)
qed

section \<open>Readers consume input\<close>

lemma GetVarint32PtrFallback_shorter:
  "GetVarint32PtrFallback s r p = Some (v, q) \<Longrightarrow> length q < length p"
proof (induction s r p rule: GetVarint32PtrFallback.induct)
  case (1 s r p)
  then show ?case
    by (subst (asm) (2) GetVarint32PtrFallback.simps) (cases p; auto simp: Let_def split: if_splits)
qed

lemma GetLengthPrefixedSlice_shorter:
  "GetLengthPrefixedSlice p = Some (v, q) \<Longrightarrow> length q < length p"
  by (auto simp: GetLengthPrefixedSlice_def GetVarint32_def GetVarint32Ptr_fallback
      dest!: GetVarint32PtrFallback_shorter split: option.splits if_splits)

lemma GetVarint32_shorter: "GetVarint32 p = Some (v, q) \<Longrightarrow> length q < length p"
  by (auto simp: GetVarint32_def GetVarint32Ptr_fallback dest: GetVarint32PtrFallback_shorter)

section \<open>Arrays of fixed-width numbers\<close>

lemma fold_PutFixed32: "fold (\<lambda>r buf. PutFixed32 buf r) rs buf = buf @ concat (map EncodeFixed32 rs)"
  by (induction rs arbitrary: buf) (simp_all add: PutFixed32_def)

lemma drop_fixed32s:
  "j < length rs \<Longrightarrow>
   drop (j * 4) (concat (map EncodeFixed32 rs) @ t) = EncodeFixed32 (rs ! j) @ concat (map EncodeFixed32 (drop (Suc j) rs)) @ t"
proof (induction rs arbitrary: j)
  case (Cons r rs)
  show ?case by (cases j) (use Cons in auto)
qed simp

section \<open>Properties\<close>

text \<open>
  C28: every number encoded by the fixed-width or varint writers is read back by the matching
  reader, which leaves exactly the bytes that follow it.
\<close>

theorem coding_roundtrip:
  "DecodeFixed32 (PutFixed32 [] v @ rest) = v \<and> DecodeFixed64 (PutFixed64 [] w @ rest) = w
   \<and> GetVarint32 (PutVarint32 [] v @ rest) = Some (v, rest) \<and> GetVarint64 (PutVarint64 [] w @ rest) = Some (w, rest)"
  by (simp add: PutFixed32_def PutFixed64_def PutVarint32_def GetVarint64_Put)

text \<open>
  A string whose length fits in 32 bits, written with its length in front, is read back
  with the bytes after it untouched.
\<close>

theorem length_prefixed_roundtrip:
  assumes "length s < 2 ^ 32"
  shows "GetLengthPrefixedSlice (PutLengthPrefixedSlice [] s @ rest) = Some (s, rest)"
  using assms by (rule GetLengthPrefixedSlice_Put)

theorem length_prefixed_roundtrip_witness:
  "GetLengthPrefixedSlice (PutLengthPrefixedSlice [] ''foo'' @ ''bar'') = Some (''foo'', ''bar'')"
  by (rule length_prefixed_roundtrip) simp

text \<open>
  C29: \<^verbatim>\<open>VarintLength\<close> is the number of bytes the encoder writes, and the encodings fit the
  stack buffers of 5 and 10 bytes that \<^verbatim>\<open>PutVarint32\<close> and \<^verbatim>\<open>PutVarint64\<close> declare.
\<close>

theorem varint_lengths:
  "VarintLength v = int (length (EncodeVarint64 v)) \<and> length (EncodeVarint64 v) \<le> 10 \<and> length (EncodeVarint32 u) \<le> 5"
proof -
  have "unat v < 2 ^ (7 * 10)"
    by (rule less_le_trans [OF unsigned_less]) (simp add: power_increasing)
  then show ?thesis using length_EncodeVarint64_bound [of v 10] length_EncodeVarint32 [of u]
    by (simp add: VarintLength_def VarintLength_loop_length)
qed

end
