(* ===== verification/Slice_Status.thy ===== *)
theory Slice_Status
  imports Prelude
begin

text \<open>
  \<^verbatim>\<open>src/leveldb/include/leveldb/slice.h\<close> and \<^verbatim>\<open>status.h\<close> with \<^verbatim>\<open>util/status.cc\<close>.  A \<^verbatim>\<open>Slice\<close> is the
  string it refers to.  \<^verbatim>\<open>memcmp\<close> promises only a sign; the model returns \<open>-1\<close>, \<open>0\<close> or \<open>1\<close>.
  The order that \<^verbatim>\<open>Slice::compare\<close> computes is the lexicographic order of unsigned bytes,
  the linear order of \<^typ>\<open>string\<close> here.
\<close>

section \<open>Slice\<close>

fun memcmp :: "string \<Rightarrow> string \<Rightarrow> nat \<Rightarrow> int" where
  "memcmp a b 0 = 0"
| "memcmp (x # a) (y # b) (Suc n) = (if x < y then - 1 else if y < x then 1 else memcmp a b n)"
| "memcmp a b (Suc n) = 0"

definition Slice_compare :: "string \<Rightarrow> string \<Rightarrow> int" where
  "Slice_compare a b =
     (let min_len = (if length a < length b then length a else length b);
          r = memcmp a b min_len
      in if r = 0 then (if length a < length b then - 1 else if length b < length a then 1 else r) else r)"

definition Slice_eq :: "string \<Rightarrow> string \<Rightarrow> bool" where
  "Slice_eq x y \<longleftrightarrow> length x = length y \<and> memcmp x y (length x) = 0"

definition starts_with :: "string \<Rightarrow> string \<Rightarrow> bool" where
  "starts_with s x \<longleftrightarrow> length x \<le> length s \<and> memcmp s x (length x) = 0"

definition remove_prefix :: "string \<Rightarrow> nat \<Rightarrow> string" where
  "remove_prefix s n = drop n s"

lemma memcmp_prefix_0: "length b \<le> length a \<Longrightarrow> memcmp a b (length b) = 0 \<longleftrightarrow> take (length b) a = b"
proof (induction a b "length b" rule: memcmp.induct)
  case (2 x a y b n)
  then show ?case by (auto split: if_splits)
qed auto

lemma Slice_eq_iff [simp]: "Slice_eq x y \<longleftrightarrow> x = y"
  using memcmp_prefix_0 [of y x] by (auto simp: Slice_eq_def)

lemma starts_with_take: "starts_with s x \<longleftrightarrow> length x \<le> length s \<and> take (length x) s = x"
  by (auto simp: starts_with_def memcmp_prefix_0)

lemma starts_with_iff: "starts_with s x \<longleftrightarrow> (\<exists>t. s = x @ t)"
proof
  assume "starts_with s x"
  then show "\<exists>t. s = x @ t" using append_take_drop_id [of "length x" s] by (metis starts_with_take)
qed (auto simp: starts_with_take)

lemma Slice_compare_Cons:
  "Slice_compare (x # a) (y # b) = (if x < y then - 1 else if y < x then 1 else Slice_compare a b)"
  by (simp add: Slice_compare_def Let_def)

lemma Slice_compare_Nil: "Slice_compare [] b = (if b = [] then 0 else - 1)"
    "Slice_compare a [] = (if a = [] then 0 else 1)"
  by (cases b; simp add: Slice_compare_def) (cases a; simp add: Slice_compare_def)

lemma Slice_compare_sign:
  "(Slice_compare a b < 0 \<longleftrightarrow> a < b) \<and> (Slice_compare a b = 0 \<longleftrightarrow> a = b) \<and> (Slice_compare a b > 0 \<longleftrightarrow> b < a)"
proof (induction a arbitrary: b)
  case Nil
  then show ?case by (cases b) (auto simp: Slice_compare_Nil)
next
  case (Cons x a)
  show ?case
  proof (cases b)
    case Nil
    then show ?thesis by (simp add: Slice_compare_Nil)
  next
    case b: (Cons y b')
    with Cons.IH [of b'] show ?thesis by (auto simp: Slice_compare_Cons)
  qed
qed

lemma Slice_compare_simps [simp]:
  "Slice_compare a b < 0 \<longleftrightarrow> a < b" "Slice_compare a b = 0 \<longleftrightarrow> a = b" "0 < Slice_compare a b \<longleftrightarrow> b < a"
  using Slice_compare_sign by blast+

section \<open>Status\<close>

datatype Code = kOk | kNotFound | kCorruption | kNotSupported | kInvalidArgument | kIOError

text \<open>A null \<^verbatim>\<open>state_\<close> is the OK status; otherwise it holds the code and the message.\<close>

datatype Status = OK | Err (state_code: Code) (state_msg: string)

definition mk_Status :: "Code \<Rightarrow> string \<Rightarrow> string \<Rightarrow> Status" where
  "mk_Status c msg msg2 = Err c (msg @ (if msg2 \<noteq> [] then '': '' @ msg2 else []))"

definition Corruption :: "string \<Rightarrow> Status" where
  "Corruption msg = mk_Status kCorruption msg []"

definition InvalidArgument :: "string \<Rightarrow> Status" where
  "InvalidArgument msg = mk_Status kInvalidArgument msg []"

definition NotFound :: "string \<Rightarrow> string \<Rightarrow> Status" where
  "NotFound msg msg2 = mk_Status kNotFound msg msg2"

definition Status_ok :: "Status \<Rightarrow> bool" where
  "Status_ok s \<longleftrightarrow> s = OK"

definition Status_code :: "Status \<Rightarrow> Code" where
  "Status_code s = (case s of OK \<Rightarrow> kOk | Err c m \<Rightarrow> c)"

definition code_type :: "Code \<Rightarrow> string" where
  "code_type c = (case c of
     kOk \<Rightarrow> ''OK''
   | kNotFound \<Rightarrow> ''NotFound: ''
   | kCorruption \<Rightarrow> ''Corruption: ''
   | kNotSupported \<Rightarrow> ''Not implemented: ''
   | kInvalidArgument \<Rightarrow> ''Invalid argument: ''
   | kIOError \<Rightarrow> ''IO error: '')"

definition Status_ToString :: "Status \<Rightarrow> string" where
  "Status_ToString s = (case s of OK \<Rightarrow> ''OK'' | Err c m \<Rightarrow> code_type c @ m)"

lemma Status_ok_simps [simp]:
  "Status_ok OK" "\<not> Status_ok (Err c m)" "\<not> Status_ok (Corruption s)" "\<not> Status_ok (InvalidArgument s)"
  "\<not> Status_ok (NotFound s t)"
  by (simp_all add: Status_ok_def Corruption_def InvalidArgument_def NotFound_def mk_Status_def)

end
