(* ===== verification/Log_Writer.thy ===== *)
theory Log_Writer
  imports Crc32c Slice_Status
begin

text \<open>
  \<^verbatim>\<open>src/leveldb/db/log_format.h\<close> and \<^verbatim>\<open>log_writer.cc\<close>.  The destination file is its contents and
  the number of bytes that can still be appended: an append past it fails and writes nothing.
  As in the source the status of the append that fills the trailer of a block is ignored,
  and the block offset advances even when an append fails.  \<^verbatim>\<open>crc32c::Extend\<close> is the portable
  routine; by the results of \<open>Crc32c\<close> its value does not depend on the address.
\<close>

section \<open>Format\<close>

datatype RecordType = kZeroType | kFullType | kFirstType | kMiddleType | kLastType

definition RecordType_num :: "RecordType \<Rightarrow> nat" where
  "RecordType_num t = (case t of kZeroType \<Rightarrow> 0 | kFullType \<Rightarrow> 1 | kFirstType \<Rightarrow> 2 | kMiddleType \<Rightarrow> 3 | kLastType \<Rightarrow> 4)"

definition kMaxRecordType :: nat where
  "kMaxRecordType = 4"

definition kBlockSize :: nat where
  "kBlockSize = 32768"

definition kHeaderSize :: nat where
  "kHeaderSize = 4 + 2 + 1"

section \<open>Files\<close>

record wfile =
  wf_data :: string
  wf_space :: nat

definition wf_Append :: "wfile \<Rightarrow> string \<Rightarrow> Status \<times> wfile" where
  "wf_Append f s =
     (if length s \<le> wf_space f
      then (OK, f\<lparr>wf_data := wf_data f @ s, wf_space := wf_space f - length s\<rparr>)
      else (mk_Status kIOError ''No space left on device'' [], f))"

section \<open>Writer\<close>

definition crc32c_Extend :: "u32 \<Rightarrow> string \<Rightarrow> u32" where
  "crc32c_Extend crc data = Extend_portable 0 crc data"

definition crc32c_Value :: "string \<Rightarrow> u32" where
  "crc32c_Value data = crc32c_Extend 0 data"

record Writer =
  w_dest :: wfile
  block_offset :: nat
  type_crcs :: "u32 list"

definition InitTypeCrc :: "u32 list" where
  "InitTypeCrc = map (\<lambda>i. crc32c_Value [char_of i]) [0..<Suc kMaxRecordType]"

definition Writer_new :: "wfile \<Rightarrow> Writer" where
  "Writer_new dest = \<lparr>w_dest = dest, block_offset = 0, type_crcs = InitTypeCrc\<rparr>"

definition Writer_reopen :: "wfile \<Rightarrow> nat \<Rightarrow> Writer" where
  "Writer_reopen dest dest_length =
     \<lparr>w_dest = dest, block_offset = dest_length mod kBlockSize, type_crcs = InitTypeCrc\<rparr>"

definition EmitPhysicalRecord :: "RecordType \<Rightarrow> string \<Rightarrow> Writer \<Rightarrow> Status \<times> Writer" where
  "EmitPhysicalRecord t payload w =
     (let len = (of_nat (length payload) :: u64);
          crc = Mask (crc32c_Extend (type_crcs w ! RecordType_num t) payload);
          buf = EncodeFixed32 crc @ [byte64 (len AND 0xff), byte64 (drop_bit 8 len), char_of (RecordType_num t)];
          (s1, d1) = wf_Append (w_dest w) buf;
          (s2, d2) = (if Status_ok s1 then wf_Append d1 payload else (s1, d1))
      in (s2, w\<lparr>w_dest := d2, block_offset := block_offset w + kHeaderSize + length payload\<rparr>))"

definition switch_block :: "Writer \<Rightarrow> Writer" where
  "switch_block w =
     (let leftover = kBlockSize - block_offset w
      in if leftover < kHeaderSize
         then w\<lparr>w_dest := (if 0 < leftover then snd (wf_Append (w_dest w) (replicate leftover (chr8 0))) else w_dest w),
                block_offset := 0\<rparr>
         else w)"

lemma block_offset_switch: "kBlockSize - block_offset (switch_block w) =
    (if kBlockSize - block_offset w < kHeaderSize then kBlockSize else kBlockSize - block_offset w)"
  by (simp add: switch_block_def Let_def)

lemma block_offset_Emit [simp]:
  "block_offset (snd (EmitPhysicalRecord t p w)) = block_offset w + kHeaderSize + length p"
  by (simp add: EmitPhysicalRecord_def Let_def case_prod_beta)

text \<open>The loop body once per fragment; \<open>begin\<close> is true in the first round.\<close>

definition fragment_length :: "Writer \<Rightarrow> string \<Rightarrow> nat" where
  "fragment_length w left =
     (let avail = kBlockSize - block_offset (switch_block w) - kHeaderSize
      in if length left < avail then length left else avail)"

definition fragment_type :: "bool \<Rightarrow> bool \<Rightarrow> RecordType" where
  "fragment_type bgn fin =
     (if bgn \<and> fin then kFullType else if bgn then kFirstType else if fin then kLastType else kMiddleType)"

function AddRecord_loop :: "bool \<Rightarrow> string \<Rightarrow> Writer \<Rightarrow> Status \<times> Writer" where
  "AddRecord_loop bgn left w =
     (let n = fragment_length w left;
          t = fragment_type bgn (length left = n);
          (s, w') = EmitPhysicalRecord t (take n left) (switch_block w);
          left' = drop n left
      in if Status_ok s \<and> 0 < length left' then AddRecord_loop False left' w' else (s, w'))"
  by pat_completeness auto
termination
proof (relation "measures [\<lambda>(b, left, w). length left, \<lambda>(b, left, w). if kBlockSize - block_offset w = kHeaderSize then 1 else 0]")
  fix bgn left w n t x s w' left'
  assume n: "n = fragment_length w left" and e: "x = EmitPhysicalRecord t (take n left) (switch_block w)"
    and sw: "(s, w') = x" and l: "left' = drop n left" and c: "Status_ok s \<and> 0 < length left'"
  let ?avail = "kBlockSize - block_offset (switch_block w) - kHeaderSize"
  have off: "block_offset w' = block_offset (switch_block w) + kHeaderSize + length (take n left)"
    using e sw block_offset_Emit by (metis snd_conv)
  have "0 < length left" using l c by auto
  show "((False, left', w'), bgn, left, w) \<in> measures [\<lambda>(b, left, w). length left,
      \<lambda>(b, left, w). if kBlockSize - block_offset w = kHeaderSize then 1 else 0]"
  proof (cases "n = 0")
    case True
    then have "?avail = 0" using n \<open>0 < length left\<close> by (auto simp: fragment_length_def Let_def split: if_splits)
    then have "kBlockSize - block_offset w = kHeaderSize"
      using block_offset_switch [of w] by (auto simp: kBlockSize_def kHeaderSize_def split: if_splits)
    moreover have "kBlockSize - block_offset w' \<noteq> kHeaderSize"
      using off \<open>?avail = 0\<close> by (simp add: kHeaderSize_def)
    ultimately show ?thesis using l True by simp
  next
    case False
    then show ?thesis using l \<open>0 < length left\<close> by simp
  qed
qed simp

declare AddRecord_loop.simps [simp del]

definition AddRecord :: "string \<Rightarrow> Writer \<Rightarrow> Status \<times> Writer" where
  "AddRecord rec w = AddRecord_loop True rec w"

fun AddRecords :: "string list \<Rightarrow> Writer \<Rightarrow> Status \<times> Writer" where
  "AddRecords [] w = (OK, w)"
| "AddRecords (r # rs) w = (let (s, w') = AddRecord r w in if Status_ok s then AddRecords rs w' else (s, w'))"

section \<open>What the writer appends\<close>

definition phys_record :: "RecordType \<Rightarrow> string \<Rightarrow> string" where
  "phys_record t payload =
     EncodeFixed32 (Mask (crc32c_Value (char_of (RecordType_num t) # payload)))
       @ [byte64 (of_nat (length payload) AND 0xff), byte64 (drop_bit 8 (of_nat (length payload))), char_of (RecordType_num t)]
       @ payload"

definition trailer :: "nat \<Rightarrow> string" where
  "trailer off = (if kBlockSize - off < kHeaderSize then replicate (kBlockSize - off) (chr8 0) else [])"

definition block_start :: "nat \<Rightarrow> nat" where
  "block_start off = (if kBlockSize - off < kHeaderSize then 0 else off)"

definition Writer_ok :: "Writer \<Rightarrow> bool" where
  "Writer_ok w \<longleftrightarrow> type_crcs w = InitTypeCrc \<and> block_offset w \<le> kBlockSize"

lemma crc32c_Value_eq: "crc32c_Value data = crc32c 0 data"
  by (simp add: crc32c_Value_def crc32c_Extend_def Extend_portable_crc)

lemma RecordType_num_le: "RecordType_num t \<le> kMaxRecordType"
  by (simp add: RecordType_num_def kMaxRecordType_def split: RecordType.split)

lemma type_crc: "crc32c_Extend (InitTypeCrc ! RecordType_num t) payload = crc32c_Value (char_of (RecordType_num t) # payload)"
proof -
  have "InitTypeCrc ! RecordType_num t = crc32c_Value [char_of (RecordType_num t)]"
    using RecordType_num_le [of t] by (simp add: InitTypeCrc_def del: upt_Suc)
  then show ?thesis
    using crc32c_append [of 0 "[char_of (RecordType_num t)]" payload]
    by (simp add: crc32c_Value_eq) (simp add: crc32c_Extend_def Extend_portable_crc)
qed

lemma length_phys_record: "length (phys_record t p) = kHeaderSize + length p"
  by (simp add: phys_record_def kHeaderSize_def)

lemma EmitPhysicalRecord_ok:
  assumes "type_crcs w = InitTypeCrc" and "kHeaderSize + length p \<le> wf_space (w_dest w)"
  shows "EmitPhysicalRecord t p w =
     (OK, w\<lparr>w_dest := \<lparr>wf_data = wf_data (w_dest w) @ phys_record t p, wf_space = wf_space (w_dest w) - (kHeaderSize + length p)\<rparr>,
            block_offset := block_offset w + kHeaderSize + length p\<rparr>)"
proof -
  have "7 \<le> wf_space (w_dest w)" "length p \<le> wf_space (w_dest w) - 7" using assms(2) by (simp_all add: kHeaderSize_def)
  then show ?thesis
    using assms(1) by (simp add: EmitPhysicalRecord_def Let_def wf_Append_def type_crc phys_record_def kHeaderSize_def Status_ok_def)
qed

lemma switch_block_ok:
  assumes "length (trailer (block_offset w)) \<le> wf_space (w_dest w)"
  shows "switch_block w = w\<lparr>w_dest := \<lparr>wf_data = wf_data (w_dest w) @ trailer (block_offset w),
       wf_space = wf_space (w_dest w) - length (trailer (block_offset w))\<rparr>, block_offset := block_start (block_offset w)\<rparr>"
  using assms by (auto simp: switch_block_def Let_def trailer_def block_start_def wf_Append_def)

text \<open>The bytes of a record, from a given offset in a block, and the offset after it.\<close>

definition frag_len :: "nat \<Rightarrow> string \<Rightarrow> nat" where
  "frag_len off left = min (length left) (kBlockSize - block_start off - kHeaderSize)"

definition frag_bytes :: "bool \<Rightarrow> string \<Rightarrow> nat \<Rightarrow> string" where
  "frag_bytes bgn left off =
     trailer off @ phys_record (fragment_type bgn (length left = frag_len off left)) (take (frag_len off left) left)"

definition frag_end :: "nat \<Rightarrow> string \<Rightarrow> nat" where
  "frag_end off left = block_start off + kHeaderSize + frag_len off left"

lemma frag_measure:
  assumes "frag_len off left < length left"
  shows "length left - frag_len off left < length left \<or>
    length left - frag_len off left = length left \<and> kBlockSize - off = kHeaderSize \<and> kBlockSize - frag_end off left \<noteq> kHeaderSize"
  using assms by (auto simp: frag_len_def frag_end_def block_start_def kBlockSize_def kHeaderSize_def min_def split: if_splits)

function layout :: "bool \<Rightarrow> string \<Rightarrow> nat \<Rightarrow> string \<times> nat" where
  "layout bgn left off =
     (if frag_len off left < length left
      then let (more, off') = layout False (drop (frag_len off left) left) (frag_end off left)
           in (frag_bytes bgn left off @ more, off')
      else (frag_bytes bgn left off, frag_end off left))"
  by pat_completeness auto
termination
  by (relation "measures [\<lambda>(b, left, off). length left, \<lambda>(b, left, off). if kBlockSize - off = kHeaderSize then 1 else 0]")
    (use frag_measure in \<open>auto\<close>)

declare layout.simps [simp del]

lemma frag_end_le: "off \<le> kBlockSize \<Longrightarrow> frag_end off left \<le> kBlockSize"
  by (auto simp: frag_end_def frag_len_def block_start_def kBlockSize_def kHeaderSize_def)

lemma layout_end_le: "off \<le> kBlockSize \<Longrightarrow> snd (layout bgn left off) \<le> kBlockSize"
proof (induction bgn left off rule: layout.induct)
  case (1 bgn left off)
  then show ?case by (subst layout.simps) (auto simp: frag_end_le case_prod_beta)
qed

lemma Emit_fragment:
  assumes "Writer_ok w" and "length (frag_bytes bgn left (block_offset w)) \<le> wf_space (w_dest w)"
  shows "EmitPhysicalRecord (fragment_type bgn (length left = fragment_length w left))
      (take (fragment_length w left) left) (switch_block w)
    = (OK, w\<lparr>w_dest := \<lparr>wf_data = wf_data (w_dest w) @ frag_bytes bgn left (block_offset w),
         wf_space = wf_space (w_dest w) - length (frag_bytes bgn left (block_offset w))\<rparr>,
         block_offset := frag_end (block_offset w) left\<rparr>)"
    and "fragment_length w left = frag_len (block_offset w) left"
proof -
  show n: "fragment_length w left = frag_len (block_offset w) left"
    by (simp add: fragment_length_def switch_block_def block_start_def frag_len_def Let_def)
  have m: "min (length left) (frag_len (block_offset w) left) = frag_len (block_offset w) left"
    by (simp add: frag_len_def)
  have "length (trailer (block_offset w)) \<le> wf_space (w_dest w)"
    using assms(2) by (simp add: frag_bytes_def)
  from switch_block_ok [OF this] show "EmitPhysicalRecord (fragment_type bgn (length left = fragment_length w left))
      (take (fragment_length w left) left) (switch_block w)
    = (OK, w\<lparr>w_dest := \<lparr>wf_data = wf_data (w_dest w) @ frag_bytes bgn left (block_offset w),
         wf_space = wf_space (w_dest w) - length (frag_bytes bgn left (block_offset w))\<rparr>,
         block_offset := frag_end (block_offset w) left\<rparr>)"
    using assms m unfolding n
    by (simp add: EmitPhysicalRecord_ok Writer_ok_def length_phys_record frag_bytes_def frag_end_def)
qed

lemma AddRecord_loop_layout:
  assumes "Writer_ok w" and "length (fst (layout bgn left (block_offset w))) \<le> wf_space (w_dest w)"
  shows "AddRecord_loop bgn left w =
     (OK, w\<lparr>w_dest := \<lparr>wf_data = wf_data (w_dest w) @ fst (layout bgn left (block_offset w)),
            wf_space = wf_space (w_dest w) - length (fst (layout bgn left (block_offset w)))\<rparr>,
            block_offset := snd (layout bgn left (block_offset w))\<rparr>)"
  using assms
proof (induction bgn left "block_offset w" arbitrary: w rule: layout.induct)
  case (1 bgn left)
  let ?o = "block_offset w"
  have "length (frag_bytes bgn left ?o) \<le> length (fst (layout bgn left ?o))"
    by (subst layout.simps) (simp add: case_prod_beta)
  with "1.prems"(2) have space: "length (frag_bytes bgn left ?o) \<le> wf_space (w_dest w)" by linarith
  note emit = Emit_fragment [OF "1.prems"(1) space]
  let ?w = "w\<lparr>w_dest := \<lparr>wf_data = wf_data (w_dest w) @ frag_bytes bgn left ?o,
         wf_space = wf_space (w_dest w) - length (frag_bytes bgn left ?o)\<rparr>, block_offset := frag_end ?o left\<rparr>"
  show ?case
  proof (cases "frag_len ?o left < length left")
    case True
    let ?L = "layout False (drop (frag_len ?o left) left) (frag_end ?o left)"
    have L: "layout bgn left ?o = (frag_bytes bgn left ?o @ fst ?L, snd ?L)"
      using True by (subst layout.simps) (simp add: case_prod_beta)
    have "AddRecord_loop False (drop (frag_len ?o left) left) ?w = (OK, ?w\<lparr>w_dest := \<lparr>wf_data = wf_data (w_dest ?w) @ fst ?L,
        wf_space = wf_space (w_dest ?w) - length (fst ?L)\<rparr>, block_offset := snd ?L\<rparr>)"
      using "1.hyps" [OF True, of ?w] "1.prems" L frag_end_le [of ?o left] by (simp add: Writer_ok_def)
    then show ?thesis using True
      unfolding AddRecord_loop.simps [of bgn left w] Let_def emit(1) by (simp add: L Status_ok_def emit(2))
  next
    case False
    then have L: "layout bgn left ?o = (frag_bytes bgn left ?o, frag_end ?o left)"
      by (subst layout.simps) simp
    show ?thesis using False
      unfolding AddRecord_loop.simps [of bgn left w] Let_def emit(1) by (simp add: L Status_ok_def emit(2))
  qed
qed

lemma AddRecord_layout:
  assumes "Writer_ok w" and "length (fst (layout True r (block_offset w))) \<le> wf_space (w_dest w)"
  shows "\<exists>w'. AddRecord r w = (OK, w') \<and> Writer_ok w' \<and> block_offset w' = snd (layout True r (block_offset w))
     \<and> wf_data (w_dest w') = wf_data (w_dest w) @ fst (layout True r (block_offset w))
     \<and> wf_space (w_dest w') = wf_space (w_dest w) - length (fst (layout True r (block_offset w)))"
  using AddRecord_loop_layout [OF assms] assms(1) layout_end_le [of "block_offset w" True r]
  by (simp add: AddRecord_def Writer_ok_def)

fun layouts :: "string list \<Rightarrow> nat \<Rightarrow> string" where
  "layouts [] off = []"
| "layouts (r # rs) off = (let (bytes, off') = layout True r off in bytes @ layouts rs off')"

lemma AddRecords_layouts:
  assumes "Writer_ok w" and "length (layouts rs (block_offset w)) \<le> wf_space (w_dest w)"
  shows "\<exists>w'. AddRecords rs w = (OK, w') \<and> wf_data (w_dest w') = wf_data (w_dest w) @ layouts rs (block_offset w)"
  using assms
proof (induction rs arbitrary: w)
  case (Cons r rs)
  from Cons.prems have sp: "length (fst (layout True r (block_offset w))) \<le> wf_space (w_dest w)"
    by (simp add: case_prod_beta)
  from AddRecord_layout [OF Cons.prems(1) sp] obtain w' where w': "AddRecord r w = (OK, w')" "Writer_ok w'"
    "block_offset w' = snd (layout True r (block_offset w))"
    "wf_data (w_dest w') = wf_data (w_dest w) @ fst (layout True r (block_offset w))"
    "wf_space (w_dest w') = wf_space (w_dest w) - length (fst (layout True r (block_offset w)))" by blast
  from Cons.IH [OF w'(2)] Cons.prems(2) w' show ?case
    by (auto simp: case_prod_beta Status_ok_def)
qed simp

text \<open>
  A successful \<^verbatim>\<open>AddRecord\<close> had room for all its bytes: although the status of the trailer append
  is ignored, a full disk then also refuses the longer header.
\<close>

lemma Emit_ok_space:
  assumes "EmitPhysicalRecord t p w = (OK, w')"
  shows "kHeaderSize + length p \<le> wf_space (w_dest w)"
  using assms
  by (auto simp: EmitPhysicalRecord_def Let_def wf_Append_def kHeaderSize_def Status_ok_def mk_Status_def split: if_splits)

lemma fragment_ok_space:
  assumes "Status_ok (fst (EmitPhysicalRecord t (take (fragment_length w left) left) (switch_block w)))"
    and "fragment_length w left \<le> length left"
  shows "length (frag_bytes bgn left (block_offset w)) \<le> wf_space (w_dest w)"
proof -
  let ?n = "fragment_length w left"
  have sp: "kHeaderSize + ?n \<le> wf_space (w_dest (switch_block w))"
    using assms Emit_ok_space [of t "take ?n left" "switch_block w"]
    by (metis Status_ok_def length_take min.absorb2 prod.collapse)
  have n: "?n = frag_len (block_offset w) left"
    by (simp add: fragment_length_def switch_block_def block_start_def frag_len_def Let_def)
  have len: "length (frag_bytes bgn left (block_offset w)) = length (trailer (block_offset w)) + (kHeaderSize + ?n)"
    using assms(2) by (simp add: frag_bytes_def length_phys_record n)
  have "length (trailer (block_offset w)) < kHeaderSize" by (simp add: trailer_def kHeaderSize_def)
  moreover have "wf_space (w_dest (switch_block w)) = (if length (trailer (block_offset w)) \<le> wf_space (w_dest w)
      then wf_space (w_dest w) - length (trailer (block_offset w)) else wf_space (w_dest w))"
    by (auto simp: switch_block_def Let_def trailer_def wf_Append_def)
  ultimately show ?thesis using sp len by (auto split: if_splits)
qed

lemma AddRecord_ok_space:
  "Writer_ok w \<Longrightarrow> Status_ok (fst (AddRecord_loop bgn left w)) \<Longrightarrow>
   length (fst (layout bgn left (block_offset w))) \<le> wf_space (w_dest w)"
proof (induction bgn left w rule: AddRecord_loop.induct)
  case (1 bgn left w)
  let ?o = "block_offset w" and ?n = "fragment_length w left"
  have n: "?n = frag_len ?o left"
    by (simp add: fragment_length_def switch_block_def block_start_def frag_len_def Let_def)
  let ?e = "EmitPhysicalRecord (fragment_type bgn (length left = ?n)) (take ?n left) (switch_block w)"
  have unf: "AddRecord_loop bgn left w = (if Status_ok (fst ?e) \<and> 0 < length (drop ?n left)
      then AddRecord_loop False (drop ?n left) (snd ?e) else ?e)"
    by (simp only: AddRecord_loop.simps [of bgn left w] Let_def case_prod_beta prod.collapse)
  have "?n \<le> length left" by (simp add: n frag_len_def)
  moreover have ok: "Status_ok (fst ?e)" using "1.prems"(2) unf by metis
  ultimately have sp: "length (frag_bytes bgn left ?o) \<le> wf_space (w_dest w)" using fragment_ok_space by blast
  note e = Emit_fragment(1) [OF "1.prems"(1) sp]
  show ?case
  proof (cases "frag_len ?o left < length left")
    case True
    have "length (fst (layout False (drop ?n left) (block_offset (snd ?e)))) \<le> wf_space (w_dest (snd ?e))"
    proof (rule "1.IH" [OF refl refl surjective_pairing [symmetric] refl])
      show "Writer_ok (snd ?e)" using "1.prems"(1) frag_end_le [of ?o left] by (simp add: e Writer_ok_def)
      show "Status_ok (fst (AddRecord_loop False (drop ?n left) (snd ?e)))"
        using "1.prems"(2) unf ok True n by (metis length_drop zero_less_diff)
    qed (use ok True n in auto)
    from this [unfolded e] show ?thesis using True sp by (subst layout.simps) (simp add: case_prod_beta n)
  next
    case False
    then show ?thesis using sp by (subst layout.simps) simp
  qed
qed

lemma AddRecords_ok:
  assumes "Writer_ok w" and "AddRecords rs w = (OK, w')"
  shows "wf_data (w_dest w') = wf_data (w_dest w) @ layouts rs (block_offset w)"
  using assms
proof (induction rs arbitrary: w)
  case (Cons r rs)
  have ok: "Status_ok (fst (AddRecord r w))" and rest: "AddRecords rs (snd (AddRecord r w)) = (OK, w')"
    using Cons.prems(2) by (auto simp: case_prod_beta Let_def Status_ok_def split: if_splits)
  obtain w1 where w1: "AddRecord r w = (OK, w1)" "Writer_ok w1" "block_offset w1 = snd (layout True r (block_offset w))"
    "wf_data (w_dest w1) = wf_data (w_dest w) @ fst (layout True r (block_offset w))"
    using AddRecord_layout [OF Cons.prems(1) AddRecord_ok_space [OF Cons.prems(1) ok [unfolded AddRecord_def]]] by blast
  from Cons.IH [OF w1(2)] rest w1 show ?case by (simp add: case_prod_beta)
qed simp

end
