(* ===== verification/Log_Reader.thy ===== *)
theory Log_Reader
  imports Log_Writer
begin

text \<open>
  \<^verbatim>\<open>src/leveldb/db/log_reader.cc\<close>.  The sequential file is the bytes not read yet and the
  statuses of its next operations (none left: every further operation succeeds).  The
  reporter is the list of the drops reported to it.  Record types are the unsigned numbers
  that the source compares, so that a type byte of 5 or 6 in a file is indistinguishable
  from \<^verbatim>\<open>kEof\<close> and \<^verbatim>\<open>kBadRecord\<close>, and one of 128 or tail is sign-extended, as in the source.
  Where \<^verbatim>\<open>ReadPhysicalRecord\<close> leaves its result argument alone the model returns the empty
  fragment; the caller does not look at it there.
\<close>

section \<open>State\<close>

record seqfile =
  sf_data :: string
  sf_status :: "Status list"

definition sf_next :: "seqfile \<Rightarrow> Status" where
  "sf_next f = (case sf_status f of [] \<Rightarrow> OK | s # _ \<Rightarrow> s)"

definition sf_Read :: "nat \<Rightarrow> seqfile \<Rightarrow> Status \<times> string \<times> seqfile" where
  "sf_Read n f =
     (if Status_ok (sf_next f)
      then (OK, take n (sf_data f), \<lparr>sf_data = drop n (sf_data f), sf_status = tl (sf_status f)\<rparr>)
      else (sf_next f, [], f\<lparr>sf_status := tl (sf_status f)\<rparr>))"

definition sf_Skip :: "nat \<Rightarrow> seqfile \<Rightarrow> Status \<times> seqfile" where
  "sf_Skip n f =
     (if Status_ok (sf_next f)
      then (OK, \<lparr>sf_data = drop n (sf_data f), sf_status = tl (sf_status f)\<rparr>)
      else (sf_next f, f\<lparr>sf_status := tl (sf_status f)\<rparr>))"

record Reader =
  r_file :: seqfile
  has_reporter :: bool
  checksum :: bool
  buffer :: string
  eof :: bool
  last_record_offset :: u64
  end_of_buffer_offset :: u64
  initial_offset :: u64
  resyncing :: bool
  reports :: "(u64 \<times> Status) list"

definition Reader_new :: "seqfile \<Rightarrow> bool \<Rightarrow> bool \<Rightarrow> u64 \<Rightarrow> Reader" where
  "Reader_new f rep chk off =
     \<lparr>r_file = f, has_reporter = rep, checksum = chk, buffer = [], eof = False, last_record_offset = 0,
      end_of_buffer_offset = 0, initial_offset = off, resyncing = (0 < off), reports = []\<rparr>"

definition kEof :: u32 where
  "kEof = of_nat (kMaxRecordType + 1)"

definition kBadRecord :: u32 where
  "kBadRecord = of_nat (kMaxRecordType + 2)"

definition type_num :: "RecordType \<Rightarrow> u32" where
  "type_num t = of_nat (RecordType_num t)"

section \<open>Reading\<close>

definition ReportDrop :: "u64 \<Rightarrow> Status \<Rightarrow> Reader \<Rightarrow> Reader" where
  "ReportDrop bytes reason r =
     (if has_reporter r \<and> initial_offset r \<le> end_of_buffer_offset r - of_nat (length (buffer r)) - bytes
      then r\<lparr>reports := reports r @ [(bytes, reason)]\<rparr> else r)"

definition ReportCorruption :: "u64 \<Rightarrow> string \<Rightarrow> Reader \<Rightarrow> Reader" where
  "ReportCorruption bytes reason r = ReportDrop bytes (Corruption reason) r"

definition SkipToInitialBlock :: "Reader \<Rightarrow> bool \<times> Reader" where
  "SkipToInitialBlock r =
     (let offset_in_block = initial_offset r mod of_nat kBlockSize;
          loc0 = initial_offset r - offset_in_block;
          loc = (if of_nat (kBlockSize - 6) < offset_in_block then loc0 + of_nat kBlockSize else loc0);
          r1 = r\<lparr>end_of_buffer_offset := loc\<rparr>
      in if 0 < loc then
           let (s, f) = sf_Skip (unat loc) (r_file r1); r2 = r1\<lparr>r_file := f\<rparr>
           in if Status_ok s then (True, r2) else (False, ReportDrop loc s r2)
         else (True, r1))"

definition parse_physical :: "Reader \<Rightarrow> u32 \<times> string \<times> Reader" where
  "parse_physical r =
     (let header = buffer r;
          a = (ucast (ord8 (header ! 4)) :: u32) AND 0xff;
          b = (ucast (ord8 (header ! 5)) :: u32) AND 0xff;
          t = (scast (ord8 (header ! 6)) :: u32);
          len = unat (a OR push_bit 8 b);
          drop_size = of_nat (length header);
          cleared = r\<lparr>buffer := []\<rparr>
      in if length header < kHeaderSize + len then
           (if \<not> eof r then (kBadRecord, [], ReportCorruption drop_size ''bad record length'' cleared)
            else (kEof, [], cleared))
         else if t = 0 \<and> len = 0 then (kBadRecord, [], cleared)
         else if checksum r \<and> crc32c_Value (take (1 + len) (drop 6 header)) \<noteq> Unmask (DecodeFixed32 header) then
           (kBadRecord, [], ReportCorruption drop_size ''checksum mismatch'' cleared)
         else
           let r' = r\<lparr>buffer := drop (kHeaderSize + len) header\<rparr>
           in if end_of_buffer_offset r' - of_nat (length (buffer r')) - of_nat kHeaderSize - of_nat len < initial_offset r'
              then (kBadRecord, [], r')
              else (t, take len (drop kHeaderSize header), r'))"

definition fill_buffer :: "Reader \<Rightarrow> Status \<times> Reader" where
  "fill_buffer r =
     (let (status, data, f) = sf_Read kBlockSize (r_file r)
      in (status, r\<lparr>r_file := f, buffer := data,
            end_of_buffer_offset := end_of_buffer_offset r + of_nat (length data),
            eof := (if Status_ok status \<and> length data < kBlockSize then True else eof r)\<rparr>))"

function ReadPhysicalRecord :: "Reader \<Rightarrow> u32 \<times> string \<times> Reader" where
  "ReadPhysicalRecord r =
     (if length (buffer r) < kHeaderSize then
        (if \<not> eof r then
           (if \<not> Status_ok (fst (fill_buffer r))
            then (kEof, [], (ReportDrop (of_nat kBlockSize) (fst (fill_buffer r)) ((snd (fill_buffer r))\<lparr>buffer := []\<rparr>))\<lparr>eof := True\<rparr>)
            else ReadPhysicalRecord (snd (fill_buffer r)))
         else (kEof, [], r\<lparr>buffer := []\<rparr>))
      else parse_physical r)"
  by pat_completeness auto
termination
  by (relation "measure (\<lambda>r. if length (buffer r) < kHeaderSize \<and> \<not> eof r then 1 else 0)")
    (auto simp: kHeaderSize_def kBlockSize_def fill_buffer_def case_prod_beta split: if_splits)

declare ReadPhysicalRecord.simps [simp del]

text \<open>Every result but the end of the file consumes bytes.\<close>

definition pending :: "Reader \<Rightarrow> nat" where
  "pending r = length (buffer r) + length (sf_data (r_file r))"

lemma pending_Report [simp]: "pending (ReportDrop n s r) = pending r" "pending (ReportCorruption n m r) = pending r"
  by (simp_all add: ReportDrop_def ReportCorruption_def pending_def)

lemma parse_physical_pending:
  assumes "kHeaderSize \<le> length (buffer r)" and "parse_physical r = (t, frag, r')"
  shows "pending r' < pending r"
proof -
  have "pending (r\<lparr>buffer := []\<rparr>) < pending r" "pending (r\<lparr>buffer := drop (kHeaderSize + n) (buffer r)\<rparr>) < pending r" for n
    using assms(1) by (auto simp: pending_def kHeaderSize_def)
  with assms(2) show ?thesis
    by (auto simp: parse_physical_def Let_def split: if_splits)
qed

lemma pending_fill: "length (buffer r) < kHeaderSize \<Longrightarrow> pending (snd (fill_buffer r)) \<le> pending r"
  by (auto simp: fill_buffer_def pending_def sf_Read_def Let_def)

lemma ReadPhysicalRecord_pending:
  "ReadPhysicalRecord r = (t, frag, r') \<Longrightarrow> t \<noteq> kEof \<Longrightarrow> pending r' < pending r"
proof (induction r rule: ReadPhysicalRecord.induct)
  case (1 r)
  show ?case
  proof (cases "length (buffer r) < kHeaderSize")
    case False
    then show ?thesis using "1.prems" parse_physical_pending [of r t frag r']
      by (simp add: ReadPhysicalRecord.simps [of r])
  next
    case True
    from "1.prems" True have "\<not> eof r" "Status_ok (fst (fill_buffer r))"
      "ReadPhysicalRecord (snd (fill_buffer r)) = (t, frag, r')"
      by (auto simp: ReadPhysicalRecord.simps [of r] split: if_splits)
    then show ?thesis using "1.IH" True "1.prems"(2) pending_fill [OF True] by fastforce
  qed
qed

lemma pending_next:
  "fst (ReadPhysicalRecord r) \<noteq> kEof \<Longrightarrow> pending (snd (snd (ReadPhysicalRecord r))) < pending r"
  using ReadPhysicalRecord_pending by (metis prod.collapse)

lemma pending_fields [simp]:
  "pending (r\<lparr>resyncing := x\<rparr>) = pending r" "pending (r\<lparr>last_record_offset := y\<rparr>) = pending r"
  by (simp_all add: pending_def)

definition unknown_type :: "u32 \<Rightarrow> string" where
  "unknown_type t = ''unknown record type '' @ nat_to_string (unat t)"

text \<open>
  One round of the loop of \<^verbatim>\<open>ReadRecord\<close>: either the state of the next round (the variables
  \<^verbatim>\<open>in_fragmented_record\<close>, \<^verbatim>\<open>scratch\<close> and \<^verbatim>\<open>prospective_record_offset\<close>, and the reader) or the result.
\<close>

definition ReadRecord_step ::
  "bool \<Rightarrow> string \<Rightarrow> u64 \<Rightarrow> Reader \<Rightarrow> (bool \<times> string \<times> u64 \<times> Reader) + (string option \<times> Reader)" where
  "ReadRecord_step in_frag scratch prospective r =
     (let (t, fragment, r1) = ReadPhysicalRecord r;
          off = end_of_buffer_offset r1 - of_nat (length (buffer r1)) - of_nat kHeaderSize - of_nat (length fragment)
      in if resyncing r1 \<and> t = type_num kMiddleType then Inl (in_frag, scratch, prospective, r1)
         else if resyncing r1 \<and> t = type_num kLastType then Inl (in_frag, scratch, prospective, r1\<lparr>resyncing := False\<rparr>)
         else let r2 = r1\<lparr>resyncing := False\<rparr> in
           if t = type_num kFullType then
             Inr (Some fragment,
              (if in_frag \<and> scratch \<noteq> []
               then ReportCorruption (of_nat (length scratch)) ''partial record without end(1)'' r2 else r2)
                \<lparr>last_record_offset := off\<rparr>)
           else if t = type_num kFirstType then
             Inl (True, fragment, off,
               if in_frag \<and> scratch \<noteq> []
               then ReportCorruption (of_nat (length scratch)) ''partial record without end(2)'' r2 else r2)
           else if t = type_num kMiddleType then
             (if \<not> in_frag
              then Inl (in_frag, scratch, prospective,
                ReportCorruption (of_nat (length fragment)) ''missing start of fragmented record(1)'' r2)
              else Inl (in_frag, scratch @ fragment, prospective, r2))
           else if t = type_num kLastType then
             (if \<not> in_frag
              then Inl (in_frag, scratch, prospective,
                ReportCorruption (of_nat (length fragment)) ''missing start of fragmented record(2)'' r2)
              else Inr (Some (scratch @ fragment), r2\<lparr>last_record_offset := prospective\<rparr>))
           else if t = kEof then Inr (None, r2)
           else if t = kBadRecord then
             (if in_frag
              then Inl (False, [], prospective,
                ReportCorruption (of_nat (length scratch)) ''error in middle of record'' r2)
              else Inl (in_frag, scratch, prospective, r2))
           else
             Inl (False, [], prospective,
               ReportCorruption (of_nat (length fragment + (if in_frag then length scratch else 0))) (unknown_type t) r2))"

lemma type_num_eqs [simp]:
  "type_num kFullType = 1" "type_num kFirstType = 2" "type_num kMiddleType = 3" "type_num kLastType = 4"
  "kEof = 5" "kBadRecord = 6"
  by (simp_all add: type_num_def RecordType_num_def kEof_def kBadRecord_def kMaxRecordType_def)

lemma ReadRecord_step_pending:
  "ReadRecord_step f s p r = Inl (f', s', p', r') \<Longrightarrow> pending r' < pending r"
  "ReadRecord_step f s p r = Inr (Some x, r') \<Longrightarrow> pending r' < pending r"
  using pending_next [of r]
  by (auto simp: ReadRecord_step_def Let_def case_prod_beta split: if_splits)

function ReadRecord_loop :: "bool \<Rightarrow> string \<Rightarrow> u64 \<Rightarrow> Reader \<Rightarrow> string option \<times> Reader" where
  "ReadRecord_loop in_frag scratch prospective r =
     (case ReadRecord_step in_frag scratch prospective r of
        Inl (f, s, p, r') \<Rightarrow> ReadRecord_loop f s p r'
      | Inr res \<Rightarrow> res)"
  by pat_completeness auto
termination
  by (relation "measure (\<lambda>(_, _, _, r). pending r)") (auto dest: ReadRecord_step_pending(1))

declare ReadRecord_loop.simps [simp del]

definition ReadRecord :: "Reader \<Rightarrow> string option \<times> Reader" where
  "ReadRecord r =
     (if last_record_offset r < initial_offset r then
        (let (ok, r1) = SkipToInitialBlock r in if ok then ReadRecord_loop False [] 0 r1 else (None, r1))
      else ReadRecord_loop False [] 0 r)"

definition LastRecordOffset :: "Reader \<Rightarrow> u64" where
  "LastRecordOffset r = last_record_offset r"

lemma ReadRecord_loop_pending:
  "ReadRecord_loop f s p r = (Some x, r') \<Longrightarrow> pending r' < pending r"
proof (induction f s p r rule: ReadRecord_loop.induct)
  case (1 f s p r)
  show ?case
  proof (cases "ReadRecord_step f s p r")
    case (Inl a)
    obtain f' s' p' r1 where a: "a = (f', s', p', r1)" by (cases a)
    with Inl "1.prems" have "ReadRecord_loop f' s' p' r1 = (Some x, r')" by (simp add: ReadRecord_loop.simps [of f s p r])
    with "1.IH" [OF Inl a [symmetric] refl refl] ReadRecord_step_pending(1) [OF Inl [unfolded a]] show ?thesis by auto
  next
    case (Inr b)
    with "1.prems" show ?thesis
      using ReadRecord_step_pending(2) [of f s p r x r'] by (simp add: ReadRecord_loop.simps [of f s p r])
  qed
qed

lemma ReadRecord_pending: "ReadRecord r = (Some x, r') \<Longrightarrow> pending r' < pending r"
proof -
  have "SkipToInitialBlock r = (True, r1) \<Longrightarrow> pending r1 \<le> pending r" for r1
    by (auto simp: SkipToInitialBlock_def sf_Skip_def pending_def Let_def split: if_splits)
  then show "ReadRecord r = (Some x, r') \<Longrightarrow> pending r' < pending r"
    by (fastforce simp: ReadRecord_def dest: ReadRecord_loop_pending split: if_splits prod.splits)
qed

text \<open>All the records of a file, with their offsets, as a caller collects them.\<close>

function read_all :: "Reader \<Rightarrow> (u64 \<times> string) list \<times> Reader" where
  "read_all r =
     (case ReadRecord r of
        (None, r') \<Rightarrow> ([], r')
      | (Some x, r') \<Rightarrow> let (xs, r'') = read_all r' in ((LastRecordOffset r', x) # xs, r''))"
  by pat_completeness auto
termination
  by (relation "measure pending") (auto dest: ReadRecord_pending [OF sym])

declare read_all.simps [simp del]

section \<open>Reading back what the writer wrote\<close>

text \<open>
  \<open>at_pos off r data\<close>: the reader stands at offset \<open>off\<close> of a block and \<open>data\<close> is what is left of
  the file, in its buffer and behind it.
\<close>

definition at_pos :: "nat \<Rightarrow> Reader \<Rightarrow> string \<Rightarrow> bool" where
  "at_pos off r data \<longleftrightarrow>
     off \<le> kBlockSize \<and> initial_offset r = 0 \<and> \<not> resyncing r \<and> sf_status (r_file r) = [] \<and>
     (if eof r then buffer r = data \<and> length data \<le> kBlockSize - off
      else buffer r @ sf_data (r_file r) = data \<and> length (buffer r) = kBlockSize - off)"

lemma length_bytes:
  assumes "n < 2 ^ 16"
  shows "unat (((ucast (ord8 (byte64 (of_nat n AND 0xff))) :: u32) AND 0xff)
      OR push_bit 8 (ucast (ord8 (byte64 (drop_bit 8 (of_nat n)))) AND 0xff)) = n"
proof -
  have m: "x AND 0xff = take_bit 8 x" for x :: u64
    by (simp add: take_bit_eq_mask mask_eq_decr_exp)
  have low: "k < 16" if "bit n k" for k
    using assms that by (metis bit_take_bit_iff take_bit_nat_eq_self)
  have "((ucast (ord8 (byte64 (of_nat n AND 0xff))) :: u32) AND 0xff)
      OR push_bit 8 (ucast (ord8 (byte64 (drop_bit 8 (of_nat n)))) AND 0xff) = of_nat n"
  proof (rule bit_eqI)
    fix k :: nat
    show "bit (((ucast (ord8 (byte64 (of_nat n AND 0xff))) :: u32) AND 0xff)
      OR push_bit 8 (ucast (ord8 (byte64 (drop_bit 8 (of_nat n)))) AND 0xff)) k = bit (of_nat n :: u32) k"
      using low [of k] by (auto simp: m low_byte byte64_def bit_simps)
  qed
  then show ?thesis using assms by (simp add: unat_of_nat take_bit_nat_eq_self)
qed

lemma scast_type: "t \<noteq> kZeroType \<Longrightarrow> (scast (ord8 (char_of (RecordType_num t))) :: u32) = type_num t"
  by (cases t) (simp_all add: type_num_def RecordType_num_def ord8_def)

lemma parse_phys_record:
  assumes "buffer r = phys_record t p @ tail" and "initial_offset r = 0" and "t \<noteq> kZeroType" and "length p < 2 ^ 16"
  shows "parse_physical r = (type_num t, p, r\<lparr>buffer := tail\<rparr>)"
proof -
  let ?n = "length p"
  let ?crc = "EncodeFixed32 (Mask (crc32c_Value (char_of (RecordType_num t) # p)))"
  let ?a = "byte64 (of_nat ?n AND 0xff)" and ?b = "byte64 (drop_bit 8 (of_nat ?n))" and ?t = "char_of (RecordType_num t) :: char"
  have h: "buffer r = ?crc @ ?a # ?b # ?t # p @ tail"
    by (simp add: assms(1) phys_record_def)
  have nth: "buffer r ! 4 = ?a" "buffer r ! 5 = ?b" "buffer r ! 6 = ?t"
    by (simp_all add: h nth_append)
  have len: "unat (((ucast (ord8 (buffer r ! 4)) :: u32) AND 0xff) OR push_bit 8 (ucast (ord8 (buffer r ! 5)) AND 0xff)) = ?n"
    unfolding nth by (rule length_bytes [OF assms(4)])
  have ty: "(scast (ord8 (buffer r ! 6)) :: u32) = type_num t" "type_num t \<noteq> 0"
    unfolding nth using assms(3) by (simp add: scast_type) (cases t; simp add: assms(3))
  have drops: "take (1 + ?n) (drop 6 (buffer r)) = ?t # p" "drop (kHeaderSize + ?n) (buffer r) = tail"
    "take ?n (drop kHeaderSize (buffer r)) = p" "kHeaderSize + ?n \<le> length (buffer r)"
    by (simp_all add: h kHeaderSize_def numeral_3_eq_3)
  have "DecodeFixed32 (buffer r) = Mask (crc32c_Value (?t # p))" by (simp add: h)
  then have crc: "Unmask (DecodeFixed32 (buffer r)) = crc32c_Value (?t # p)" by (simp add: Mask_Unmask)
  show ?thesis
    unfolding parse_physical_def Let_def len ty drops crc
    using ty(2) drops(4) assms(2) by simp
qed

lemma at_pos_buffered:
  assumes "at_pos off r (phys_record t p @ tail)" and "off + kHeaderSize + length p \<le> kBlockSize"
  shows "\<exists>m. buffer r = phys_record t p @ m \<and> at_pos (off + kHeaderSize + length p) (r\<lparr>buffer := m\<rparr>) tail"
proof (cases "eof r")
  case True
  then show ?thesis using assms by (auto simp: at_pos_def length_phys_record)
next
  case False
  then have "buffer r @ sf_data (r_file r) = phys_record t p @ tail" "length (phys_record t p) \<le> length (buffer r)"
    using assms by (auto simp: at_pos_def length_phys_record)
  then obtain m where "buffer r = phys_record t p @ m" "m @ sf_data (r_file r) = tail"
    by (metis append_eq_append_conv_if append_take_drop_id)
  then show ?thesis using False assms by (auto simp: at_pos_def length_phys_record)
qed

lemma at_pos_fill:
  assumes "\<not> eof r" and "sf_status (r_file r) = []" and "initial_offset r = 0" and "\<not> resyncing r"
  shows "at_pos 0 (snd (fill_buffer r)) (sf_data (r_file r))"
  using assms by (auto simp: at_pos_def fill_buffer_def sf_Read_def sf_next_def Status_ok_def)

lemma ReadPhysicalRecord_phys:
  assumes "at_pos off r (trailer off @ phys_record t p @ tail)" and "t \<noteq> kZeroType"
    and "block_start off + kHeaderSize + length p \<le> kBlockSize"
  shows "\<exists>r'. ReadPhysicalRecord r = (type_num t, p, r') \<and> at_pos (block_start off + kHeaderSize + length p) r' tail
     \<and> reports r' = reports r"
proof -
  have len: "length p < 2 ^ 16" using assms(3) by (simp add: kBlockSize_def)
  have here: "\<exists>r'. ReadPhysicalRecord r1 = (type_num t, p, r') \<and> at_pos (o1 + kHeaderSize + length p) r' tail
     \<and> reports r' = reports r1"
    if a: "at_pos o1 r1 (phys_record t p @ tail)" "o1 + kHeaderSize + length p \<le> kBlockSize" for o1 r1
  proof -
    obtain m where m: "buffer r1 = phys_record t p @ m" "at_pos (o1 + kHeaderSize + length p) (r1\<lparr>buffer := m\<rparr>) tail"
      using at_pos_buffered [OF a] by blast
    moreover have "initial_offset r1 = 0" using a(1) by (simp add: at_pos_def)
    ultimately have "parse_physical r1 = (type_num t, p, r1\<lparr>buffer := m\<rparr>)"
      using parse_phys_record assms(2) len by blast
    then show ?thesis using m by (subst ReadPhysicalRecord.simps) (simp add: length_phys_record)
  qed
  show ?thesis
  proof (cases "kBlockSize - off < kHeaderSize")
    case False
    then show ?thesis using here [of off r] assms(1,3) by (simp add: trailer_def block_start_def)
  next
    case True
    then have tr: "length (trailer off) = kBlockSize - off" "block_start off = 0" by (simp_all add: trailer_def block_start_def)
    have "\<not> eof r" using assms(1) True by (auto simp: at_pos_def tr length_phys_record)
    then have b: "buffer r = trailer off" "sf_data (r_file r) = phys_record t p @ tail" "sf_status (r_file r) = []"
      using assms(1) by (auto simp: at_pos_def tr append_eq_append_conv)
    let ?r1 = "snd (fill_buffer r)"
    have fill: "fst (fill_buffer r) = OK" "reports ?r1 = reports r"
      by (simp_all add: fill_buffer_def sf_Read_def sf_next_def b Status_ok_def)
    have "at_pos 0 ?r1 (phys_record t p @ tail)"
    proof -
      have "initial_offset r = 0" "\<not> resyncing r" using assms(1) by (simp_all add: at_pos_def)
      from at_pos_fill [OF \<open>\<not> eof r\<close> b(3) this] show ?thesis by (simp only: b(2))
    qed
    from here [OF this] assms(3) tr obtain r' where "ReadPhysicalRecord ?r1 = (type_num t, p, r')"
      "at_pos (kHeaderSize + length p) r' tail" "reports r' = reports r" by (auto simp: fill)
    then show ?thesis using True \<open>\<not> eof r\<close> tr b
      by (subst ReadPhysicalRecord.simps) (simp add: fill Status_ok_def)
  qed
qed

lemma ReadPhysicalRecord_end:
  assumes "at_pos off r []"
  shows "\<exists>r'. ReadPhysicalRecord r = (kEof, [], r') \<and> reports r' = reports r \<and> \<not> resyncing r'"
proof -
  have e: "ReadPhysicalRecord r1 = (kEof, [], r1\<lparr>buffer := []\<rparr>)" if "buffer r1 = []" "eof r1" for r1
    using that by (subst ReadPhysicalRecord.simps) (simp add: kHeaderSize_def)
  show ?thesis
  proof (cases "eof r")
    case True
    then show ?thesis using e [of r] assms by (simp add: at_pos_def)
  next
    case False
    let ?r1 = "snd (fill_buffer r)"
    have b: "buffer r = []" "sf_data (r_file r) = []" "sf_status (r_file r) = []" "\<not> resyncing r"
      using assms False by (simp_all add: at_pos_def)
    then have f: "fst (fill_buffer r) = OK" "buffer ?r1 = []" "eof ?r1" "reports ?r1 = reports r" "\<not> resyncing ?r1"
      by (simp_all add: fill_buffer_def sf_Read_def sf_next_def Status_ok_def kBlockSize_def)
    then show ?thesis using e [of ?r1] False b
      by (subst ReadPhysicalRecord.simps) (simp add: kHeaderSize_def Status_ok_def)
  qed
qed

text \<open>A record is read back whole, however many fragments it was written in.\<close>

lemma fragment_type_nonzero: "fragment_type b e \<noteq> kZeroType"
  by (simp add: fragment_type_def)

lemma at_pos_noresync: "at_pos off r data \<Longrightarrow> \<not> resyncing r"
  by (simp add: at_pos_def)

lemma ReadRecord_loop_layout:
  assumes "at_pos off r (fst (layout bgn left off) @ tail)" and "bgn \<longrightarrow> scratch = []"
  shows "\<exists>r'. ReadRecord_loop (\<not> bgn) scratch prosp r = (Some (scratch @ left), r')
     \<and> at_pos (snd (layout bgn left off)) r' tail \<and> reports r' = reports r"
  using assms
proof (induction bgn left off arbitrary: r scratch prosp rule: layout.induct)
  case (1 bgn left off)
  let ?n = "frag_len off left" and ?e = "frag_end off left"
  let ?t = "fragment_type bgn (length left = ?n)"
  have off: "off \<le> kBlockSize" using "1.prems"(1) by (simp add: at_pos_def)
  have n: "length (take ?n left) = ?n" by (simp add: frag_len_def)
  have e: "block_start off + kHeaderSize + length (take ?n left) = ?e" unfolding n by (simp add: frag_end_def)
  let ?rest = "if ?n < length left then fst (layout False (drop ?n left) ?e) @ tail else tail"
  have "fst (layout bgn left off) @ tail = trailer off @ phys_record ?t (take ?n left) @ ?rest"
    by (subst layout.simps) (simp add: frag_bytes_def case_prod_beta)
  with "1.prems"(1) have "at_pos off r (trailer off @ phys_record ?t (take ?n left) @ ?rest)" by simp
  from ReadPhysicalRecord_phys [OF this fragment_type_nonzero] e frag_end_le [OF off, of left]
  obtain r1 where r1: "ReadPhysicalRecord r = (type_num ?t, take ?n left, r1)" "at_pos ?e r1 ?rest" "reports r1 = reports r"
    by auto
  note nores = at_pos_noresync [OF r1(2)]
  have same: "r1\<lparr>resyncing := False\<rparr> = r1" using nores by (cases r1) simp
  show ?case
  proof (cases "?n < length left")
    case True
    have L: "snd (layout bgn left off) = snd (layout False (drop ?n left) ?e)"
      using True by (subst layout.simps) (simp add: case_prod_beta)
    have step: "\<exists>p. ReadRecord_step (\<not> bgn) scratch prosp r = Inl (True, scratch @ take ?n left, p, r1)"
      using True "1.prems"(2) nores
      by (auto simp: ReadRecord_step_def r1(1) fragment_type_def same)
    then obtain p where p: "ReadRecord_step (\<not> bgn) scratch prosp r = Inl (True, scratch @ take ?n left, p, r1)" by blast
    from "1.IH" [OF True, of r1 "scratch @ take ?n left" p] r1(2) True
    obtain r' where "ReadRecord_loop True (scratch @ take ?n left) p r1 = (Some (scratch @ left), r')"
      "at_pos (snd (layout False (drop ?n left) ?e)) r' tail" "reports r' = reports r1" by auto
    then show ?thesis using r1(3) L p by (subst ReadRecord_loop.simps) simp
  next
    case False
    then have all: "take ?n left = left" "length left = ?n" by (auto simp: frag_len_def)
    have L: "snd (layout bgn left off) = ?e" using False by (subst layout.simps) simp
    have "\<exists>o'. ReadRecord_step (\<not> bgn) scratch prosp r = Inr (Some (scratch @ left), r1\<lparr>last_record_offset := o'\<rparr>)"
      using "1.prems"(2) nores by (auto simp: ReadRecord_step_def r1(1) fragment_type_def same all)
    moreover have "at_pos ?e (r1\<lparr>last_record_offset := o'\<rparr>) tail" for o'
      using r1(2) False by (simp add: at_pos_def)
    ultimately show ?thesis using r1(3) L by (subst ReadRecord_loop.simps) auto
  qed
qed

lemma ReadRecord_at: "at_pos off r data \<Longrightarrow> ReadRecord r = ReadRecord_loop False [] 0 r"
  by (simp add: ReadRecord_def at_pos_def)

lemma ReadRecord_end:
  assumes "at_pos off r []"
  shows "\<exists>r'. ReadRecord r = (None, r') \<and> reports r' = reports r"
proof -
  obtain r' where "ReadPhysicalRecord r = (kEof, [], r')" "reports r' = reports r" "\<not> resyncing r'"
    using ReadPhysicalRecord_end [OF assms] by blast
  then have "ReadRecord_step False [] 0 r = Inr (None, r'\<lparr>resyncing := False\<rparr>)" by (simp add: ReadRecord_step_def)
  with \<open>reports r' = reports r\<close> show ?thesis
    by (simp add: ReadRecord_at [OF assms] ReadRecord_loop.simps [of False "[]" 0 r])
qed

lemma read_all_layouts:
  "at_pos off r (layouts rs off) \<Longrightarrow> map snd (fst (read_all r)) = rs \<and> reports (snd (read_all r)) = reports r"
proof (induction rs arbitrary: off r)
  case Nil
  then show ?case using ReadRecord_end [of off r] by (subst (1 2) read_all.simps) auto
next
  case (Cons x rs)
  let ?L = "layout True x off"
  from Cons.prems have "at_pos off r (fst ?L @ layouts rs (snd ?L))" by (simp add: case_prod_beta)
  from ReadRecord_loop_layout [OF this, of "[]" 0] obtain r' where r':
    "ReadRecord r = (Some x, r')" "at_pos (snd ?L) r' (layouts rs (snd ?L))" "reports r' = reports r"
    by (auto simp: ReadRecord_at [OF Cons.prems])
  from Cons.IH [OF r'(2)] r' show ?case
    by (subst (1 2) read_all.simps) (simp add: case_prod_beta)
qed

lemma Reader_new_at: "at_pos kBlockSize (Reader_new \<lparr>sf_data = d, sf_status = []\<rparr> rep chk 0) d"
  by (simp add: at_pos_def Reader_new_def)

lemma layouts_block_end: "layouts rs kBlockSize = layouts rs 0"
proof (cases rs)
  case (Cons r rs')
  have "trailer kBlockSize = trailer 0" "block_start kBlockSize = block_start 0"
    by (simp_all add: trailer_def block_start_def kBlockSize_def kHeaderSize_def)
  then have "frag_len kBlockSize r = frag_len 0 r" "frag_end kBlockSize r = frag_end 0 r" "frag_bytes True r kBlockSize = frag_bytes True r 0"
    by (simp_all add: frag_len_def frag_end_def frag_bytes_def)
  then have "layout True r kBlockSize = layout True r 0" by (subst (1 2) layout.simps) simp
  with Cons show ?thesis by simp
qed simp

lemma Writer_new_ok: "Writer_ok (Writer_new f)"
  by (simp add: Writer_ok_def Writer_new_def)

section \<open>Properties\<close>

text \<open>
  C11: when a log writer on an empty file has accepted a list of records, of any lengths and
  however they fall across the 32 KiB blocks, a reader that verifies checksums returns
  exactly these records in order and reports no corruption.
\<close>

theorem log_roundtrip:
  assumes "wf_data f = []" and "AddRecords rs (Writer_new f) = (OK, w)"
  shows "map snd (fst (read_all (Reader_new \<lparr>sf_data = wf_data (w_dest w), sf_status = []\<rparr> True True 0))) = rs
    \<and> reports (snd (read_all (Reader_new \<lparr>sf_data = wf_data (w_dest w), sf_status = []\<rparr> True True 0))) = []"
proof -
  have "wf_data (w_dest w) = layouts rs 0"
    using AddRecords_ok [OF Writer_new_ok assms(2)] assms(1) by (simp add: Writer_new_def)
  then have "at_pos kBlockSize (Reader_new \<lparr>sf_data = wf_data (w_dest w), sf_status = []\<rparr> True True 0) (layouts rs kBlockSize)"
    using Reader_new_at by (simp add: layouts_block_end)
  from read_all_layouts [OF this] show ?thesis by (simp add: Reader_new_def)
qed

text \<open>A witness: two short records on a file with room for them.\<close>

lemma AddRecord_short:
  assumes "Writer_ok w" and "block_offset w + kHeaderSize + length r \<le> kBlockSize"
    and "kHeaderSize + length r \<le> wf_space (w_dest w)"
  shows "\<exists>w'. AddRecord r w = (OK, w') \<and> Writer_ok w' \<and> block_offset w' = block_offset w + kHeaderSize + length r
     \<and> wf_space (w_dest w') = wf_space (w_dest w) - (kHeaderSize + length r)"
proof -
  have n: "frag_len (block_offset w) r = length r" "block_start (block_offset w) = block_offset w" "trailer (block_offset w) = []"
    using assms(2) by (auto simp: frag_len_def block_start_def trailer_def)
  then have "layout True r (block_offset w) = (phys_record kFullType r, block_offset w + kHeaderSize + length r)"
    by (subst layout.simps) (simp add: frag_bytes_def frag_end_def fragment_type_def)
  with AddRecord_layout [OF assms(1), of r] assms(3) show ?thesis by (auto simp: length_phys_record)
qed

theorem log_roundtrip_witness:
  "\<exists>w. AddRecords [''abc'', []] (Writer_new \<lparr>wf_data = [], wf_space = 100\<rparr>) = (OK, w)
    \<and> map snd (fst (read_all (Reader_new \<lparr>sf_data = wf_data (w_dest w), sf_status = []\<rparr> True True 0))) = [''abc'', []]
    \<and> reports (snd (read_all (Reader_new \<lparr>sf_data = wf_data (w_dest w), sf_status = []\<rparr> True True 0))) = []"
proof -
  let ?w = "Writer_new \<lparr>wf_data = [], wf_space = 100\<rparr>"
  have "block_offset ?w = 0" "wf_space (w_dest ?w) = 100" by (simp_all add: Writer_new_def)
  with AddRecord_short [OF Writer_new_ok, of "\<lparr>wf_data = [], wf_space = 100\<rparr>" "''abc''"]
  obtain w1 where w1: "AddRecord ''abc'' ?w = (OK, w1)" "Writer_ok w1" "block_offset w1 = 10" "wf_space (w_dest w1) = 90"
    by (auto simp: kHeaderSize_def kBlockSize_def)
  with AddRecord_short [of w1 "[]"] obtain w2 where w2: "AddRecord [] w1 = (OK, w2)"
    by (auto simp: kHeaderSize_def kBlockSize_def)
  have "AddRecords [''abc'', []] ?w = (OK, w2)" by (simp add: w1 w2 Status_ok_def)
  from log_roundtrip [OF _ this] this show ?thesis by auto
qed

end
