(* ===== verification/File_System.thy ===== *)
theory File_System
  imports Prelude
begin

text \<open>
  The part of the operating system that the sources reach through \<^verbatim>\<open>std::ofstream\<close>,
  \<^verbatim>\<open>std::ifstream\<close> and \<^verbatim>\<open>leveldb::Env\<close>: a map from path names to file contents, and the
  paths that can be opened for writing.  Opening an output stream without
  \<^verbatim>\<open>std::ios::app\<close> truncates the file or creates it; opening an input stream succeeds
  when the file exists.  \<^verbatim>\<open>read_stream\<close> is \<^verbatim>\<open>istream::read\<close>: a stream that has failed reads
  nothing, a read past the end stores what there is and fails the stream.
\<close>

record fs =
  files :: "string \<rightharpoonup> string"
  writable :: "string \<Rightarrow> bool"

record istream =
  unread :: string
  good :: bool

definition open_read :: "fs \<Rightarrow> string \<Rightarrow> istream option" where
  "open_read w f = map_option (\<lambda>c. \<lparr>unread = c, good = True\<rparr>) (files w f)"

definition write_file :: "fs \<Rightarrow> string \<Rightarrow> string \<Rightarrow> fs" where
  "write_file w f c = w\<lparr>files := (files w)(f \<mapsto> c)\<rparr>"

text \<open>The buffer \<open>buf\<close> keeps its old bytes where the stream has no more.\<close>

definition read_stream :: "istream \<Rightarrow> string \<Rightarrow> string \<times> istream" where
  "read_stream st buf =
     (if \<not> good st then (buf, st)
      else let n = length buf; got = take n (unread st)
           in (got @ drop (length got) buf, \<lparr>unread = drop n (unread st), good = (n \<le> length (unread st))\<rparr>))"

text \<open>The memory image of an \<^verbatim>\<open>int\<close> on a little-endian machine.\<close>

definition int32_bytes :: "int \<Rightarrow> string" where
  "int32_bytes i = (let w = (of_int i :: u32) in
     map (\<lambda>j. chr8 (ucast (drop_bit (8 * j) w))) [0, 1, 2, 3])"

lemma length_int32_bytes [simp]: "length (int32_bytes i) = 4"
  by (simp add: int32_bytes_def Let_def)

lemma files_write_file [simp]: "files (write_file w f c) = (files w)(f \<mapsto> c)"
  by (simp add: write_file_def)

lemma writable_write_file [simp]: "writable (write_file w f c) = writable w"
  by (simp add: write_file_def)

lemma length_read_stream [simp]: "length (fst (read_stream st buf)) = length buf"
  by (simp add: read_stream_def Let_def)

lemma read_stream_prefix:
  "length buf = length a \<Longrightarrow>
   read_stream \<lparr>unread = a @ b, good = True\<rparr> buf = (a, \<lparr>unread = b, good = True\<rparr>)"
  by (simp add: read_stream_def Let_def)

end
