(* ===== verification/Bloom_Value.thy ===== *)
theory Bloom_Value
  imports File_System
begin

text \<open>
  \<^verbatim>\<open>src/bloom_hierarchy/bloom_value.cpp\<close>, the Bloom filter kept beside every SSTable, and
  its copy inside LevelDB, \<^verbatim>\<open>src/leveldb/db/bloom_valueWM.cc\<close>.  A \<^verbatim>\<open>std::bitset\<close> is the set of
  the positions whose bit is set; \<^verbatim>\<open>std::hash<std::string>\<close> is implementation-defined and
  is an argument \<open>h\<close> of every definition that uses it.  The locale \<open>membership_filter\<close> is
  what the callers rely on: a filter never denies a key that was inserted, and joining two
  filters forgets nothing.
\<close>

type_synonym str_hash = "string \<Rightarrow> u64"
type_synonym bitset = "nat set"

section \<open>The class and its loops\<close>

definition bitArray_size :: nat where
  "bitArray_size = 2000000"

record bloom_value =
  numHashFunctions :: int
  bitArray :: bitset

definition bloom_value_new :: bloom_value where
  "bloom_value_new = \<lparr>numHashFunctions = 3, bitArray = {}\<rparr>"

definition hash_bit :: "str_hash \<Rightarrow> string \<Rightarrow> int \<Rightarrow> nat" where
  "hash_bit h key i = unat (h (key @ to_string i)) mod bitArray_size"

definition bv_insert :: "str_hash \<Rightarrow> string \<Rightarrow> bloom_value \<Rightarrow> bloom_value" where
  "bv_insert h key bv =
     fold (\<lambda>i b. b\<lparr>bitArray := insert (hash_bit h key i) (bitArray b)\<rparr>)
       [0..numHashFunctions bv - 1] bv"

definition bv_exists :: "str_hash \<Rightarrow> bloom_value \<Rightarrow> string \<Rightarrow> bool" where
  "bv_exists h bv key \<longleftrightarrow> list_all (\<lambda>i. hash_bit h key i \<in> bitArray bv) [0..numHashFunctions bv - 1]"

text \<open>
  The overload on an array of keys takes the length of the first key as the number of
  keys.  Reading past the array is undefined behaviour in C++; here it is \<^term>\<open>None\<close>.
\<close>

function exists_array_loop :: "str_hash \<Rightarrow> bloom_value \<Rightarrow> string list \<Rightarrow> nat \<Rightarrow> nat \<Rightarrow> bool option" where
  "exists_array_loop h bv keys n i =
     (if n \<le> i then Some False
      else if length keys \<le> i then None
      else if bv_exists h bv (keys ! i) then Some True
      else exists_array_loop h bv keys n (Suc i))"
  by pat_completeness auto
termination
  by (relation "measure (\<lambda>(h, bv, keys, n, i). n - i)") auto

declare exists_array_loop.simps [simp del]

definition bv_exists_array :: "str_hash \<Rightarrow> bloom_value \<Rightarrow> string list \<Rightarrow> bool option" where
  "bv_exists_array h bv keys =
     (case keys of [] \<Rightarrow> None | k # _ \<Rightarrow> exists_array_loop h bv keys (length k) 0)"

text \<open>\<^verbatim>\<open>n->blValue.bitArray = n->blValue.bitArray | child->blValue.bitArray\<close>, as \<^verbatim>\<open>createLevel\<close> writes it.\<close>

definition or_bits :: "bloom_value \<Rightarrow> bloom_value \<Rightarrow> bloom_value" where
  "or_bits n child = n\<lparr>bitArray := bitArray n \<union> bitArray child\<rparr>"

definition bv_ok :: "bloom_value \<Rightarrow> bool" where
  "bv_ok bv \<longleftrightarrow> numHashFunctions bv = 3 \<and> bitArray bv \<subseteq> {..<bitArray_size}"

section \<open>The file format\<close>

definition pack_bits :: "nat \<Rightarrow> bitset \<Rightarrow> string" where
  "pack_bits n bits =
     fold (\<lambda>i buf. buf[i div 8 := chr8 (ord8 (buf ! (i div 8)) OR push_bit (i mod 8) (of_bool (i \<in> bits)))])
       [0..<n] (replicate ((n + 7) div 8) (chr8 0))"

definition unpack_bits :: "nat \<Rightarrow> string \<Rightarrow> bitset \<Rightarrow> bitset" where
  "unpack_bits n buf bits =
     fold (\<lambda>i b. if bit (ord8 (buf ! (i div 8))) (i mod 8) then insert i b else b - {i}) [0..<n] bits"

definition saveToFile :: "bloom_value \<Rightarrow> string \<Rightarrow> fs \<Rightarrow> fs" where
  "saveToFile bv f w =
     (if \<not> writable w f then w
      else write_file w f (int32_bytes (numHashFunctions bv) @ pack_bits bitArray_size (bitArray bv)))"

datatype load_error = Error_opening_file string

text \<open>
  The local variable \<^verbatim>\<open>numHashFunctions\<close> of \<^verbatim>\<open>loadFromFile\<close> shadows the member and is read
  but never used: the result always has the default number of hash functions.
\<close>

definition loadFromFile :: "fs \<Rightarrow> string \<Rightarrow> load_error + bloom_value" where
  "loadFromFile w f =
     (case open_read w f of
        None \<Rightarrow> Inl (Error_opening_file f)
      | Some st \<Rightarrow>
          let (nhf, st') = read_stream st (replicate 4 (chr8 0));
              (buffer, st'') = read_stream st' (replicate ((bitArray_size + 7) div 8) (chr8 0));
              filter = bloom_value_new
          in Inr (filter\<lparr>bitArray := unpack_bits bitArray_size buffer (bitArray filter)\<rparr>))"

definition createFile :: "string \<Rightarrow> fs \<Rightarrow> fs" where
  "createFile f w = (if \<not> writable w f then w else write_file w f [])"

section \<open>bloom\_valueWM, the copy inside LevelDB\<close>

record bloom_valueWM =
  bitArrayWM :: bitset
  numHashFunctionsWM :: int

definition bloom_valueWM_new :: bloom_valueWM where
  "bloom_valueWM_new = \<lparr>bitArrayWM = {}, numHashFunctionsWM = 3\<rparr>"

definition insertWM :: "str_hash \<Rightarrow> string \<Rightarrow> bloom_valueWM \<Rightarrow> bloom_valueWM" where
  "insertWM h key bv =
     fold (\<lambda>i b. b\<lparr>bitArrayWM := insert (unat (h (key @ to_string i)) mod bitArray_size) (bitArrayWM b)\<rparr>)
       [0..numHashFunctionsWM bv - 1] bv"

definition existsWM :: "str_hash \<Rightarrow> bloom_valueWM \<Rightarrow> string \<Rightarrow> bool" where
  "existsWM h bv key \<longleftrightarrow>
     list_all (\<lambda>i. unat (h (key @ to_string i)) mod bitArray_size \<in> bitArrayWM bv)
       [0..numHashFunctionsWM bv - 1]"

definition saveToFileWM :: "bloom_valueWM \<Rightarrow> string \<Rightarrow> fs \<Rightarrow> fs" where
  "saveToFileWM bv f w =
     (if \<not> writable w f then w
      else write_file w f (int32_bytes (numHashFunctionsWM bv) @ pack_bits bitArray_size (bitArrayWM bv)))"

definition loadFromFileWM :: "fs \<Rightarrow> string \<Rightarrow> load_error + bloom_valueWM" where
  "loadFromFileWM w f =
     (case open_read w f of
        None \<Rightarrow> Inl (Error_opening_file f)
      | Some st \<Rightarrow>
          let (nhf, st') = read_stream st (replicate 4 (chr8 0));
              (buffer, st'') = read_stream st' (replicate ((bitArray_size + 7) div 8) (chr8 0));
              filter = bloom_valueWM_new
          in Inr (filter\<lparr>bitArrayWM := unpack_bits bitArray_size buffer (bitArrayWM filter)\<rparr>))"

definition createFileWM :: "string \<Rightarrow> fs \<Rightarrow> fs" where
  "createFileWM f w = (if \<not> writable w f then w else write_file w f [])"

section \<open>What the callers rely on\<close>

locale membership_filter =
  fixes empty :: 'f
    and ins :: "'k \<Rightarrow> 'f \<Rightarrow> 'f"
    and mem :: "'f \<Rightarrow> 'k \<Rightarrow> bool"
    and join :: "'f \<Rightarrow> 'f \<Rightarrow> 'f"
    and invar :: "'f \<Rightarrow> bool"
  assumes invar_empty: "invar empty"
    and invar_ins: "invar f \<Longrightarrow> invar (ins k f)"
    and invar_join: "invar f \<Longrightarrow> invar g \<Longrightarrow> invar (join f g)"
    and mem_empty: "\<not> mem empty k"
    and mem_ins: "invar f \<Longrightarrow> mem (ins k f) k"
    and mem_ins_mono: "invar f \<Longrightarrow> mem f k \<Longrightarrow> mem (ins k' f) k"
    and mem_join1: "invar f \<Longrightarrow> invar g \<Longrightarrow> mem f k \<Longrightarrow> mem (join f g) k"
    and mem_join2: "invar f \<Longrightarrow> invar g \<Longrightarrow> mem g k \<Longrightarrow> mem (join f g) k"
begin

lemma invar_fold_ins: "invar f \<Longrightarrow> invar (fold ins ks f)"
  by (induction ks arbitrary: f) (auto intro: invar_ins)

lemma mem_fold_ins_mono: "invar f \<Longrightarrow> mem f k \<Longrightarrow> mem (fold ins ks f) k"
  by (induction ks arbitrary: f) (auto intro: invar_ins mem_ins_mono)

lemma mem_fold_ins: "invar f \<Longrightarrow> k \<in> set ks \<Longrightarrow> mem (fold ins ks f) k"
  by (induction ks arbitrary: f) (auto intro: invar_ins mem_ins mem_fold_ins_mono)

lemma invar_fold_join: "invar f \<Longrightarrow> list_all invar gs \<Longrightarrow> invar (fold (\<lambda>g a. join a g) gs f)"
  by (induction gs arbitrary: f) (auto intro: invar_join)

lemma mem_fold_join1:
  "invar f \<Longrightarrow> list_all invar gs \<Longrightarrow> mem f k \<Longrightarrow> mem (fold (\<lambda>g a. join a g) gs f) k"
  by (induction gs arbitrary: f) (auto intro: invar_join mem_join1)

lemma mem_fold_join:
  "invar f \<Longrightarrow> list_all invar gs \<Longrightarrow> g \<in> set gs \<Longrightarrow> mem g k \<Longrightarrow> mem (fold (\<lambda>g a. join a g) gs f) k"
  by (induction gs arbitrary: f) (auto intro: invar_join mem_join2 mem_fold_join1)

end

section \<open>Membership\<close>

lemma fold_set_bits:
  "fold (\<lambda>i b. b\<lparr>bitArray := insert (f i) (bitArray b)\<rparr>) is bv = bv\<lparr>bitArray := f ` set is \<union> bitArray bv\<rparr>"
  by (induction "is" arbitrary: bv) auto

lemma bv_insert_bits:
  "bv_insert h key bv = bv\<lparr>bitArray := hash_bit h key ` {0..numHashFunctions bv - 1} \<union> bitArray bv\<rparr>"
  by (simp add: bv_insert_def fold_set_bits)

lemma bv_exists_iff:
  "bv_exists h bv key \<longleftrightarrow> hash_bit h key ` {0..numHashFunctions bv - 1} \<subseteq> bitArray bv"
  by (auto simp: bv_exists_def list_all_iff)

lemma bitArray_size_pos [simp]: "0 < bitArray_size"
  by (simp add: bitArray_size_def)

lemma hash_bit_less [simp]: "hash_bit h key i < bitArray_size"
  by (simp add: hash_bit_def)

lemma bv_ok_new [simp]: "bv_ok bloom_value_new"
  by (simp add: bv_ok_def bloom_value_new_def)

lemma bv_ok_insert: "bv_ok bv \<Longrightarrow> bv_ok (bv_insert h key bv)"
  by (auto simp: bv_ok_def bv_insert_bits)

lemma bv_ok_or_bits: "bv_ok a \<Longrightarrow> bv_ok b \<Longrightarrow> bv_ok (or_bits a b)"
  by (auto simp: bv_ok_def or_bits_def)

interpretation bv: membership_filter bloom_value_new "bv_insert h" "bv_exists h" or_bits bv_ok for h
proof unfold_locales
  show "\<not> bv_exists h bloom_value_new k" for k
    by (simp add: bv_exists_iff bloom_value_new_def)
  show "bv_ok f \<Longrightarrow> bv_exists h (bv_insert h k f) k" for f k
    by (auto simp: bv_exists_iff bv_insert_bits)
  show "bv_ok f \<Longrightarrow> bv_exists h f k \<Longrightarrow> bv_exists h (bv_insert h k' f) k" for f k k'
    by (auto simp: bv_exists_iff bv_insert_bits)
  show "bv_ok f \<Longrightarrow> bv_ok g \<Longrightarrow> bv_exists h f k \<Longrightarrow> bv_exists h (or_bits f g) k" for f g k
    by (auto simp: bv_exists_iff or_bits_def)
  show "bv_ok f \<Longrightarrow> bv_ok g \<Longrightarrow> bv_exists h g k \<Longrightarrow> bv_exists h (or_bits f g) k" for f g k
    by (auto simp: bv_exists_iff or_bits_def bv_ok_def)
qed (auto intro: bv_ok_insert bv_ok_or_bits)

lemma bv_exists_mono:
  "numHashFunctions a = numHashFunctions b \<Longrightarrow> bitArray a \<subseteq> bitArray b \<Longrightarrow> bv_exists h a k \<Longrightarrow> bv_exists h b k"
  by (auto simp: bv_exists_iff)

section \<open>Packing and unpacking\<close>

lemma length_pack_fold:
  "length (fold (\<lambda>i buf. buf[f i := g i buf]) is buf) = length buf"
  by (induction "is" arbitrary: buf) auto

lemma length_pack_bits [simp]: "length (pack_bits n bits) = (n + 7) div 8"
  unfolding pack_bits_def by (subst length_pack_fold) simp

lemma bit_pack_step:
  assumes "k div 8 < length buf"
  shows "bit (ord8 (buf[m div 8 := chr8 (ord8 (buf ! (m div 8)) OR push_bit (m mod 8) (of_bool b))] ! (k div 8))) (k mod 8)
    \<longleftrightarrow> (k = m \<and> b) \<or> bit (ord8 (buf ! (k div 8))) (k mod 8)"
proof (cases "k div 8 = m div 8")
  case True
  then have "k mod 8 = m mod 8 \<longleftrightarrow> k = m" by (metis div_mult_mod_eq)
  then have "bit (push_bit (m mod 8) (of_bool b) :: u8) (k mod 8) \<longleftrightarrow> b \<and> k = m"
    by (auto simp: bit_simps)
  with True assms show ?thesis by (auto simp: bit_or_iff)
next
  case False
  then show ?thesis by auto
qed

text \<open>After the first \<open>m\<close> iterations exactly the bits below \<open>m\<close> have been copied.\<close>

lemma bit_pack_fold:
  assumes "k div 8 < length buf" and "\<not> bit (ord8 (buf ! (k div 8))) (k mod 8)"
  shows "bit (ord8 (fold (\<lambda>i buf. buf[i div 8 := chr8 (ord8 (buf ! (i div 8)) OR push_bit (i mod 8) (of_bool (i \<in> bits)))])
       [0..<m] buf ! (k div 8))) (k mod 8) \<longleftrightarrow> k < m \<and> k \<in> bits"
proof (induction m)
  case 0
  show ?case using assms by simp
next
  case (Suc m)
  have "k = m \<and> m \<in> bits \<or> k < m \<and> k \<in> bits \<longleftrightarrow> k < Suc m \<and> k \<in> bits"
    by (auto simp: less_Suc_eq)
  then show ?case using assms(1) by (simp add: bit_pack_step length_pack_fold Suc.IH)
qed

lemma bit_pack_bits:
  "k < n \<Longrightarrow> bit (ord8 (pack_bits n bits ! (k div 8))) (k mod 8) \<longleftrightarrow> k \<in> bits"
  unfolding pack_bits_def by (subst bit_pack_fold) simp_all

lemma unpack_bits_set:
  "unpack_bits n buf bits = {i. i < n \<and> bit (ord8 (buf ! (i div 8))) (i mod 8)} \<union> (bits - {..<n})"
proof (induction n)
  case 0
  show ?case by (simp add: unpack_bits_def)
next
  case (Suc n)
  have "unpack_bits (Suc n) buf bits = (if bit (ord8 (buf ! (n div 8))) (n mod 8)
      then insert n (unpack_bits n buf bits) else unpack_bits n buf bits - {n})"
    by (simp add: unpack_bits_def)
  then show ?case unfolding Suc.IH by (auto simp: less_Suc_eq)
qed

lemma unpack_pack_bits: "bits \<subseteq> {..<n} \<Longrightarrow> unpack_bits n (pack_bits n bits) {} = bits"
  by (auto simp: unpack_bits_set bit_pack_bits)

lemma load_stored_bits:
  assumes "files w f = Some (int32_bytes k @ pack_bits bitArray_size bits)" and "bits \<subseteq> {..<bitArray_size}"
  shows "loadFromFile w f = Inr (bloom_value_new\<lparr>bitArray := bits\<rparr>)"
    and "loadFromFileWM w f = Inr (bloom_valueWM_new\<lparr>bitArrayWM := bits\<rparr>)"
proof -
  let ?P = "pack_bits bitArray_size bits"
  have r1: "read_stream \<lparr>unread = int32_bytes k @ ?P, good = True\<rparr> (replicate 4 (chr8 0))
      = (int32_bytes k, \<lparr>unread = ?P, good = True\<rparr>)"
    by (rule read_stream_prefix) simp
  have r2: "read_stream \<lparr>unread = ?P @ [], good = True\<rparr> (replicate ((bitArray_size + 7) div 8) (chr8 0))
      = (?P, \<lparr>unread = [], good = True\<rparr>)"
    by (rule read_stream_prefix) simp
  note reads = r1 r2 [simplified]
  show "loadFromFile w f = Inr (bloom_value_new\<lparr>bitArray := bits\<rparr>)"
    using assms by (simp add: loadFromFile_def open_read_def reads bloom_value_new_def unpack_pack_bits)
  show "loadFromFileWM w f = Inr (bloom_valueWM_new\<lparr>bitArrayWM := bits\<rparr>)"
    using assms by (simp add: loadFromFileWM_def open_read_def reads bloom_valueWM_new_def unpack_pack_bits)
qed

lemma exists_array_out_of_range:
  "i < n \<Longrightarrow> length keys = Suc i \<Longrightarrow> \<not> bv_exists h bv (keys ! i) \<Longrightarrow> Suc i < n \<Longrightarrow>
   exists_array_loop h bv keys n i = None"
  by (subst exists_array_loop.simps) (simp add: exists_array_loop.simps [of h bv keys n "Suc i"])

lemma insertWM_bits: "insertWM h key bv = bv\<lparr>bitArrayWM := hash_bit h key ` {0..numHashFunctionsWM bv - 1} \<union> bitArrayWM bv\<rparr>"
proof -
  have "fold (\<lambda>i b. b\<lparr>bitArrayWM := insert (f i) (bitArrayWM b)\<rparr>) is bv
      = bv\<lparr>bitArrayWM := f ` set is \<union> bitArrayWM bv\<rparr>" for f :: "int \<Rightarrow> nat" and "is" bv
    by (induction "is" arbitrary: bv) auto
  from this [of "hash_bit h key" "[0..numHashFunctionsWM bv - 1]" bv] show ?thesis
    by (simp add: insertWM_def hash_bit_def)
qed

text \<open>The two copies of the class evolve in step.\<close>

definition same_filter :: "bloom_value \<Rightarrow> bloom_valueWM \<Rightarrow> bool" where
  "same_filter a b \<longleftrightarrow> bitArray a = bitArrayWM b \<and> numHashFunctions a = numHashFunctionsWM b"

lemma same_filter_insert: "same_filter a b \<Longrightarrow> same_filter (bv_insert h k a) (insertWM h k b)"
  by (simp add: same_filter_def bv_insert_bits insertWM_bits)

lemma same_filter_fold: "same_filter a b \<Longrightarrow> same_filter (fold (bv_insert h) ks a) (fold (insertWM h) ks b)"
  by (induction ks arbitrary: a b) (auto intro: same_filter_insert)

lemma same_filter_new: "same_filter bloom_value_new bloom_valueWM_new"
  by (simp add: same_filter_def bloom_value_new_def bloom_valueWM_new_def)

lemma bv_ok_eq: "bv_ok bv \<Longrightarrow> bloom_value_new\<lparr>bitArray := bitArray bv\<rparr> = bv"
  by (simp add: bv_ok_def bloom_value_new_def)

lemma loadFromFile_saved: "bv_ok bv \<Longrightarrow> writable w f \<Longrightarrow> loadFromFile (saveToFile bv f w) f = Inr bv"
  using bv_ok_eq [of bv]
  by (simp add: load_stored_bits(1) [where k = "numHashFunctions bv" and bits = "bitArray bv"] saveToFile_def bv_ok_def)

section \<open>Properties\<close>

text \<open>
  C10: a filter into which keys were inserted, starting from a new one, answers true for
  each of those keys, whatever the hash function is: there are no false negatives.
\<close>

theorem no_false_negatives:
  assumes "key \<in> set keys"
  shows "bv_exists h (fold (bv_insert h) keys bloom_value_new) key"
  using assms by (rule bv.mem_fold_ins [OF bv_ok_new])

theorem no_false_negatives_witness:
  "bv_exists (\<lambda>s. of_nat (length s)) (fold (bv_insert (\<lambda>s. of_nat (length s))) [''Value1'', ''Value10''] bloom_value_new) ''Value10''"
  by (rule no_false_negatives) simp

text \<open>
  C20: saving a filter to a file that can be opened and loading it again gives the same
  filter: the byte packing and unpacking loops are inverse to each other.
\<close>

theorem save_load_roundtrip:
  assumes "bv_ok bv" and "writable w f"
  shows "loadFromFile (saveToFile bv f w) f = Inr bv"
  using assms by (rule loadFromFile_saved)

theorem save_load_roundtrip_witness:
  "loadFromFile (saveToFile \<lparr>numHashFunctions = 3, bitArray = {0, 9, 1999999}\<rparr> ''a.bloom''
      \<lparr>files = Map.empty, writable = (\<lambda>_. True)\<rparr>) ''a.bloom''
   = Inr \<lparr>numHashFunctions = 3, bitArray = {0, 9, 1999999}\<rparr>"
  by (rule save_load_roundtrip) (simp_all add: bv_ok_def bitArray_size_def)

text \<open>
  C24: a filter that LevelDB's compaction filled and saved with its own copy of the class
  (\<^verbatim>\<open>bloom_valueWM\<close>) is read by the application as the filter that its own class would have
  built from the same values.
\<close>

theorem compaction_filter_readable:
  assumes "writable w f"
  shows "loadFromFile (saveToFileWM (fold (insertWM h) keys bloom_valueWM_new) f w) f
    = Inr (fold (bv_insert h) keys bloom_value_new)"
proof -
  let ?a = "fold (bv_insert h) keys bloom_value_new" and ?b = "fold (insertWM h) keys bloom_valueWM_new"
  have same: "same_filter ?a ?b" by (rule same_filter_fold [OF same_filter_new])
  have ok: "bv_ok ?a" by (rule bv.invar_fold_ins) simp
  have "files (saveToFileWM ?b f w) f = Some (int32_bytes (numHashFunctions ?a) @ pack_bits bitArray_size (bitArray ?a))"
    using assms same by (simp add: saveToFileWM_def same_filter_def)
  then show ?thesis using ok bv_ok_eq [OF ok] by (simp add: load_stored_bits(1) bv_ok_def)
qed

theorem compaction_filter_readable_witness:
  "loadFromFile (saveToFileWM (fold (insertWM (\<lambda>s. 7)) [''Value1''] bloom_valueWM_new) ''000005.bloom''
      \<lparr>files = Map.empty, writable = (\<lambda>_. True)\<rparr>) ''000005.bloom''
   = Inr (fold (bv_insert (\<lambda>s. 7)) [''Value1''] bloom_value_new)"
  by (rule compaction_filter_readable) simp

text \<open>
  Between \<^verbatim>\<open>createFile\<close> and \<^verbatim>\<open>saveToFile\<close> the filter file is empty; loading it then is not
  an error but gives the empty filter, which denies every key of the table.
\<close>

theorem created_file_denies:
  assumes "writable w f"
  shows "\<exists>bv. loadFromFile (createFile f w) f = Inr bv \<and> (\<forall>key. \<not> bv_exists h bv key)"
proof -
  have u: "unpack_bits n (replicate m (chr8 0)) {} = {}" if "(n + 7) div 8 \<le> m" for n m
  proof -
    have "i div 8 < m" if "i < n" for i using that \<open>(n + 7) div 8 \<le> m\<close> by linarith
    then show ?thesis by (auto simp: unpack_bits_set)
  qed
  have "loadFromFile (createFile f w) f = Inr bloom_value_new"
    using assms
    by (simp add: loadFromFile_def createFile_def open_read_def read_stream_def bloom_value_new_def u)
  then show ?thesis using bv.mem_empty by blast
qed

theorem created_file_denies_witness:
  "\<exists>bv. loadFromFile (createFile ''x.bloom'' \<lparr>files = Map.empty, writable = (\<lambda>_. True)\<rparr>) ''x.bloom'' = Inr bv
     \<and> (\<forall>key. \<not> bv_exists (\<lambda>s. 0) bv key)"
  by (rule created_file_denies) simp

text \<open>
  C27: the overload of \<^verbatim>\<open>exists\<close> on an array counts the characters of the first key, not the
  keys: on an array of one absent key of two or more characters it reads past the array.
\<close>

theorem exists_array_reads_past_end:
  assumes "\<not> bv_exists h bv key" and "2 \<le> length key"
  shows "bv_exists_array h bv [key] = None"
proof -
  have "0 < length key" using assms(2) by linarith
  with assms exists_array_out_of_range [of 0 "length key" "[key]" h bv] show ?thesis
    by (simp add: bv_exists_array_def)
qed

theorem exists_array_reads_past_end_witness:
  "bv_exists_array (\<lambda>s. 0) bloom_value_new [''ab''] = None"
  by (rule exists_array_reads_past_end) (simp_all add: bv.mem_empty)

end
