(* ===== verification/Bloom_Tree.thy ===== *)
theory Bloom_Tree
  imports Bloom_Value "HOL-Library.Sublist"
begin

text \<open>
  \<^verbatim>\<open>src/bloom_hierarchy/node.cpp\<close> and \<^verbatim>\<open>bloomTree.cpp\<close>: the hierarchy of Bloom filters.  Nodes
  are never changed once they are linked, so a pointer to a node is the node itself.
  \<^verbatim>\<open>createLevel\<close> recurses until one node is left; it need not end, so it is a partial
  function whose value \<^term>\<open>None\<close> means that it never returns, and the two ways it can
  fail (division by a zero ratio, reading element 0 of an empty vector) are values of
  \<open>tree_error\<close>.  The theorems say when it returns, that the tree covers every leaf, and
  that a lookup never prunes a leaf whose filter contains the value.
\<close>

section \<open>Nodes\<close>

datatype Node = Node (children: "Node list") (blValue: bloom_value) (filename: string)

definition leaf_node :: "bloom_value \<Rightarrow> string \<Rightarrow> Node" where
  "leaf_node bv fname = Node [] bv fname"

definition memory_node :: Node where
  "memory_node = Node [] bloom_value_new ''Memory''"

function addchildren_loop :: "int \<Rightarrow> int \<Rightarrow> Node list \<Rightarrow> int \<Rightarrow> Node list \<Rightarrow> Node list" where
  "addchildren_loop i ratio nodes j cs =
     (if j < i + ratio \<and> j < int (length nodes)
      then addchildren_loop i ratio nodes (j + 1) (cs @ [nodes ! nat j])
      else cs)"
  by pat_completeness auto
termination
  by (relation "measure (\<lambda>(i, ratio, nodes, j, cs). nat (i + ratio - j))") auto

declare addchildren_loop.simps [simp del]

definition addchildren :: "Node \<Rightarrow> int \<Rightarrow> int \<Rightarrow> Node list \<Rightarrow> Node" where
  "addchildren n i ratio nodes =
     Node (addchildren_loop i ratio nodes i (children n)) (blValue n) (filename n)"

section \<open>The tree\<close>

record bloomTree =
  ratio :: int
  root :: "Node option"
  leafNodes :: "Node list"
  foundInHierarchy :: int
  bloomNames :: "string list"

definition bloomTree_new :: "int \<Rightarrow> bloomTree" where
  "bloomTree_new r = \<lparr>ratio = r, root = None, leafNodes = [], foundInHierarchy = 0, bloomNames = []\<rparr>"

definition createLeafLevel :: "bloom_value \<Rightarrow> string \<Rightarrow> bloomTree \<Rightarrow> bloomTree" where
  "createLeafLevel bv fname t = t\<lparr>leafNodes := leafNodes t @ [leaf_node bv fname]\<rparr>"

datatype tree_error = Division_by_zero | Vector_out_of_range | Uninitialised_root

definition level_node :: "int \<Rightarrow> Node list \<Rightarrow> int \<Rightarrow> Node" where
  "level_node r nodes i =
     (let n = addchildren memory_node (i * r) r nodes
      in Node (children n) (fold (\<lambda>child bv. or_bits bv (blValue child)) (children n) (blValue n)) (filename n))"

text \<open>
  \<^verbatim>\<open>ceil(size/ratio)\<close> divides two integers first, so \<^verbatim>\<open>loop\<close> is the truncated quotient and the
  loop makes \<^verbatim>\<open>loop + 1\<close> nodes.
\<close>

definition level_nodes :: "int \<Rightarrow> Node list \<Rightarrow> Node list" where
  "level_nodes r nodes = map (level_node r nodes) [0..c_div (int (length nodes)) r]"

partial_function (option) createLevel :: "int \<Rightarrow> Node list \<Rightarrow> (tree_error + Node) option" where
  "createLevel r nodes =
     (if r = 0 then Some (Inl Division_by_zero)
      else if 1 < length (level_nodes r nodes) then createLevel r (level_nodes r nodes)
      else case level_nodes r nodes of [] \<Rightarrow> Some (Inl Vector_out_of_range) | n # _ \<Rightarrow> Some (Inr n))"

definition createTree :: "bloomTree \<Rightarrow> (tree_error + bloomTree) option" where
  "createTree t =
     (case createLevel (ratio t) (leafNodes t) of
        None \<Rightarrow> None
      | Some (Inl e) \<Rightarrow> Some (Inl e)
      | Some (Inr n) \<Rightarrow> Some (Inr (t\<lparr>root := Some n\<rparr>)))"

section \<open>Lookup\<close>

fun checkExistance_node :: "str_hash \<Rightarrow> Node \<Rightarrow> string \<Rightarrow> bloomTree \<Rightarrow> bloomTree" where
  "checkExistance_node h (Node cs bv fname) value t =
     (if fname \<noteq> ''Memory'' then t\<lparr>bloomNames := bloomNames t @ [fname]\<rparr>
      else if bv_exists h bv value
      then fold (\<lambda>child t'. checkExistance_node h child value t') cs
             (t\<lparr>foundInHierarchy := foundInHierarchy t + 1\<rparr>)
      else t)"

definition checkExistance :: "str_hash \<Rightarrow> string \<Rightarrow> bloomTree \<Rightarrow> tree_error + (string list \<times> bloomTree)" where
  "checkExistance h value t =
     (case root t of
        None \<Rightarrow> Inl Uninitialised_root
      | Some n \<Rightarrow> let t' = checkExistance_node h n value t in Inr (bloomNames t', t'))"

definition GetScannedHierarchyFilters :: "bloomTree \<Rightarrow> int" where
  "GetScannedHierarchyFilters t = foundInHierarchy t"

fun checkExistanceThread_node :: "str_hash \<Rightarrow> Node \<Rightarrow> string \<Rightarrow> string list \<Rightarrow> string list" where
  "checkExistanceThread_node h (Node cs bv fname) value blNames =
     (if fname \<noteq> ''Memory'' then blNames @ [fname]
      else if bv_exists h bv value
      then fold (\<lambda>child names. checkExistanceThread_node h child value names) cs blNames
      else blNames)"

definition checkExistanceThread :: "str_hash \<Rightarrow> string \<Rightarrow> bloomTree \<Rightarrow> tree_error + string list" where
  "checkExistanceThread h value t =
     (case root t of
        None \<Rightarrow> Inl Uninitialised_root
      | Some n \<Rightarrow> Inr (checkExistanceThread_node h n value []))"

text \<open>\<^verbatim>\<open>traverse\<close> prints three lines for every node, parents first; a null node prints nothing.\<close>

fun traverse_node :: "Node \<Rightarrow> string list" where
  "traverse_node (Node cs bv fname) =
     [fname, ''Bloom Size: '' @ nat_to_string bitArray_size,
      ''Number of 0 in Bloom: '' @ nat_to_string (bitArray_size - card (bitArray bv))]
     @ concat (map traverse_node cs)"

definition traverse :: "Node option \<Rightarrow> string list" where
  "traverse n = (case n of None \<Rightarrow> [] | Some n \<Rightarrow> traverse_node n)"

section \<open>Abstract view: leaves, invariant, hits\<close>

fun tree_leaves :: "Node \<Rightarrow> Node list" where
  "tree_leaves (Node cs bv fname) =
     (if fname \<noteq> ''Memory'' then [Node cs bv fname] else concat (map tree_leaves cs))"

fun wf_tree :: "Node \<Rightarrow> bool" where
  "wf_tree (Node cs bv fname) \<longleftrightarrow> bv_ok bv \<and>
     (fname = ''Memory'' \<longrightarrow>
        (\<forall>c \<in> set cs. wf_tree c \<and> bitArray (blValue c) \<subseteq> bitArray bv))"

text \<open>The leaf names that a lookup returns, and the inner filters that it finds positive.\<close>

fun hits :: "str_hash \<Rightarrow> string \<Rightarrow> Node \<Rightarrow> string list" where
  "hits h v (Node cs bv fname) =
     (if fname \<noteq> ''Memory'' then [fname]
      else if bv_exists h bv v then concat (map (hits h v) cs) else [])"

fun positives :: "str_hash \<Rightarrow> string \<Rightarrow> Node \<Rightarrow> nat" where
  "positives h v (Node cs bv fname) =
     (if fname \<noteq> ''Memory'' then 0
      else if bv_exists h bv v then Suc (sum_list (map (positives h v) cs)) else 0)"

section \<open>Levels\<close>

definition parent_of :: "Node list \<Rightarrow> Node" where
  "parent_of cs = Node cs (fold (\<lambda>g a. or_bits a g) (map blValue cs) bloom_value_new) ''Memory''"

lemma addchildren_loop_take:
  "0 \<le> j \<Longrightarrow> addchildren_loop i r nodes j cs = cs @ take (nat (i + r - j)) (drop (nat j) nodes)"
proof (induction i r nodes j cs rule: addchildren_loop.induct)
  case (1 i r nodes j cs)
  show ?case
  proof (cases "j < i + r \<and> j < int (length nodes)")
    case True
    then have len: "nat j < length nodes" using "1.prems" by linarith
    have n: "nat (i + r - j) = Suc (nat (i + r - (j + 1)))" using True by linarith
    have j: "nat (j + 1) = Suc (nat j)" using "1.prems" by linarith
    have "addchildren_loop i r nodes (j + 1) (cs @ [nodes ! nat j])
        = (cs @ [nodes ! nat j]) @ take (nat (i + r - (j + 1))) (drop (nat (j + 1)) nodes)"
      using "1.IH" [OF True] "1.prems" by simp
    also have "\<dots> = cs @ take (nat (i + r - j)) (drop (nat j) nodes)"
      using len unfolding n j by (simp add: take_Suc hd_drop_conv_nth tl_drop drop_Suc)
    finally show ?thesis
      using True by (subst addchildren_loop.simps) simp
  next
    case False
    then have "take (nat (i + r - j)) (drop (nat j) nodes) = []"
      using "1.prems" by (cases "j < i + r") auto
    with False show ?thesis
      by (subst addchildren_loop.simps) auto
  qed
qed

lemma level_node_parent:
  "0 \<le> i \<Longrightarrow> 0 < r \<Longrightarrow> level_node r nodes i = parent_of (take (nat r) (drop (nat i * nat r) nodes))"
  by (simp add: level_node_def addchildren_def memory_node_def addchildren_loop_take parent_of_def
      fold_map comp_def nat_mult_distrib)

lemma level_nodes_pos [level_simps]:
  assumes "0 < r"
  shows "level_nodes r nodes
    = map (\<lambda>i. parent_of (take (nat r) (drop (i * nat r) nodes))) [0..<Suc (length nodes div nat r)]"
proof -
  have q: "c_div (int (length nodes)) r = int (length nodes div nat r)"
    using assms by (simp add: c_div_nonneg zdiv_int)
  have "[0..int m] = map int [0..<Suc m]" for m
    by (induction m) (simp_all add: upto_rec2)
  then show ?thesis
    using assms by (simp add: level_nodes_def q level_node_parent del: upt_Suc)
qed

lemma length_level_nodes:
  "0 < r \<Longrightarrow> length (level_nodes r nodes) = Suc (length nodes div nat r)"
  by (simp add: level_simps del: upt_Suc)

lemma level_nodes_neg:
  assumes "r < 0"
  shows "level_nodes r nodes = (if int (length nodes) < - r then [level_node r nodes 0] else [])"
proof (cases "int (length nodes) < - r")
  case True
  then show ?thesis using assms by (simp add: level_nodes_def c_div_neg div_pos_pos_trivial)
next
  case False
  then have "0 < int (length nodes) div - r" using assms by (subst pos_imp_zdiv_pos_iff) auto
  with False assms show ?thesis by (simp add: level_nodes_def c_div_neg)
qed

lemma children_level_nodes:
  assumes "0 < r"
  shows "concat (map children (level_nodes r nodes)) = nodes"
proof -
  have "length nodes \<le> Suc (length nodes div nat r) * nat r"
    using assms dividend_less_div_times [of "nat r" "length nodes"] by simp
  then show ?thesis
    using assms by (simp add: level_simps comp_def parent_of_def concat_map_take_drop del: upt_Suc)
qed

lemma filename_level_nodes: "n \<in> set (level_nodes r nodes) \<Longrightarrow> filename n = ''Memory''"
  by (auto simp: level_nodes_def level_node_def addchildren_def memory_node_def Let_def)

lemma tree_leaves_memory:
  "filename n = ''Memory'' \<Longrightarrow> tree_leaves n = concat (map tree_leaves (children n))"
  by (cases n) simp

lemma tree_leaves_level:
  assumes "0 < r"
  shows "concat (map tree_leaves (level_nodes r nodes)) = concat (map tree_leaves nodes)"
proof -
  have "concat (map tree_leaves ns) = concat (map tree_leaves (concat (map children ns)))"
    if "\<forall>n \<in> set ns. filename n = ''Memory''" for ns
    using that by (induction ns) (auto simp: tree_leaves_memory)
  then show ?thesis
    using children_level_nodes [OF assms] filename_level_nodes by metis
qed

lemma wf_tree_ok: "wf_tree n \<Longrightarrow> bv_ok (blValue n)"
  by (cases n) simp

lemma fold_or_bits: "bitArray (fold (\<lambda>g a. or_bits a g) gs b) = bitArray b \<union> (\<Union>g \<in> set gs. bitArray g)"
  by (induction gs arbitrary: b) (auto simp: or_bits_def)

lemma wf_tree_parent: "\<forall>c \<in> set cs. wf_tree c \<Longrightarrow> wf_tree (parent_of cs)"
  by (auto simp: parent_of_def fold_or_bits list_all_iff intro!: bv.invar_fold_join wf_tree_ok)

lemma wf_tree_level:
  assumes "0 < r" and "\<forall>n \<in> set nodes. wf_tree n"
  shows "\<forall>n \<in> set (level_nodes r nodes). wf_tree n"
  using assms by (auto simp: level_simps intro!: wf_tree_parent dest!: in_set_takeD in_set_dropD simp del: upt_Suc)

section \<open>When createLevel returns\<close>

lemma level_shrinks:
  "3 \<le> r \<Longrightarrow> 1 < length nodes \<Longrightarrow> length (level_nodes r nodes) < length nodes"
proof -
  assume r: "3 \<le> r" and n: "1 < length nodes"
  from r have "length nodes div nat r \<le> length nodes div 3"
    by (intro div_le_mono2) auto
  then show ?thesis using r n by (simp add: length_level_nodes)
qed

lemma createLevel_single:
  "0 < r \<Longrightarrow> length nodes < nat r \<Longrightarrow> createLevel r nodes = Some (Inr (parent_of nodes))"
  by (simp add: createLevel.simps [of r nodes] length_level_nodes level_simps)

lemma createLevel_returns:
  "3 \<le> r \<Longrightarrow> \<exists>n. createLevel r nodes = Some (Inr n)"
proof (induction nodes rule: measure_induct_rule [where f = length])
  case (less nodes)
  show ?case
  proof (cases "length nodes < nat r")
    case True
    with less.prems show ?thesis using createLevel_single [of r nodes] by auto
  next
    case False
    then have "0 < length nodes div nat r" using less.prems by (simp add: div_greater_zero_iff)
    then have long: "1 < length (level_nodes r nodes)"
      using less.prems by (simp add: length_level_nodes)
    have "1 < length nodes" using False less.prems by linarith
    then have "length (level_nodes r nodes) < length nodes"
      using less.prems level_shrinks by blast
    then show ?thesis using less.IH less.prems long by (simp add: createLevel.simps [of r nodes])
  qed
qed

lemma createLevel_diverges:
  assumes "r = 1 \<and> nodes \<noteq> [] \<or> r = 2 \<and> 2 \<le> length nodes"
  shows "createLevel r nodes = None"
proof (rule ccontr)
  assume "createLevel r nodes \<noteq> None"
  then obtain y where y: "createLevel r nodes = Some y" by blast
  have "\<not> (r = 1 \<and> nodes \<noteq> [] \<or> r = 2 \<and> 2 \<le> length nodes)"
  proof (rule createLevel.raw_induct
      [where P = "\<lambda>r nodes y. \<not> (r = 1 \<and> nodes \<noteq> [] \<or> r = 2 \<and> 2 \<le> length nodes)", OF _ y])
    fix f r nodes y
    assume IH: "\<And>r nodes y. f r nodes = Some y \<Longrightarrow> \<not> (r = 1 \<and> nodes \<noteq> [] \<or> r = 2 \<and> 2 \<le> length nodes)"
      and eq: "(if r = 0 then Some (Inl Division_by_zero)
          else if 1 < length (level_nodes r nodes) then f r (level_nodes r nodes)
          else case level_nodes r nodes of [] \<Rightarrow> Some (Inl Vector_out_of_range) | n # _ \<Rightarrow> Some (Inr n)) = Some y"
    show "\<not> (r = 1 \<and> nodes \<noteq> [] \<or> r = 2 \<and> 2 \<le> length nodes)"
    proof
      assume bad: "r = 1 \<and> nodes \<noteq> [] \<or> r = 2 \<and> 2 \<le> length nodes"
      then have len: "2 \<le> length (level_nodes r nodes)"
        by (auto simp: length_level_nodes Suc_le_eq div_greater_zero_iff)
      with eq bad have "f r (level_nodes r nodes) = Some y" by auto
      from IH [OF this] len bad show False by auto
    qed
  qed
  with assms show False by blast
qed

lemma createLevel_negative:
  assumes "r < 0"
  shows "createLevel r nodes = Some (if int (length nodes) < - r then Inr (level_node r nodes 0) else Inl Vector_out_of_range)"
  using assms by (simp add: createLevel.simps [of r nodes] level_nodes_neg)

lemma createLevel_pos_succeeds:
  assumes "0 < r"
  shows "createLevel r nodes \<noteq> Some (Inl e)"
proof
  assume y: "createLevel r nodes = Some (Inl e)"
  let ?P = "\<lambda>r (nodes :: Node list) (y :: tree_error + Node). 0 < r \<longrightarrow> y \<noteq> Inl e"
  have "?P r nodes (Inl e)"
  proof (rule createLevel.raw_induct [where P = ?P, OF _ y])
    fix f :: "int \<Rightarrow> Node list \<Rightarrow> (tree_error + Node) option" and r nodes y
    assume IH: "\<And>r nodes y. f r nodes = Some y \<Longrightarrow> ?P r nodes y"
      and eq: "(if r = 0 then Some (Inl Division_by_zero)
          else if 1 < length (level_nodes r nodes) then f r (level_nodes r nodes)
          else case level_nodes r nodes of [] \<Rightarrow> Some (Inl Vector_out_of_range) | n # _ \<Rightarrow> Some (Inr n)) = Some y"
    show "?P r nodes y"
    proof
      assume r: "0 < r"
      have "level_nodes r nodes \<noteq> []" using length_level_nodes [OF r, of nodes] by auto
      then show "y \<noteq> Inl e" using eq r IH [of r "level_nodes r nodes" y] by (auto split: if_splits list.splits)
    qed
  qed
  with assms show False by simp
qed

section \<open>What createLevel builds\<close>

lemma createLevel_tree:
  assumes ret: "createLevel r nodes = Some (Inr n)" and r: "0 < r"
  shows "tree_leaves n = concat (map tree_leaves nodes) \<and> ((\<forall>m \<in> set nodes. wf_tree m) \<longrightarrow> wf_tree n)"
proof -
  let ?P = "\<lambda>r nodes (y :: tree_error + Node). \<forall>n. 0 < r \<longrightarrow> y = Inr n \<longrightarrow>
     tree_leaves n = concat (map tree_leaves nodes) \<and> ((\<forall>m \<in> set nodes. wf_tree m) \<longrightarrow> wf_tree n)"
  have "?P r nodes (Inr n)"
  proof (rule createLevel.raw_induct [where P = ?P, OF _ ret])
    fix f :: "int \<Rightarrow> Node list \<Rightarrow> (tree_error + Node) option" and r nodes y
    assume IH: "\<And>r nodes y. f r nodes = Some y \<Longrightarrow> ?P r nodes y"
      and eq: "(if r = 0 then Some (Inl Division_by_zero)
          else if 1 < length (level_nodes r nodes) then f r (level_nodes r nodes)
          else case level_nodes r nodes of [] \<Rightarrow> Some (Inl Vector_out_of_range) | n # _ \<Rightarrow> Some (Inr n)) = Some y"
    show "?P r nodes y"
    proof (intro allI impI)
      fix n assume r: "0 < r" and y: "y = Inr n"
      show "tree_leaves n = concat (map tree_leaves nodes) \<and> ((\<forall>m \<in> set nodes. wf_tree m) \<longrightarrow> wf_tree n)"
      proof (cases "1 < length (level_nodes r nodes)")
        case True
        with eq r have "f r (level_nodes r nodes) = Some y" by simp
        from IH [OF this] r y show ?thesis
          by (simp add: tree_leaves_level wf_tree_level)
      next
        case False
        then have "level_nodes r nodes = [n]"
          using eq r y by (auto split: list.splits)
        then show ?thesis
          using tree_leaves_level [OF r, of nodes] wf_tree_level [OF r, of nodes] by simp
      qed
    qed
  qed
  with r show ?thesis by blast
qed

section \<open>What a lookup returns\<close>

lemma checkExistanceThread_hits:
  "checkExistanceThread_node h n v names = names @ hits h v n"
proof (induction h n v names rule: checkExistanceThread_node.induct)
  case (1 h cs bv fname v names)
  have "fold (\<lambda>child names. checkExistanceThread_node h child v names) cs' a = a @ concat (map (hits h v) cs')"
    if "fname = ''Memory''" "bv_exists h bv v" "set cs' \<subseteq> set cs" for cs' a
    using that(3) by (induction cs' arbitrary: a) (simp_all add: "1.IH" that(1,2))
  then show ?case by simp
qed

lemma checkExistance_hits:
  "checkExistance_node h n v t =
     t\<lparr>bloomNames := bloomNames t @ hits h v n, foundInHierarchy := foundInHierarchy t + int (positives h v n)\<rparr>"
proof (induction h n v t rule: checkExistance_node.induct)
  case (1 h cs bv fname v t)
  have "fold (\<lambda>child t'. checkExistance_node h child v t') cs' a
      = a\<lparr>bloomNames := bloomNames a @ concat (map (hits h v) cs'),
          foundInHierarchy := foundInHierarchy a + int (sum_list (map (positives h v) cs'))\<rparr>"
    if "fname = ''Memory''" "bv_exists h bv v" "set cs' \<subseteq> set cs" for cs' a
    using that(3) by (induction cs' arbitrary: a) (simp_all add: "1.IH" that(1,2))
  then show ?case by simp
qed

lemma hits_subseq: "subseq (hits h v n) (map filename (tree_leaves n))"
proof (induction n rule: tree_leaves.induct)
  case (1 cs bv fname)
  have "subseq (concat (map (hits h v) cs')) (map filename (concat (map tree_leaves cs')))"
    if "fname = ''Memory''" "set cs' \<subseteq> set cs" for cs'
    using that(2) by (induction cs') (auto intro!: list_emb_append_mono "1.IH" simp: that(1))
  then show ?case by simp
qed

text \<open>No leaf that contains the value is pruned, because every ancestor contains its bits.\<close>

lemma wf_tree_leaf_bits:
  "wf_tree n \<Longrightarrow> l \<in> set (tree_leaves n) \<Longrightarrow> bitArray (blValue l) \<subseteq> bitArray (blValue n)"
proof (induction n rule: tree_leaves.induct)
  case (1 cs bv fname)
  then show ?case by (cases "fname = ''Memory''") fastforce+
qed

lemma wf_tree_exists:
  assumes "wf_tree n" and "bv_ok (blValue l)" and "l \<in> set (tree_leaves n)" and "bv_exists h (blValue l) v"
  shows "bv_exists h (blValue n) v"
  using assms wf_tree_leaf_bits [OF assms(1,3)] wf_tree_ok [OF assms(1)]
  by (auto intro: bv_exists_mono simp: bv_ok_def)

lemma hits_complete:
  "wf_tree n \<Longrightarrow> bv_ok (blValue l) \<Longrightarrow> l \<in> set (tree_leaves n) \<Longrightarrow> bv_exists h (blValue l) v
   \<Longrightarrow> filename l \<in> set (hits h v n)"
proof (induction n rule: tree_leaves.induct)
  case (1 cs bv fname)
  show ?case
  proof (cases "fname = ''Memory''")
    case True
    have "bv_exists h bv v" using wf_tree_exists [OF "1.prems"] by simp
    with "1" True show ?thesis by fastforce
  qed (use "1.prems" in simp)
qed

section \<open>Properties\<close>

lemma leafNodes_fold:
  "leafNodes (fold (\<lambda>(bv, f). createLeafLevel bv f) fs t) = leafNodes t @ map (\<lambda>(bv, f). leaf_node bv f) fs
   \<and> ratio (fold (\<lambda>(bv, f). createLeafLevel bv f) fs t) = ratio t
   \<and> bloomNames (fold (\<lambda>(bv, f). createLeafLevel bv f) fs t) = bloomNames t
   \<and> foundInHierarchy (fold (\<lambda>(bv, f). createLeafLevel bv f) fs t) = foundInHierarchy t"
  by (induction fs arbitrary: t) (auto simp: createLeafLevel_def)

lemma tree_leaves_of_leaves:
  "\<forall>l \<in> set ls. filename l \<noteq> ''Memory'' \<Longrightarrow> concat (map tree_leaves ls) = ls"
proof (induction ls)
  case (Cons l ls)
  then show ?case by (cases l) simp
qed simp

text \<open>What the program builds from a list of filters and file names.\<close>

definition build_tree :: "int \<Rightarrow> (bloom_value \<times> string) list \<Rightarrow> bloomTree" where
  "build_tree r fs = fold (\<lambda>(bv, f). createLeafLevel bv f) fs (bloomTree_new r)"

definition leaves_ok :: "(bloom_value \<times> string) list \<Rightarrow> bool" where
  "leaves_ok fs \<longleftrightarrow> list_all (\<lambda>(bv, f). bv_ok bv \<and> f \<noteq> ''Memory'') fs"

lemma leafNodes_build: "leafNodes (build_tree r fs) = map (\<lambda>(bv, f). leaf_node bv f) fs"
  by (simp add: build_tree_def leafNodes_fold bloomTree_new_def)

lemma build_tree_fields:
  "ratio (build_tree r fs) = r" "bloomNames (build_tree r fs) = []" "foundInHierarchy (build_tree r fs) = 0"
  by (simp_all add: build_tree_def leafNodes_fold bloomTree_new_def)

lemma leaf_nodes_wf:
  "leaves_ok fs \<Longrightarrow> \<forall>l \<in> set (map (\<lambda>(bv, f). leaf_node bv f) fs). filename l \<noteq> ''Memory'' \<and> wf_tree l"
  by (auto simp: leaves_ok_def list_all_iff leaf_node_def)

lemma createTree_build:
  assumes "3 \<le> r" and "leaves_ok fs"
  shows "\<exists>n. createTree (build_tree r fs) = Some (Inr ((build_tree r fs)\<lparr>root := Some n\<rparr>))
     \<and> tree_leaves n = map (\<lambda>(bv, f). leaf_node bv f) fs \<and> wf_tree n"
proof -
  let ?ls = "map (\<lambda>(bv, f). leaf_node bv f) fs"
  obtain n where n: "createLevel r ?ls = Some (Inr n)" using createLevel_returns [OF assms(1)] by blast
  have "0 < r" using assms(1) by simp
  from createLevel_tree [OF n this] leaf_nodes_wf [OF assms(2)] tree_leaves_of_leaves [of ?ls]
  have "tree_leaves n = ?ls" "wf_tree n" by simp_all
  moreover have "createTree (build_tree r fs) = Some (Inr ((build_tree r fs)\<lparr>root := Some n\<rparr>))"
    using n by (simp only: createTree_def build_tree_fields leafNodes_build option.case sum.case)
  ultimately show ?thesis by blast
qed

lemma lookup_built:
  assumes "3 \<le> r" and "leaves_ok fs"
  shows "\<exists>t. createTree (build_tree r fs) = Some (Inr t) \<and> (\<forall>v. \<exists>names t'. checkExistance h v t = Inr (names, t') \<and>
     checkExistanceThread h v t = Inr names \<and>
     (\<forall>(bv, f) \<in> set fs. bv_exists h bv v \<longrightarrow> f \<in> set names) \<and> subseq names (map snd fs))"
proof -
  obtain n where n: "createTree (build_tree r fs) = Some (Inr ((build_tree r fs)\<lparr>root := Some n\<rparr>))"
    "tree_leaves n = map (\<lambda>(bv, f). leaf_node bv f) fs" "wf_tree n"
    using createTree_build [OF assms] by blast
  let ?t = "(build_tree r fs)\<lparr>root := Some n\<rparr>"
  have "checkExistance h v ?t = Inr (hits h v n, checkExistance_node h n v ?t)" "checkExistanceThread h v ?t = Inr (hits h v n)" for v
    by (simp_all add: checkExistance_def checkExistanceThread_def Let_def checkExistance_hits checkExistanceThread_hits build_tree_fields)
  moreover have "f \<in> set (hits h v n)" if "(bv, f) \<in> set fs" "bv_exists h bv v" for bv f v
    using hits_complete [OF n(3), of "leaf_node bv f" h v] that assms(2) n(2)
    by (force simp: leaves_ok_def list_all_iff leaf_node_def)
  moreover have "subseq (hits h v n) (map snd fs)" for v
    using hits_subseq [of h v n] by (simp add: n(2) leaf_node_def comp_def case_prod_beta)
  ultimately show ?thesis using n(1) by (intro exI [of _ ?t]) blast
qed

text \<open>
  C12: \<^verbatim>\<open>createLevel\<close> fails to return exactly when the ratio is 1 and there is a node, or the
  ratio is 2 and there are at least two: the level built from two nodes with ratio 2 has
  two nodes again.
\<close>

theorem createLevel_never_returns_iff:
  "createLevel r nodes = None \<longleftrightarrow> r = 1 \<and> nodes \<noteq> [] \<or> r = 2 \<and> 2 \<le> length nodes"
proof -
  consider "r < 0" | "r = 0" | "r = 1" | "r = 2" | "3 \<le> r" by linarith
  then show ?thesis
  proof cases
    case 1
    then show ?thesis by (auto simp: createLevel_negative)
  next
    case 2
    then show ?thesis by (simp add: createLevel.simps)
  next
    case 3
    then show ?thesis using createLevel_diverges [of r nodes] createLevel_single [of r nodes] by auto
  next
    case 4
    then show ?thesis using createLevel_diverges [of r nodes] createLevel_single [of r nodes] by (cases "2 \<le> length nodes") auto
  next
    case 5
    then show ?thesis using createLevel_returns [of r nodes] by auto
  qed
qed

text \<open>
  C25: the only failures of \<^verbatim>\<open>createLevel\<close> are the division by a zero ratio and, for a negative
  ratio that is not larger in size than the number of nodes, the read of element 0 of an
  empty vector; a positive ratio never fails.
\<close>

theorem createLevel_failure_iff:
  "createLevel r nodes = Some (Inl e) \<longleftrightarrow>
     r = 0 \<and> e = Division_by_zero \<or> r < 0 \<and> - r \<le> int (length nodes) \<and> e = Vector_out_of_range"
proof -
  consider "r < 0" | "r = 0" | "0 < r" by linarith
  then show ?thesis
  proof cases
    case 1
    then show ?thesis by (auto simp: createLevel_negative)
  next
    case 2
    then show ?thesis by (auto simp: createLevel.simps)
  next
    case 3
    then show ?thesis using createLevel_pos_succeeds [of r nodes e] by auto
  qed
qed

text \<open>
  C4: for every ratio of at least three the tree is built, and a lookup in it returns the
  names of leaves only, in the order in which they were added and each at most as often as
  it was added, among them the name of every leaf whose own filter contains the value.
\<close>

theorem hierarchy_lookup_complete:
  assumes "3 \<le> r" and "leaves_ok fs"
  shows "\<exists>t names t'. createTree (build_tree r fs) = Some (Inr t) \<and> checkExistance h v t = Inr (names, t')
     \<and> (\<forall>(bv, f) \<in> set fs. bv_exists h bv v \<longrightarrow> f \<in> set names) \<and> subseq names (map snd fs)"
  using lookup_built [OF assms, of h] by blast

theorem hierarchy_lookup_complete_witness:
  "\<exists>t names t'. createTree (build_tree 3 [(bv_insert (\<lambda>s. 5) ''Value1'' bloom_value_new, ''a.bloom''),
       (bloom_value_new, ''b.bloom'')]) = Some (Inr t) \<and> checkExistance (\<lambda>s. 5) ''Value1'' t = Inr (names, t')
     \<and> (\<forall>(bv, f) \<in> set [(bv_insert (\<lambda>s. 5) ''Value1'' bloom_value_new, ''a.bloom''), (bloom_value_new, ''b.bloom'')].
          bv_exists (\<lambda>s. 5) bv ''Value1'' \<longrightarrow> f \<in> set names)
     \<and> subseq names (map snd [(bv_insert (\<lambda>s. 5) ''Value1'' bloom_value_new, ''a.bloom''), (bloom_value_new, ''b.bloom'')])"
  by (rule hierarchy_lookup_complete) (simp_all add: leaves_ok_def bv_ok_insert)

text \<open>
  C26: the member vector \<^verbatim>\<open>bloomNames\<close> and the counter are never reset, so a second lookup on the
  same tree returns the names of the first one followed by its own; the thread variant,
  which has a vector of its own, returns only its own.
\<close>

theorem lookups_accumulate:
  assumes "checkExistance h v t = Inr (names, t')" and "checkExistance h u t' = Inr (names', t'')"
  shows "\<exists>own. checkExistanceThread h u t = Inr own \<and> names' = names @ own
     \<and> GetScannedHierarchyFilters t' \<le> GetScannedHierarchyFilters t''"
proof -
  obtain n where "root t = Some n"
    using assms(1) by (auto simp: checkExistance_def split: option.splits)
  with assms show ?thesis
    by (auto simp: checkExistance_def checkExistanceThread_def checkExistance_hits checkExistanceThread_hits
        GetScannedHierarchyFilters_def Let_def)
qed

text \<open>A root over one leaf that holds the value.\<close>

definition one_leaf_tree :: bloomTree where
  "one_leaf_tree = \<lparr>ratio = 3, root = Some (parent_of [leaf_node (bv_insert (\<lambda>s. 5) ''v'' bloom_value_new) ''a.bloom'']),
     leafNodes = [], foundInHierarchy = 0, bloomNames = []\<rparr>"

lemma checkExistance_eq:
  "root t = Some n \<Longrightarrow> checkExistance h v t = Inr (bloomNames t @ hits h v n, checkExistance_node h n v t)"
  by (simp add: checkExistance_def Let_def checkExistance_hits)

lemma one_leaf_hits:
  "hits (\<lambda>s. 5) ''v'' (parent_of [leaf_node (bv_insert (\<lambda>s. 5) ''v'' bloom_value_new) ''a.bloom'']) = [''a.bloom'']"
proof -
  let ?bv = "bv_insert (\<lambda>s. 5) ''v'' bloom_value_new"
  have "bv_exists (\<lambda>s. 5) ?bv ''v''" by (rule bv.mem_ins) simp
  moreover have "bv_exists (\<lambda>s. 5) (or_bits bloom_value_new ?bv) ''v''"
    by (rule bv.mem_join2) (simp_all add: bv_ok_insert calculation)
  ultimately show ?thesis by (simp add: parent_of_def leaf_node_def)
qed

theorem lookups_accumulate_witness:
  "\<exists>t' t'' own. checkExistance (\<lambda>s. 5) ''v'' one_leaf_tree = Inr ([''a.bloom''], t')
     \<and> checkExistance (\<lambda>s. 5) ''v'' t' = Inr ([''a.bloom'', ''a.bloom''], t'')
     \<and> checkExistanceThread (\<lambda>s. 5) ''v'' one_leaf_tree = Inr own \<and> [''a.bloom'', ''a.bloom''] = [''a.bloom''] @ own"
proof -
  let ?h = "\<lambda>s :: string. 5 :: u64" and ?n = "the (root one_leaf_tree)"
  let ?t1 = "checkExistance_node ?h ?n ''v'' one_leaf_tree"
  have r: "root one_leaf_tree = Some ?n" "root ?t1 = Some ?n" "bloomNames one_leaf_tree = []" "hits ?h ''v'' ?n = [''a.bloom'']"
    by (simp_all add: one_leaf_tree_def checkExistance_hits one_leaf_hits)
  then have "bloomNames ?t1 = [''a.bloom'']" by (simp add: checkExistance_hits)
  with checkExistance_eq [OF r(1), of ?h "''v''"] checkExistance_eq [OF r(2), of ?h "''v''"] r
  have 1: "checkExistance ?h ''v'' one_leaf_tree = Inr ([''a.bloom''], ?t1)"
    and 2: "checkExistance ?h ''v'' ?t1 = Inr ([''a.bloom'', ''a.bloom''], checkExistance_node ?h ?n ''v'' ?t1)"
    by simp_all
  from lookups_accumulate [OF 1 2] 1 2 show ?thesis by blast
qed

end
