(* ===== verification/Table_Format.thy ===== *)
theory Table_Format
  imports Log_Writer
begin

text \<open>
  \<^verbatim>\<open>src/leveldb/table/format.h\<close> and \<^verbatim>\<open>format.cc\<close>: block handles, the footer of a table file and
  \<^verbatim>\<open>ReadBlock\<close>.  A random access file is its contents and the status of each read; a read past
  the end returns the bytes there are.  The compression libraries that \<^verbatim>\<open>port.h\<close> calls are a
  record of functions, \<^term>\<open>None\<close> where the library call returns false.  Block sizes are not
  bounded by the 64-bit width: the addition \<^verbatim>\<open>n + kBlockTrailerSize\<close> is on natural numbers.
\<close>

section \<open>Handles and footers\<close>

record BlockHandle =
  bh_offset :: u64
  bh_size :: u64

definition BlockHandle_new :: BlockHandle where
  "BlockHandle_new = \<lparr>bh_offset = NOT 0, bh_size = NOT 0\<rparr>"

definition BlockHandle_EncodeTo :: "BlockHandle \<Rightarrow> string \<Rightarrow> string" where
  "BlockHandle_EncodeTo h dst = PutVarint64 (PutVarint64 dst (bh_offset h)) (bh_size h)"

definition BlockHandle_DecodeFrom :: "string \<Rightarrow> Status + (BlockHandle \<times> string)" where
  "BlockHandle_DecodeFrom input =
     (case GetVarint64 input of
        None \<Rightarrow> Inl (Corruption ''bad block handle'')
      | Some (off, rest) \<Rightarrow>
          (case GetVarint64 rest of
             None \<Rightarrow> Inl (Corruption ''bad block handle'')
           | Some (sz, rest') \<Rightarrow> Inr (\<lparr>bh_offset = off, bh_size = sz\<rparr>, rest')))"

definition kMaxEncodedLength :: nat where
  "kMaxEncodedLength = 10 + 10"

record Footer =
  metaindex_handle :: BlockHandle
  index_handle :: BlockHandle

definition kEncodedLength :: nat where
  "kEncodedLength = 2 * kMaxEncodedLength + 8"

definition kTableMagicNumber :: u64 where
  "kTableMagicNumber = 0xdb4775248b80fb57"

definition kBlockTrailerSize :: nat where
  "kBlockTrailerSize = 5"

text \<open>\<^verbatim>\<open>std::string::resize\<close> pads with null characters.\<close>

definition resize :: "string \<Rightarrow> nat \<Rightarrow> string" where
  "resize s n = take n s @ replicate (n - length s) (chr8 0)"

definition Footer_EncodeTo :: "Footer \<Rightarrow> string \<Rightarrow> string" where
  "Footer_EncodeTo f dst =
     (let d1 = BlockHandle_EncodeTo (metaindex_handle f) dst;
          d2 = BlockHandle_EncodeTo (index_handle f) d1;
          d3 = resize d2 (2 * kMaxEncodedLength);
          d4 = PutFixed32 d3 (ucast (kTableMagicNumber AND 0xffffffff))
      in PutFixed32 d4 (ucast (drop_bit 32 kTableMagicNumber)))"

definition Footer_DecodeFrom :: "string \<Rightarrow> Status + (Footer \<times> string)" where
  "Footer_DecodeFrom input =
     (if length input < kEncodedLength then Inl (Corruption ''not an sstable (footer too short)'')
      else let magic_ptr = drop (kEncodedLength - 8) input;
               magic_lo = DecodeFixed32 magic_ptr;
               magic_hi = DecodeFixed32 (drop 4 magic_ptr);
               magic = push_bit 32 (ucast magic_hi) OR (ucast magic_lo :: u64)
           in if magic \<noteq> kTableMagicNumber then Inl (Corruption ''not an sstable (bad magic number)'')
              else case BlockHandle_DecodeFrom input of
                     Inl s \<Rightarrow> Inl s
                   | Inr (m, input1) \<Rightarrow>
                       (case BlockHandle_DecodeFrom input1 of
                          Inl s \<Rightarrow> Inl s
                        | Inr (i, input2) \<Rightarrow>
                            Inr (\<lparr>metaindex_handle = m, index_handle = i\<rparr>, drop 8 magic_ptr)))"

section \<open>Reading a block\<close>

datatype CompressionType = kNoCompression | kSnappyCompression | kZstdCompression

definition CompressionType_num :: "CompressionType \<Rightarrow> nat" where
  "CompressionType_num t = (case t of kNoCompression \<Rightarrow> 0 | kSnappyCompression \<Rightarrow> 1 | kZstdCompression \<Rightarrow> 2)"

record codecs =
  Snappy_Compress :: "string \<Rightarrow> string option"
  Snappy_GetUncompressedLength :: "string \<Rightarrow> nat option"
  Snappy_Uncompress :: "string \<Rightarrow> string option"
  Zstd_Compress :: "string \<Rightarrow> string option"
  Zstd_GetUncompressedLength :: "string \<Rightarrow> nat option"
  Zstd_Uncompress :: "string \<Rightarrow> string option"

record rafile =
  ra_data :: string
  ra_status :: "nat \<Rightarrow> nat \<Rightarrow> Status"

definition ra_Read :: "rafile \<Rightarrow> nat \<Rightarrow> nat \<Rightarrow> Status + string" where
  "ra_Read f off n =
     (if Status_ok (ra_status f off n) then Inr (take n (drop off (ra_data f))) else Inl (ra_status f off n))"

definition ReadBlock :: "codecs \<Rightarrow> rafile \<Rightarrow> bool \<Rightarrow> BlockHandle \<Rightarrow> Status + string" where
  "ReadBlock cd file verify_checksums handle =
     (let n = unat (bh_size handle)
      in case ra_Read file (unat (bh_offset handle)) (n + kBlockTrailerSize) of
           Inl s \<Rightarrow> Inl s
         | Inr contents \<Rightarrow>
             if length contents \<noteq> n + kBlockTrailerSize then Inl (Corruption ''truncated block read'')
             else if verify_checksums \<and>
                     crc32c_Value (take (n + 1) contents) \<noteq> Unmask (DecodeFixed32 (drop (n + 1) contents))
             then Inl (Corruption ''block checksum mismatch'')
             else if contents ! n = char_of (CompressionType_num kNoCompression) then Inr (take n contents)
             else if contents ! n = char_of (CompressionType_num kSnappyCompression) then
               (case Snappy_GetUncompressedLength cd (take n contents) of
                  None \<Rightarrow> Inl (Corruption ''corrupted snappy compressed block length'')
                | Some ulength \<Rightarrow>
                    (case Snappy_Uncompress cd (take n contents) of
                       None \<Rightarrow> Inl (Corruption ''corrupted snappy compressed block contents'')
                     | Some ubuf \<Rightarrow> Inr (resize ubuf ulength)))
             else if contents ! n = char_of (CompressionType_num kZstdCompression) then
               (case Zstd_GetUncompressedLength cd (take n contents) of
                  None \<Rightarrow> Inl (Corruption ''corrupted zstd compressed block length'')
                | Some ulength \<Rightarrow>
                    (case Zstd_Uncompress cd (take n contents) of
                       None \<Rightarrow> Inl (Corruption ''corrupted zstd compressed block contents'')
                     | Some ubuf \<Rightarrow> Inr (resize ubuf ulength)))
             else Inl (Corruption ''bad block type''))"

section \<open>Lemmas\<close>

lemma PutVarint64_Nil [simp]: "PutVarint64 [] v = EncodeVarint64 v"
  by (simp add: PutVarint64_def)

lemma GetVarint64_Encode [simp]: "GetVarint64 (EncodeVarint64 v @ rest) = Some (v, rest)"
  using GetVarint64_Put by simp

lemma BlockHandle_EncodeTo_append: "BlockHandle_EncodeTo h dst = dst @ BlockHandle_EncodeTo h []"
  by (simp add: BlockHandle_EncodeTo_def PutVarint64_def)

lemma BlockHandle_roundtrip [simp]: "BlockHandle_DecodeFrom (BlockHandle_EncodeTo h [] @ rest) = Inr (h, rest)"
  by (simp add: BlockHandle_EncodeTo_def PutVarint64_def BlockHandle_DecodeFrom_def)

lemma BlockHandle_roundtrip' [simp]: "BlockHandle_DecodeFrom (BlockHandle_EncodeTo h []) = Inr (h, [])"
  using BlockHandle_roundtrip [of h "[]"] by simp

lemma length_EncodeVarint64_10: "length (EncodeVarint64 v) \<le> 10"
proof -
  have "unat v < 2 ^ (7 * 10)"
    by (rule less_le_trans [OF unsigned_less]) (simp add: power_increasing)
  from length_EncodeVarint64_bound [OF this] show ?thesis by simp
qed

lemma length_BlockHandle_EncodeTo: "length (BlockHandle_EncodeTo h []) \<le> kMaxEncodedLength"
  using length_EncodeVarint64_10 [of "bh_offset h"] length_EncodeVarint64_10 [of "bh_size h"]
  by (simp add: BlockHandle_EncodeTo_def PutVarint64_def kMaxEncodedLength_def)

lemma length_resize [simp]: "length (resize s n) = n"
  by (simp add: resize_def)

lemma resize_id [simp]: "resize s (length s) = s"
  by (simp add: resize_def)

lemma length_Footer: "length (Footer_EncodeTo f []) = kEncodedLength"
  by (simp add: Footer_EncodeTo_def Let_def PutFixed32_def kEncodedLength_def)

lemma Footer_roundtrip: "Footer_DecodeFrom (Footer_EncodeTo f [] @ rest) = Inr (f, rest)"
proof -
  let ?m = "BlockHandle_EncodeTo (metaindex_handle f) []" and ?i = "BlockHandle_EncodeTo (index_handle f) []"
  define pad where "pad = replicate (40 - length (?m @ ?i)) (chr8 0)"
  define lo hi where "lo = EncodeFixed32 (ucast (kTableMagicNumber AND 0xffffffff))"
    and "hi = EncodeFixed32 (ucast (drop_bit 32 kTableMagicNumber))"
  have len: "length (?m @ ?i) \<le> 40"
    using length_BlockHandle_EncodeTo [of "metaindex_handle f"] length_BlockHandle_EncodeTo [of "index_handle f"]
    by (simp add: kMaxEncodedLength_def)
  then have enc: "Footer_EncodeTo f [] = (?m @ ?i @ pad) @ lo @ hi"
    by (simp add: Footer_EncodeTo_def Let_def PutFixed32_def BlockHandle_EncodeTo_append [of "index_handle f" ?m] resize_def
        kMaxEncodedLength_def pad_def lo_def hi_def)
  have l40: "length (?m @ ?i @ pad) = 40" using len by (simp add: pad_def)
  have dr: "drop (kEncodedLength - 8) (Footer_EncodeTo f [] @ rest) = lo @ hi @ rest"
    using l40 by (simp add: enc kEncodedLength_def kMaxEncodedLength_def)
  have magic: "push_bit 32 (ucast (ucast (drop_bit 32 kTableMagicNumber) :: u32)) OR
      (ucast (ucast (kTableMagicNumber AND 0xffffffff) :: u32) :: u64) = kTableMagicNumber"
    by (simp add: kTableMagicNumber_def)
  have dec: "DecodeFixed32 (lo @ hi @ rest) = ucast (kTableMagicNumber AND 0xffffffff)"
    "DecodeFixed32 (drop 4 (lo @ hi @ rest)) = ucast (drop_bit 32 kTableMagicNumber)" "drop 8 (lo @ hi @ rest) = rest"
    by (simp_all add: lo_def hi_def)
  have m: "BlockHandle_DecodeFrom (Footer_EncodeTo f [] @ rest) = Inr (metaindex_handle f, ?i @ pad @ lo @ hi @ rest)"
    by (simp add: enc)
  have "\<not> length (Footer_EncodeTo f [] @ rest) < kEncodedLength" by (simp add: length_Footer)
  then show ?thesis
    unfolding Footer_DecodeFrom_def Let_def dr dec magic m by simp
qed

end
