(* ===== verification/Block_Builder.thy ===== *)
theory Block_Builder
  imports Table_Format
begin

text \<open>
  \<^verbatim>\<open>src/leveldb/table/block_builder.cc\<close>: blocks of prefix-compressed entries followed by the array
  of restart points.  The assertions of the source (keys in increasing order, not finished)
  are preconditions.  \<open>bb_rep\<close> relates a builder to the entries that were added: every entry
  with the number of bytes it shares with the key before it, and the indices of the entries
  that are restart points.
\<close>

section \<open>The builder\<close>

record BlockBuilder =
  bb_interval :: nat
  bb_buffer :: string
  bb_restarts :: "u32 list"
  bb_counter :: nat
  bb_finished :: bool
  bb_last_key :: string

definition BlockBuilder_new :: "nat \<Rightarrow> BlockBuilder" where
  "BlockBuilder_new interval =
     \<lparr>bb_interval = interval, bb_buffer = [], bb_restarts = [0], bb_counter = 0, bb_finished = False, bb_last_key = []\<rparr>"

definition bb_Reset :: "BlockBuilder \<Rightarrow> BlockBuilder" where
  "bb_Reset b = b\<lparr>bb_buffer := [], bb_restarts := [0], bb_counter := 0, bb_finished := False, bb_last_key := []\<rparr>"

definition bb_CurrentSizeEstimate :: "BlockBuilder \<Rightarrow> nat" where
  "bb_CurrentSizeEstimate b = length (bb_buffer b) + length (bb_restarts b) * 4 + 4"

definition bb_empty :: "BlockBuilder \<Rightarrow> bool" where
  "bb_empty b \<longleftrightarrow> bb_buffer b = []"

definition bb_Finish :: "BlockBuilder \<Rightarrow> string \<times> BlockBuilder" where
  "bb_Finish b =
     (let buf = fold (\<lambda>r buf. PutFixed32 buf r) (bb_restarts b) (bb_buffer b);
          buf' = PutFixed32 buf (of_nat (length (bb_restarts b)))
      in (buf', b\<lparr>bb_buffer := buf', bb_finished := True\<rparr>))"

fun shared_prefix :: "string \<Rightarrow> string \<Rightarrow> nat" where
  "shared_prefix (x # xs) (y # ys) = (if x = y then Suc (shared_prefix xs ys) else 0)"
| "shared_prefix _ _ = 0"

definition bb_Add :: "string \<Rightarrow> string \<Rightarrow> BlockBuilder \<Rightarrow> BlockBuilder" where
  "bb_Add key value b =
     (let sharing = bb_counter b < bb_interval b;
          shared = (if sharing then shared_prefix (bb_last_key b) key else 0);
          b1 = (if sharing then b
                else b\<lparr>bb_restarts := bb_restarts b @ [of_nat (length (bb_buffer b))], bb_counter := 0\<rparr>);
          non_shared = length key - shared;
          buf1 = PutVarint32 (bb_buffer b1) (of_nat shared);
          buf2 = PutVarint32 buf1 (of_nat non_shared);
          buf3 = PutVarint32 buf2 (of_nat (length value))
      in b1\<lparr>bb_buffer := buf3 @ take non_shared (drop shared key) @ value,
            bb_last_key := take shared (bb_last_key b) @ take non_shared (drop shared key),
            bb_counter := bb_counter b1 + 1\<rparr>)"

section \<open>What the builder holds\<close>

datatype entry = Entry (e_shared: nat) (e_key: string) (e_value: string)

definition entry_bytes :: "entry \<Rightarrow> string" where
  "entry_bytes e =
     EncodeVarint32 (of_nat (e_shared e)) @ EncodeVarint32 (of_nat (length (e_key e) - e_shared e)) @
     EncodeVarint32 (of_nat (length (e_value e))) @ drop (e_shared e) (e_key e) @ e_value e"

definition entries_bytes :: "entry list \<Rightarrow> string" where
  "entries_bytes es = concat (map entry_bytes es)"

definition entry_off :: "entry list \<Rightarrow> nat \<Rightarrow> nat" where
  "entry_off es i = length (entries_bytes (take i es))"

fun chain_ok :: "string \<Rightarrow> entry list \<Rightarrow> bool" where
  "chain_ok prev [] \<longleftrightarrow> True"
| "chain_ok prev (e # es) \<longleftrightarrow>
     e_shared e \<le> length prev \<and> e_shared e \<le> length (e_key e) \<and>
     take (e_shared e) prev = take (e_shared e) (e_key e) \<and> chain_ok (e_key e) es"

definition last_key :: "entry list \<Rightarrow> string" where
  "last_key es = (if es = [] then [] else e_key (last es))"

definition restarts_ok :: "entry list \<Rightarrow> nat list \<Rightarrow> bool" where
  "restarts_ok es ris \<longleftrightarrow>
     ris \<noteq> [] \<and> ris ! 0 = 0 \<and> sorted_wrt (<) ris \<and> (\<forall>i \<in> set ris. i = 0 \<or> i < length es \<and> e_shared (es ! i) = 0)"

definition bb_rep :: "BlockBuilder \<Rightarrow> entry list \<Rightarrow> nat list \<Rightarrow> bool" where
  "bb_rep b es ris \<longleftrightarrow>
     bb_buffer b = entries_bytes es \<and> chain_ok [] es \<and> bb_last_key b = last_key es \<and> restarts_ok es ris \<and>
     bb_restarts b = map (\<lambda>i. of_nat (entry_off es i)) ris \<and> (es = [] \<longrightarrow> ris = [0]) \<and> (es = [] \<longrightarrow> bb_counter b = 0)"

definition entry_kv :: "entry \<Rightarrow> string \<times> string" where
  "entry_kv e = (e_key e, e_value e)"

section \<open>Lemmas\<close>

lemma shared_prefix_le: "shared_prefix xs ys \<le> length xs" "shared_prefix xs ys \<le> length ys"
  by (induction xs ys rule: shared_prefix.induct) auto

lemma shared_prefix_take: "take (shared_prefix xs ys) xs = take (shared_prefix xs ys) ys"
  by (induction xs ys rule: shared_prefix.induct) auto

lemma entries_bytes_simps [simp]:
  "entries_bytes [] = []" "entries_bytes (e # es) = entry_bytes e @ entries_bytes es"
  "entries_bytes (es @ fs) = entries_bytes es @ entries_bytes fs"
  by (simp_all add: entries_bytes_def)

lemma EncodeVarint32_nonempty: "EncodeVarint32 v \<noteq> []"
  by (simp add: EncodeVarint32_def)

lemma entry_bytes_nonempty: "entry_bytes e \<noteq> []"
  by (simp add: entry_bytes_def EncodeVarint32_nonempty)

lemma chain_ok_append: "chain_ok prev (es @ [e]) \<longleftrightarrow> chain_ok prev es \<and> chain_ok (if es = [] then prev else e_key (last es)) [e]"
  by (induction es arbitrary: prev) auto

lemma last_key_snoc [simp]: "last_key (es @ [e]) = e_key e"
  by (simp add: last_key_def)

lemma entry_off_append: "i \<le> length es \<Longrightarrow> entry_off (es @ fs) i = entry_off es i"
  by (simp add: entry_off_def)

lemma entry_off_all: "length es \<le> i \<Longrightarrow> entry_off es i = length (entries_bytes es)"
  by (simp add: entry_off_def)

lemma bb_rep_new: "bb_rep (BlockBuilder_new n) [] [0]"
  by (simp add: bb_rep_def BlockBuilder_new_def last_key_def restarts_ok_def entry_off_def)

lemma bb_rep_Reset: "bb_rep (bb_Reset b) [] [0]"
  by (simp add: bb_rep_def bb_Reset_def last_key_def restarts_ok_def entry_off_def)

text \<open>
  Adding an entry appends it, and a new restart point when the interval is used up.  An
  interval of zero would make every entry, the first included, a second restart at 0; the
  source asserts that it is at least one.
\<close>

lemma bb_rep_Add:
  assumes rep: "bb_rep b es ris" and i: "1 \<le> bb_interval b"
  shows "\<exists>e ris'. bb_rep (bb_Add key value b) (es @ [e]) ris' \<and> entry_kv e = (key, value)"
proof -
  define sharing where "sharing = (bb_counter b < bb_interval b)"
  define s where "s = (if sharing then shared_prefix (bb_last_key b) key else 0)"
  define e where "e = Entry s key value"
  define ris' where "ris' = (if sharing then ris else ris @ [length es])"
  have s: "s \<le> length (bb_last_key b)" "s \<le> length key" "take s (bb_last_key b) = take s key"
    using shared_prefix_le [of "bb_last_key b" key] shared_prefix_take [of "bb_last_key b" key] by (simp_all add: s_def)
  have ne: "\<not> sharing \<Longrightarrow> es \<noteq> []" using i rep by (auto simp: sharing_def bb_rep_def)
  have "restarts_ok (es @ [e]) ris'"
  proof (cases sharing)
    case True
    then show ?thesis using rep by (auto simp: ris'_def bb_rep_def restarts_ok_def nth_append)
  next
    case False
    then have "\<forall>i \<in> set ris. i < length es" "e_shared e = 0" using rep ne by (auto simp: bb_rep_def restarts_ok_def e_def s_def)
    then show ?thesis using rep False
      by (auto simp: ris'_def bb_rep_def restarts_ok_def nth_append sorted_wrt_append)
  qed
  moreover have "map (\<lambda>i. of_nat (entry_off (es @ [e]) i)) ris' = (bb_restarts (bb_Add key value b) :: u32 list)"
  proof -
    have "\<forall>i \<in> set ris. i \<le> length es" using rep by (auto simp: bb_rep_def restarts_ok_def)
    then have "map (\<lambda>i. of_nat (entry_off (es @ [e]) i)) ris = map (\<lambda>i. of_nat (entry_off es i) :: u32) ris"
      by (simp add: entry_off_append)
    then show ?thesis using rep
      by (auto simp: ris'_def bb_Add_def Let_def sharing_def bb_rep_def entry_off_append entry_off_all)
  qed
  moreover have "bb_buffer (bb_Add key value b) = entries_bytes (es @ [e])"
    using rep s
    by (simp add: bb_Add_def Let_def bb_rep_def entry_bytes_def e_def s_def sharing_def PutVarint32_def)
  moreover have "bb_last_key (bb_Add key value b) = key"
    using s by (simp add: bb_Add_def Let_def flip: sharing_def s_def)
  moreover have "chain_ok [] (es @ [e])"
    using rep s by (auto simp: chain_ok_append bb_rep_def e_def last_key_def split: if_splits)
  ultimately have "bb_rep (bb_Add key value b) (es @ [e]) ris'" by (simp add: bb_rep_def e_def)
  then show ?thesis by (auto simp: e_def entry_kv_def)
qed

lemma bb_interval_Add [simp]: "bb_interval (bb_Add k v b) = bb_interval b"
  by (simp add: bb_Add_def Let_def)

lemma bb_rep_Adds:
  "bb_rep b es ris \<Longrightarrow> 1 \<le> bb_interval b \<Longrightarrow>
   \<exists>fs ris'. bb_rep (fold (\<lambda>(k, v). bb_Add k v) kvs b) (es @ fs) ris' \<and> map entry_kv fs = kvs"
proof (induction kvs arbitrary: b es ris)
  case Nil
  then show ?case by (auto intro: exI [of _ "[]"])
next
  case (Cons kv kvs)
  obtain k v where kv: "kv = (k, v)" by (cases kv)
  from bb_rep_Add [OF Cons.prems] obtain e r1 where 1: "bb_rep (bb_Add k v b) (es @ [e]) r1" "entry_kv e = (k, v)" by blast
  from Cons.IH [OF 1(1)] Cons.prems(2) obtain fs r2 where
    "bb_rep (fold (\<lambda>(k, v). bb_Add k v) kvs (bb_Add k v b)) ((es @ [e]) @ fs) r2" "map entry_kv fs = kvs" by auto
  then show ?case using 1(2) kv by (auto intro!: exI [of _ "e # fs"])
qed

lemma bb_Finish_bytes:
  "fst (bb_Finish b) = bb_buffer b @ concat (map EncodeFixed32 (bb_restarts b)) @ EncodeFixed32 (of_nat (length (bb_restarts b)))"
  by (simp add: bb_Finish_def Let_def fold_PutFixed32) (simp add: PutFixed32_def)

end
