(* ===== verification/Comparator.thy ===== *)
theory Comparator
  imports Slice_Status
begin

text \<open>
  \<^verbatim>\<open>src/leveldb/util/comparator.cc\<close>.  The locale \<open>key_comparator\<close> is the contract of
  \<^verbatim>\<open>include/leveldb/comparator.h\<close> that the table code relies on: \<open>Compare\<close> is a linear order,
  \<open>FindShortestSeparator\<close> returns a key in \<open>[start, limit)\<close> and \<open>FindShortSuccessor\<close> a key
  that is not smaller.  \<open>valid\<close> says which strings are keys (internal keys carry a tag of
  eight bytes).  The locale is interpreted here on the bytewise comparator and in
  \<^verbatim>\<open>Dbformat\<close> on the internal key comparator.
\<close>

section \<open>The bytewise comparator\<close>

definition bytewise_Compare :: "string \<Rightarrow> string \<Rightarrow> int" where
  "bytewise_Compare a b = Slice_compare a b"

function diff_index_loop :: "string \<Rightarrow> string \<Rightarrow> nat \<Rightarrow> nat \<Rightarrow> nat" where
  "diff_index_loop start limit min_length diff_index =
     (if diff_index < min_length \<and> start ! diff_index = limit ! diff_index
      then diff_index_loop start limit min_length (Suc diff_index)
      else diff_index)"
  by pat_completeness auto
termination
  by (relation "measure (\<lambda>(start, limit, m, d). m - d)") auto

declare diff_index_loop.simps [simp del]

text \<open>\<open>diff_byte + 1\<close> is computed at type \<^verbatim>\<open>int\<close>, so it does not wrap.\<close>

definition bytewise_FindShortestSeparator :: "string \<Rightarrow> string \<Rightarrow> string" where
  "bytewise_FindShortestSeparator start limit =
     (let min_length = min (length start) (length limit);
          diff_index = diff_index_loop start limit min_length 0
      in if min_length \<le> diff_index then start
         else let diff_byte = ord8 (start ! diff_index)
              in if diff_byte < 255 \<and> unat diff_byte + 1 < unat (ord8 (limit ! diff_index))
                 then take (diff_index + 1) (start[diff_index := chr8 (diff_byte + 1)])
                 else start)"

fun short_successor_loop :: "string \<Rightarrow> nat \<Rightarrow> nat \<Rightarrow> string" where
  "short_successor_loop key i 0 = key"
| "short_successor_loop key i (Suc n) =
     (let byte = ord8 (key ! i)
      in if byte \<noteq> 255 then take (i + 1) (key[i := chr8 (byte + 1)])
         else short_successor_loop key (Suc i) n)"

definition bytewise_FindShortSuccessor :: "string \<Rightarrow> string" where
  "bytewise_FindShortSuccessor key = short_successor_loop key 0 (length key)"

section \<open>The contract\<close>

locale key_comparator =
  fixes Compare :: "string \<Rightarrow> string \<Rightarrow> int"
    and FindShortestSeparator :: "string \<Rightarrow> string \<Rightarrow> string"
    and FindShortSuccessor :: "string \<Rightarrow> string"
    and valid :: "string \<Rightarrow> bool"
  assumes cmp_eq: "valid a \<Longrightarrow> valid b \<Longrightarrow> Compare a b = 0 \<longleftrightarrow> a = b"
    and cmp_swap: "valid a \<Longrightarrow> valid b \<Longrightarrow> Compare a b < 0 \<longleftrightarrow> 0 < Compare b a"
    and cmp_trans: "valid a \<Longrightarrow> valid b \<Longrightarrow> valid c \<Longrightarrow> Compare a b < 0 \<Longrightarrow> Compare b c < 0 \<Longrightarrow> Compare a c < 0"
    and sep_valid: "valid s \<Longrightarrow> valid l \<Longrightarrow> valid (FindShortestSeparator s l)"
    and sep_ge: "valid s \<Longrightarrow> valid l \<Longrightarrow> Compare s (FindShortestSeparator s l) \<le> 0"
    and sep_less: "valid s \<Longrightarrow> valid l \<Longrightarrow> Compare s l < 0 \<Longrightarrow> Compare (FindShortestSeparator s l) l < 0"
    and succ_valid: "valid k \<Longrightarrow> valid (FindShortSuccessor k)"
    and succ_ge: "valid k \<Longrightarrow> Compare k (FindShortSuccessor k) \<le> 0"
begin

lemma cmp_total: "valid a \<Longrightarrow> valid b \<Longrightarrow> Compare a b < 0 \<or> a = b \<or> Compare b a < 0"
  using cmp_eq [of a b] cmp_swap [of b a] by linarith

lemma cmp_asym: "valid a \<Longrightarrow> valid b \<Longrightarrow> Compare a b < 0 \<Longrightarrow> \<not> Compare b a < 0"
  using cmp_swap [of a b] by simp

lemma cmp_le_cases: "valid a \<Longrightarrow> valid b \<Longrightarrow> Compare a b \<le> 0 \<longleftrightarrow> Compare a b < 0 \<or> a = b"
  using cmp_eq [of a b] by linarith

lemma cmp_le_less_trans:
  "valid a \<Longrightarrow> valid b \<Longrightarrow> valid c \<Longrightarrow> Compare a b \<le> 0 \<Longrightarrow> Compare b c < 0 \<Longrightarrow> Compare a c < 0"
  using cmp_trans [of a b c] by (auto simp: cmp_le_cases)

lemma cmp_less_le_trans:
  "valid a \<Longrightarrow> valid b \<Longrightarrow> valid c \<Longrightarrow> Compare a b < 0 \<Longrightarrow> Compare b c \<le> 0 \<Longrightarrow> Compare a c < 0"
  using cmp_trans [of a b c] by (auto simp: cmp_le_cases)

lemma cmp_le_trans:
  "valid a \<Longrightarrow> valid b \<Longrightarrow> valid c \<Longrightarrow> Compare a b \<le> 0 \<Longrightarrow> Compare b c \<le> 0 \<Longrightarrow> Compare a c \<le> 0"
  using cmp_trans [of a b c] by (auto simp: cmp_le_cases)

text \<open>
  A separator splits the keys: what precedes \<open>s\<close> is not above it, what follows \<open>l\<close> is
  above it.  This is what lets the index block of a table route a lookup.
\<close>

lemma separator_splits:
  assumes "valid s" "valid l" "valid a" "valid b" "Compare s l < 0" "Compare a s \<le> 0" "Compare l b \<le> 0"
  shows "Compare a (FindShortestSeparator s l) \<le> 0 \<and> Compare (FindShortestSeparator s l) b < 0"
proof
  let ?x = "FindShortestSeparator s l"
  have x: "valid ?x" "Compare s ?x \<le> 0" "Compare ?x l < 0"
    using assms sep_valid sep_ge sep_less by auto
  show "Compare a ?x \<le> 0" using assms x cmp_le_trans [of a s ?x] by simp
  show "Compare ?x b < 0" using assms x cmp_less_le_trans [of ?x l b] by simp
qed

end

section \<open>The bytewise comparator fulfils it\<close>

lemma diff_index_loop_spec:
  assumes "d \<le> m" and "take d s = take d l" and "m \<le> length s" and "m \<le> length l"
  shows "(let i = diff_index_loop s l m d in i \<le> m \<and> take i s = take i l \<and> (i < m \<longrightarrow> s ! i \<noteq> l ! i))"
  using assms
proof (induction s l m d rule: diff_index_loop.induct)
  case (1 s l m d)
  show ?case
  proof (cases "d < m \<and> s ! d = l ! d")
    case True
    then have "take (Suc d) s = take (Suc d) l"
      using "1.prems" by (simp add: take_Suc_conv_app_nth)
    with "1.IH" [OF True] "1.prems" True show ?thesis
      by (simp add: diff_index_loop.simps [of s l m d])
  next
    case False
    then show ?thesis using "1.prems" by (auto simp: diff_index_loop.simps [of s l m d])
  qed
qed

lemma common_prefix_less:
  fixes p :: string
  shows "x < y \<Longrightarrow> p @ x # a < p @ y # b"
  by (induction p) auto

lemma less_common_prefix:
  fixes p :: string
  shows "p @ a < p @ b \<longleftrightarrow> a < b"
  by (induction p) auto

lemma unat_ord8_Suc: "unat (ord8 c) < 255 \<Longrightarrow> unat (ord8 c + 1) = unat (ord8 c) + 1"
  by (simp add: unat_word_ariths)

lemma ord8_below_255: "ord8 c \<noteq> 255 \<Longrightarrow> unat (ord8 c) < 255"
proof -
  assume "ord8 c \<noteq> 255"
  then have "unat (ord8 c) \<noteq> unat (255 :: u8)" by (metis word_unat_eq_iff)
  moreover have "unat (ord8 c) < 256" using of_char_lt_256 [of c] by (simp only: unat_ord8)
  ultimately show ?thesis by simp
qed

lemma increment_char: "ord8 c \<noteq> 255 \<Longrightarrow> c < chr8 (ord8 c + 1)"
  by (simp add: ord8_less_iff [symmetric] word_less_nat_alt unat_ord8_Suc ord8_below_255)

lemma take_update_snoc: "i < length s \<Longrightarrow> take (i + 1) (s[i := c]) = take i s @ [c]"
  by (simp add: take_Suc_conv_app_nth)

lemma split_at: "i < length s \<Longrightarrow> take i s @ s ! i # drop (Suc i) s = s"
  by (rule id_take_nth_drop [symmetric])

lemma bytewise_separator:
  "s \<le> bytewise_FindShortestSeparator s l \<and> (s < l \<longrightarrow> bytewise_FindShortestSeparator s l < l)
   \<and> length (bytewise_FindShortestSeparator s l) \<le> length s"
proof -
  define m where "m = min (length s) (length l)"
  define i where "i = diff_index_loop s l m 0"
  have i: "take i s = take i l"
    using diff_index_loop_spec [of 0 m s l] by (simp add: Let_def i_def m_def)
  note sep_def = bytewise_FindShortestSeparator_def [of s l, folded m_def, unfolded Let_def, folded i_def]
  show ?thesis
  proof (cases "i < m \<and> ord8 (s ! i) < 255 \<and> unat (ord8 (s ! i)) + 1 < unat (ord8 (l ! i))")
    case False
    then have "bytewise_FindShortestSeparator s l = s"
      by (auto simp: sep_def)
    then show ?thesis by simp
  next
    case True
    let ?c = "chr8 (ord8 (s ! i) + 1)"
    have len: "i < length s" "i < length l" using True by (auto simp: m_def)
    have sep: "bytewise_FindShortestSeparator s l = take i s @ [?c]"
      using True by (simp only: sep_def take_update_snoc [OF len(1)]) simp
    have c: "s ! i < ?c" "?c < l ! i"
      using True by (simp_all add: increment_char ord8_less_iff [symmetric] word_less_nat_alt unat_ord8_Suc)
    have "take i s @ s ! i # drop (Suc i) s < take i s @ [?c]"
      using c by (simp add: less_common_prefix)
    then have "s < take i s @ [?c]" unfolding split_at [OF len(1)] .
    moreover have "take i l @ [?c] < take i l @ l ! i # drop (Suc i) l"
      using c by (simp add: less_common_prefix)
    then have "take i s @ [?c] < l" unfolding split_at [OF len(2)] i .
    ultimately show ?thesis using sep len by simp
  qed
qed

lemma short_successor_loop_spec:
  "i + n = length key \<Longrightarrow> key \<le> short_successor_loop key i n \<and> length (short_successor_loop key i n) \<le> length key"
proof (induction key i n rule: short_successor_loop.induct)
  case (2 key i n)
  show ?case
  proof (cases "ord8 (key ! i) = 255")
    case True
    with 2 show ?thesis by simp
  next
    case False
    then have eq: "short_successor_loop key i (Suc n) = take i key @ [chr8 (ord8 (key ! i) + 1)]"
      using "2.prems" by (simp add: take_update_snoc [unfolded Suc_eq_plus1 [symmetric]])
    have "take i key @ key ! i # drop (Suc i) key < take i key @ [chr8 (ord8 (key ! i) + 1)]"
      using increment_char [OF False] by (simp add: less_common_prefix)
    then have "key < take i key @ [chr8 (ord8 (key ! i) + 1)]"
      using "2.prems" by (simp only: split_at)
    with eq "2.prems" show ?thesis by simp
  qed
qed simp

lemma bytewise_successor: "key \<le> bytewise_FindShortSuccessor key \<and> length (bytewise_FindShortSuccessor key) \<le> length key"
  using short_successor_loop_spec [of 0 "length key" key] by (simp add: bytewise_FindShortSuccessor_def)

lemma bytewise_Compare_le: "bytewise_Compare a b \<le> 0 \<longleftrightarrow> a \<le> b"
  using Slice_compare_simps [of a b] by (auto simp: bytewise_Compare_def le_less)

lemma bytewise_Compare_less [simp]: "bytewise_Compare a b < 0 \<longleftrightarrow> a < b"
  using Slice_compare_simps [of a b] by (auto simp: bytewise_Compare_def)

interpretation bytewise: key_comparator bytewise_Compare bytewise_FindShortestSeparator
    bytewise_FindShortSuccessor "\<lambda>_. True"
proof unfold_locales
  show "bytewise_Compare s (bytewise_FindShortestSeparator s l) \<le> 0" for s l
    using bytewise_separator [of s l] by (simp add: bytewise_Compare_le)
  show "bytewise_Compare s l < 0 \<Longrightarrow> bytewise_Compare (bytewise_FindShortestSeparator s l) l < 0" for s l
    using bytewise_separator [of s l] by (simp add: bytewise_Compare_def)
  show "bytewise_Compare k (bytewise_FindShortSuccessor k) \<le> 0" for k
    using bytewise_successor [of k] by (simp add: bytewise_Compare_le)
qed (auto simp: bytewise_Compare_def)

end
