(* ===== verification/Iterators.thy ===== *)
theory Iterators
  imports Prelude
begin

text \<open>
  \<^verbatim>\<open>src/leveldb/include/leveldb/iterator.h\<close>: the contract that the iterators over blocks, tables, memtables and
  their merges share, as a locale.  Each of them is shown to be a position in the list of the pairs
  it iterates over.
\<close>

section \<open>The contract of an iterator\<close>

text \<open>
  \<^verbatim>\<open>include/leveldb/iterator.h\<close>: an iterator is a position in a list of key/value pairs, or
  invalid.  \<open>rel it c\<close> says that \<open>it\<close> is at position \<open>c\<close>.
\<close>

definition next_pos :: "nat \<Rightarrow> nat \<Rightarrow> nat option" where
  "next_pos n i = (if Suc i < n then Some (Suc i) else None)"

definition prev_pos :: "nat \<Rightarrow> nat option" where
  "prev_pos i = (if i = 0 then None else Some (i - 1))"

definition first_pos :: "nat \<Rightarrow> nat option" where
  "first_pos n = (if n = 0 then None else Some 0)"

definition last_pos :: "nat \<Rightarrow> nat option" where
  "last_pos n = (if n = 0 then None else Some (n - 1))"

definition first_ge :: "('k \<Rightarrow> 'k \<Rightarrow> int) \<Rightarrow> 'k list \<Rightarrow> 'k \<Rightarrow> nat option" where
  "first_ge cmp ks t =
     (let m = length (takeWhile (\<lambda>k. cmp k t < 0) ks) in if m < length ks then Some m else None)"

definition sorted_keys :: "('k \<Rightarrow> 'k \<Rightarrow> int) \<Rightarrow> ('k \<Rightarrow> bool) \<Rightarrow> 'k list \<Rightarrow> bool" where
  "sorted_keys cmp valid ks \<longleftrightarrow> list_all valid ks \<and> sorted_wrt (\<lambda>a b. cmp a b < 0) ks"

text \<open>The loop \<^verbatim>\<open>for (; iter->Valid(); iter->Next())\<close>, bounded by the number of steps.\<close>

fun iterate :: "('i \<Rightarrow> bool) \<Rightarrow> ('i \<Rightarrow> 'a) \<Rightarrow> ('i \<Rightarrow> 'i) \<Rightarrow> nat \<Rightarrow> 'i \<Rightarrow> 'a list \<times> 'i" where
  "iterate valid get nxt 0 it = ([], it)"
| "iterate valid get nxt (Suc n) it =
     (if valid it then (case iterate valid get nxt n (nxt it) of (xs, it') \<Rightarrow> (get it # xs, it')) else ([], it))"

lemma first_ge_Some:
  "first_ge cmp ks t = Some n \<longleftrightarrow> n < length ks \<and> (\<forall>k \<in> set (take n ks). cmp k t < 0) \<and> \<not> cmp (ks ! n) t < 0"
proof
  assume "first_ge cmp ks t = Some n"
  then have n: "n = length (takeWhile (\<lambda>k. cmp k t < 0) ks)" "n < length ks" by (auto simp: first_ge_def Let_def split: if_splits)
  have t: "take n ks = takeWhile (\<lambda>k. cmp k t < 0) ks" unfolding n(1) by (rule takeWhile_eq_take [symmetric])
  from n show "n < length ks \<and> (\<forall>k \<in> set (take n ks). cmp k t < 0) \<and> \<not> cmp (ks ! n) t < 0"
    using nth_length_takeWhile [of "\<lambda>k. cmp k t < 0" ks] t by (auto dest: set_takeWhileD)
next
  assume a: "n < length ks \<and> (\<forall>k \<in> set (take n ks). cmp k t < 0) \<and> \<not> cmp (ks ! n) t < 0"
  have "cmp (ks ! i) t < 0" if "i < n" for i
  proof -
    have "ks ! i \<in> set (take n ks)" using that a by (auto simp: in_set_conv_nth intro!: exI [of _ i])
    then show ?thesis using a by blast
  qed
  then have "takeWhile (\<lambda>k. cmp k t < 0) ks = take n ks" using a by (intro takeWhile_eq_take_P_nth) auto
  then show "first_ge cmp ks t = Some n" using a by (simp add: first_ge_def)
qed

lemma first_ge_None: "first_ge cmp ks t = None \<longleftrightarrow> (\<forall>k \<in> set ks. cmp k t < 0)"
proof -
  let ?P = "\<lambda>k. cmp k t < 0"
  have "takeWhile ?P ks = ks" if "length ks \<le> length (takeWhile ?P ks)"
    using that takeWhile_eq_take [of ?P ks] by simp
  then have "length ks \<le> length (takeWhile ?P ks) \<longleftrightarrow> takeWhile ?P ks = ks" by (auto simp del: takeWhile_eq_all_conv)
  then have h: "length ks \<le> length (takeWhile ?P ks) \<longleftrightarrow> (\<forall>k \<in> set ks. ?P k)" by (simp only: takeWhile_eq_all_conv)
  show ?thesis unfolding first_ge_def Let_def h [symmetric] by auto
qed

lemma first_ge_split: "\<forall>k \<in> set A. cmp k t < 0 \<Longrightarrow> \<not> cmp x t < 0 \<Longrightarrow> first_ge cmp (A @ x # C) t = Some (length A)"
  by (simp add: first_ge_Some)

locale kv_iterator =
  fixes Valid :: "'i \<Rightarrow> bool"
    and key_value :: "'i \<Rightarrow> 'k \<times> 'v"
    and SeekToFirst SeekToLast Next Prev :: "'i \<Rightarrow> 'i"
    and rel :: "'i \<Rightarrow> nat option \<Rightarrow> bool"
    and kvs :: "('k \<times> 'v) list"
  assumes rel_Valid: "rel it c \<Longrightarrow> Valid it \<longleftrightarrow> c \<noteq> None"
    and rel_at: "rel it (Some i) \<Longrightarrow> i < length kvs \<and> key_value it = kvs ! i"
    and rel_SeekToFirst: "rel it c \<Longrightarrow> rel (SeekToFirst it) (first_pos (length kvs))"
    and rel_SeekToLast: "rel it c \<Longrightarrow> rel (SeekToLast it) (last_pos (length kvs))"
    and rel_Next: "rel it (Some i) \<Longrightarrow> rel (Next it) (next_pos (length kvs) i)"
    and rel_Prev: "rel it (Some i) \<Longrightarrow> rel (Prev it) (prev_pos i)"
begin

lemma iterate_from:
  "rel it (Some i) \<Longrightarrow> length kvs - i \<le> n \<Longrightarrow>
   \<exists>it'. iterate Valid key_value Next n it = (drop i kvs, it') \<and> rel it' None"
proof (induction n arbitrary: it i)
  case 0
  then show ?case using rel_at [of it i] by auto
next
  case (Suc n)
  have i: "i < length kvs" "key_value it = kvs ! i" "Valid it" using rel_at rel_Valid Suc.prems by auto
  show ?case
  proof (cases "Suc i < length kvs")
    case True
    then have "rel (Next it) (Some (Suc i))" using rel_Next [OF Suc.prems(1)] by (simp add: next_pos_def)
    from Suc.IH [OF this] Suc.prems(2) show ?thesis using i by (auto simp: Cons_nth_drop_Suc split: prod.split)
  next
    case False
    then have r: "rel (Next it) None" and d: "drop i kvs = [kvs ! i]"
      using rel_Next [OF Suc.prems(1)] i by (simp_all add: next_pos_def flip: Cons_nth_drop_Suc)
    have "iterate Valid key_value Next n (Next it) = ([], Next it)" using rel_Valid [OF r] by (cases n) simp_all
    then show ?thesis using i r d by simp
  qed
qed

text \<open>A full scan returns every pair in order and leaves the iterator invalid.\<close>

lemma iterate_all:
  assumes "rel it c" "length kvs \<le> n"
  shows "\<exists>it'. iterate Valid key_value Next n (SeekToFirst it) = (kvs, it') \<and> rel it' None"
proof (cases "kvs = []")
  case True
  have r: "rel (SeekToFirst it) None" using rel_SeekToFirst [OF assms(1)] True by (simp add: first_pos_def)
  have "iterate Valid key_value Next n (SeekToFirst it) = ([], SeekToFirst it)" using rel_Valid [OF r] by (cases n) simp_all
  then show ?thesis using r True by simp
next
  case False
  then have "rel (SeekToFirst it) (Some 0)" using rel_SeekToFirst [OF assms(1)] by (simp add: first_pos_def)
  from iterate_from [OF this, of n] assms(2) show ?thesis by simp
qed

text \<open>\<open>Prev\<close> undoes \<open>Next\<close>.\<close>

lemma Next_Prev: "rel it (Some i) \<Longrightarrow> Valid (Next it) \<Longrightarrow> rel (Prev (Next it)) (Some i)"
  using rel_Next [of it i] rel_Prev [of "Next it" "Suc i"] rel_Valid [of "Next it"]
  by (auto simp: next_pos_def prev_pos_def split: if_splits)

end

end
