(* ===== verification/Block.thy ===== *)
theory Block
  imports Block_Builder Comparator Iterators
begin

text \<open>
  \<^verbatim>\<open>src/leveldb/table/block.cc\<close>: the reader of blocks.  Pointers into the block are offsets; the
  fields that the source keeps in 32 bits and that a malformed block can make wrap
  (\<^verbatim>\<open>restarts_\<close>, \<^verbatim>\<open>NextEntryOffset\<close>, the sum in \<^verbatim>\<open>DecodeEntry\<close>) wrap here as well.  Restart
  indices are natural numbers: \<^verbatim>\<open>left + right + 1\<close> could wrap only for a block of more than
  \<open>2\<^sup>31\<close> restart points, that is of 8 GiB.

  The loops over entries end on every input, malformed blocks included: each entry that is
  parsed ends after it starts and inside the block (\<open>ParseNextKey_progress\<close>).  On a block that
  the builder wrote, the iterator refines a cursor into the list of entries.
\<close>

unbundle bit_operations_syntax

section \<open>Blocks\<close>

record Block =
  blk_data :: string
  blk_size :: nat
  blk_restart_offset :: u32

definition NumRestarts :: "string \<Rightarrow> u32" where
  "NumRestarts d = DecodeFixed32 (drop (length d - 4) d)"

definition Block_new :: "string \<Rightarrow> Block" where
  "Block_new d =
     (if length d < 4 then \<lparr>blk_data = d, blk_size = 0, blk_restart_offset = 0\<rparr>
      else let max_restarts_allowed = (length d - 4) div 4
           in if max_restarts_allowed < unat (NumRestarts d) then \<lparr>blk_data = d, blk_size = 0, blk_restart_offset = 0\<rparr>
              else \<lparr>blk_data = d, blk_size = length d,
                    blk_restart_offset = of_nat (length d - (1 + unat (NumRestarts d)) * 4)\<rparr>)"

definition DecodeEntry :: "string \<Rightarrow> (u32 \<times> u32 \<times> u32 \<times> string) option" where
  "DecodeEntry p =
     (if length p < 3 then None
      else
        let a = ucast (ord8 (p ! 0)); b = ucast (ord8 (p ! 1)); c = ucast (ord8 (p ! 2));
            decoded = (if a OR b OR c < (128 :: u32) then Some (a, b, c, drop 3 p)
                       else
                         case GetVarint32Ptr p of None \<Rightarrow> None
                         | Some (shared, p1) \<Rightarrow>
                             (case GetVarint32Ptr p1 of None \<Rightarrow> None
                              | Some (non_shared, p2) \<Rightarrow>
                                  (case GetVarint32Ptr p2 of None \<Rightarrow> None
                                   | Some (value_length, p3) \<Rightarrow> Some (shared, non_shared, value_length, p3))))
        in case decoded of None \<Rightarrow> None
           | Some (shared, non_shared, value_length, q) \<Rightarrow>
               if of_nat (length q) < non_shared + value_length then None
               else Some (shared, non_shared, value_length, q))"

section \<open>The iterator\<close>

record BlockIter =
  bi_data :: string
  bi_restarts :: u32
  bi_num_restarts :: nat
  bi_current :: nat
  bi_restart_index :: nat
  bi_key :: string
  bi_voff :: nat
  bi_vlen :: nat
  bi_status :: Status

definition NextEntryOffset :: "BlockIter \<Rightarrow> nat" where
  "NextEntryOffset it = (bi_voff it + bi_vlen it) mod 2 ^ 32"

definition GetRestartPoint :: "BlockIter \<Rightarrow> nat \<Rightarrow> nat" where
  "GetRestartPoint it index = unat (DecodeFixed32 (drop (unat (bi_restarts it) + index * 4) (bi_data it)))"

definition SeekToRestartPoint :: "nat \<Rightarrow> BlockIter \<Rightarrow> BlockIter" where
  "SeekToRestartPoint index it =
     it\<lparr>bi_key := [], bi_restart_index := index, bi_voff := GetRestartPoint it index, bi_vlen := 0\<rparr>"

definition Iter_new :: "string \<Rightarrow> u32 \<Rightarrow> nat \<Rightarrow> BlockIter" where
  "Iter_new d restarts num_restarts =
     \<lparr>bi_data = d, bi_restarts = restarts, bi_num_restarts = num_restarts, bi_current = unat restarts,
      bi_restart_index = num_restarts, bi_key = [], bi_voff = 0, bi_vlen = 0, bi_status = OK\<rparr>"

definition Iter_Valid :: "BlockIter \<Rightarrow> bool" where
  "Iter_Valid it \<longleftrightarrow> bi_current it < unat (bi_restarts it)"

definition Iter_value :: "BlockIter \<Rightarrow> string" where
  "Iter_value it = take (bi_vlen it) (drop (bi_voff it) (bi_data it))"

definition CorruptionError :: "BlockIter \<Rightarrow> BlockIter" where
  "CorruptionError it =
     it\<lparr>bi_current := unat (bi_restarts it), bi_restart_index := bi_num_restarts it,
        bi_status := Corruption ''bad entry in block'', bi_key := [], bi_voff := 0, bi_vlen := 0\<rparr>"

text \<open>The bytes from an offset to the restart array.\<close>

definition region :: "BlockIter \<Rightarrow> nat \<Rightarrow> string" where
  "region it off = take (unat (bi_restarts it) - off) (drop off (bi_data it))"

function advance_restart :: "BlockIter \<Rightarrow> nat \<Rightarrow> nat" where
  "advance_restart it ri =
     (if ri + 1 < bi_num_restarts it \<and> GetRestartPoint it (ri + 1) < bi_current it
      then advance_restart it (ri + 1) else ri)"
  by pat_completeness auto
termination
  by (relation "measure (\<lambda>(it, ri). bi_num_restarts it - ri)") auto

declare advance_restart.simps [simp del]

definition ParseNextKey :: "BlockIter \<Rightarrow> bool \<times> BlockIter" where
  "ParseNextKey it0 =
     (let it = it0\<lparr>bi_current := NextEntryOffset it0\<rparr>;
          p = region it (bi_current it)
      in if unat (bi_restarts it) \<le> bi_current it
         then (False, it\<lparr>bi_current := unat (bi_restarts it), bi_restart_index := bi_num_restarts it\<rparr>)
         else
           case DecodeEntry p of
             None \<Rightarrow> (False, CorruptionError it)
           | Some (shared, non_shared, value_length, q) \<Rightarrow>
               if length (bi_key it) < unat shared then (False, CorruptionError it)
               else
                 let off = bi_current it + (length p - length q);
                     it1 = it\<lparr>bi_key := take (unat shared) (bi_key it) @ take (unat non_shared) (drop off (bi_data it)),
                              bi_voff := off + unat non_shared, bi_vlen := unat value_length\<rparr>
                 in (True, it1\<lparr>bi_restart_index := advance_restart it1 (bi_restart_index it1)\<rparr>))"

section \<open>Every parsed entry makes progress\<close>

lemma less_128_or: "a OR b < (128 :: u32) \<longleftrightarrow> a < 128 \<and> b < 128"
proof -
  have h: "x < (128 :: u32) \<longleftrightarrow> drop_bit 7 x = 0" for x
    unfolding unat_eq_0 [symmetric] unat_drop_bit_eq by (simp add: word_less_nat_alt drop_bit_eq_div div_eq_0_iff)
  have "x OR y = 0 \<longleftrightarrow> x = 0 \<and> y = (0 :: u32)" for x y by (auto simp: bit_eq_iff bit_or_iff)
  then show ?thesis by (simp add: h)
qed

lemma GetVarint32Ptr_one_byte: "(ucast (ord8 c) :: u32) < 128 \<Longrightarrow> GetVarint32Ptr (c # p) = Some (ucast (ord8 c), p)"
  by (simp add: GetVarint32Ptr_def final_byte)

text \<open>The fast path for three one-byte lengths returns what the general path returns.\<close>

definition DecodeEntry_general :: "string \<Rightarrow> (u32 \<times> u32 \<times> u32 \<times> string) option" where
  "DecodeEntry_general p =
     (case GetVarint32 p of None \<Rightarrow> None
      | Some (shared, p1) \<Rightarrow>
          (case GetVarint32 p1 of None \<Rightarrow> None
           | Some (non_shared, p2) \<Rightarrow>
               (case GetVarint32 p2 of None \<Rightarrow> None
                | Some (value_length, p3) \<Rightarrow>
                    if of_nat (length p3) < non_shared + value_length then None
                    else Some (shared, non_shared, value_length, p3))))"

lemma DecodeEntry_eq_general: "DecodeEntry p = DecodeEntry_general p"
proof (cases "length p < 3")
  case True
  have "DecodeEntry_general p = None"
    using True by (auto simp: DecodeEntry_general_def dest!: GetVarint32_shorter split: option.split)
  then show ?thesis using True by (simp add: DecodeEntry_def)
next
  case False
  then obtain x y z t where p: "p = x # y # z # t"
    by (metis Suc_le_length_iff not_less numeral_3_eq_3)
  show ?thesis
    by (auto simp: p DecodeEntry_def DecodeEntry_general_def GetVarint32_def Let_def less_128_or
        GetVarint32Ptr_one_byte split: option.split)
qed

lemma DecodeEntry_SomeD:
  assumes "DecodeEntry p = Some (s, n, v, q)"
  shows "length q < length p" "n + v \<le> of_nat (length q)"
  using assms by (auto simp: DecodeEntry_eq_general DecodeEntry_general_def not_less
      split: if_splits option.splits dest!: GetVarint32_shorter)

lemma ParseNextKey_True:
  assumes "ParseNextKey it = (True, it')"
  obtains s n v q where
    "NextEntryOffset it < unat (bi_restarts it)"
    "DecodeEntry (region it (NextEntryOffset it)) = Some (s, n, v, q)" "unat s \<le> length (bi_key it)"
proof -
  have r: "region (it\<lparr>bi_current := NextEntryOffset it\<rparr>) (NextEntryOffset it) = region it (NextEntryOffset it)" by (simp add: region_def)
  have 1: "NextEntryOffset it < unat (bi_restarts it)" using assms by (rule contrapos_pp) (simp add: ParseNextKey_def Let_def)
  moreover obtain d where 2: "DecodeEntry (region it (NextEntryOffset it)) = Some d"
    using assms 1 r by (cases "DecodeEntry (region it (NextEntryOffset it))") (simp_all add: ParseNextKey_def Let_def)
  moreover have "unat (fst d) \<le> length (bi_key it)"
    using assms by (rule contrapos_pp) (use 1 2 r in \<open>simp add: ParseNextKey_def Let_def case_prod_beta\<close>)
  ultimately show ?thesis using that by (metis prod.collapse)
qed

lemma ParseNextKey_decoded:
  assumes "NextEntryOffset it = off" "off < unat (bi_restarts it)" "DecodeEntry (region it off) = Some (s, n, v, q)"
    and "unat s \<le> length (bi_key it)" "length (region it off) - length q = h"
    and "it1 = it\<lparr>bi_current := off, bi_key := take (unat s) (bi_key it) @ take (unat n) (drop (off + h) (bi_data it)),
       bi_voff := off + h + unat n, bi_vlen := unat v\<rparr>"
  shows "ParseNextKey it = (True, it1\<lparr>bi_restart_index := advance_restart it1 (bi_restart_index it1)\<rparr>)"
proof -
  have "region (it\<lparr>bi_current := off\<rparr>) off = region it off" by (simp add: region_def)
  then show ?thesis using assms by (simp add: ParseNextKey_def Let_def)
qed

lemma ParseNextKey_progress:
  assumes "ParseNextKey it = (True, it')"
  shows "NextEntryOffset it < NextEntryOffset it' \<and> NextEntryOffset it' \<le> unat (bi_restarts it) \<and>
         bi_restarts it' = bi_restarts it"
proof -
  let ?o = "NextEntryOffset it"
  from assms obtain s n v q where o: "?o < unat (bi_restarts it)"
    and d: "DecodeEntry (region it ?o) = Some (s, n, v, q)" and k: "unat s \<le> length (bi_key it)"
    by (rule ParseNextKey_True)
  define c where "c = length (region it ?o) - length q"
  have it': "bi_voff it' = ?o + c + unat n" "bi_vlen it' = unat v" "bi_restarts it' = bi_restarts it"
    using assms ParseNextKey_decoded [OF refl o d k c_def [symmetric] refl] by auto
  have r: "length (region it ?o) \<le> unat (bi_restarts it) - ?o" by (simp add: region_def)
  have R: "unat (bi_restarts it) < 2 ^ 32" using unsigned_less [of "bi_restarts it"] by simp
  have q: "length q < length (region it ?o)" and s: "n + v \<le> of_nat (length q)" using DecodeEntry_SomeD [OF d] .
  have c: "0 < c" "?o + c + length q \<le> unat (bi_restarts it)" using q r o unfolding c_def by linarith+
  have "unat (of_nat (length q) :: u32) = length q" using c R by (intro unat_of_nat_u32) linarith
  then have s: "(unat n + unat v) mod 2 ^ 32 \<le> length q" using s by (simp add: word_le_nat_alt unat_word_ariths)
  have "NextEntryOffset it' = (?o + c + (unat n + unat v)) mod 2 ^ 32"
    unfolding NextEntryOffset_def [of it'] it'(1,2) by (simp add: add.assoc)
  also have "\<dots> = (?o + c + (unat n + unat v) mod 2 ^ 32) mod 2 ^ 32" by (simp add: mod_simps)
  also have "\<dots> = ?o + c + (unat n + unat v) mod 2 ^ 32" using c s R by (intro mod_less) linarith
  finally show ?thesis using c s it'(3) by simp
qed

section \<open>Moving the iterator\<close>

function parse_while :: "(BlockIter \<Rightarrow> bool) \<Rightarrow> BlockIter \<Rightarrow> BlockIter" where
  "parse_while P it = (case ParseNextKey it of (ok, it') \<Rightarrow> if ok \<and> P it' then parse_while P it' else it')"
  by pat_completeness auto
termination
  by (relation "measure (\<lambda>(P, it). unat (bi_restarts it) - NextEntryOffset it)") (auto dest!: sym [of "(_, _)"] ParseNextKey_progress)

declare parse_while.simps [simp del]

definition Iter_Next :: "BlockIter \<Rightarrow> BlockIter" where
  "Iter_Next it = snd (ParseNextKey it)"

fun prev_restart :: "BlockIter \<Rightarrow> nat \<Rightarrow> nat \<Rightarrow> nat option" where
  "prev_restart it original 0 = (if original \<le> GetRestartPoint it 0 then None else Some 0)"
| "prev_restart it original (Suc ri) =
     (if original \<le> GetRestartPoint it (Suc ri) then prev_restart it original ri else Some (Suc ri))"

definition Iter_Prev :: "BlockIter \<Rightarrow> BlockIter" where
  "Iter_Prev it =
     (let original = bi_current it
      in case prev_restart it original (bi_restart_index it) of
           None \<Rightarrow> it\<lparr>bi_current := unat (bi_restarts it), bi_restart_index := bi_num_restarts it\<rparr>
         | Some ri \<Rightarrow> parse_while (\<lambda>it'. NextEntryOffset it' < original) (SeekToRestartPoint ri it))"

function seek_binary :: "(string \<Rightarrow> string \<Rightarrow> int) \<Rightarrow> string \<Rightarrow> BlockIter \<Rightarrow> nat \<Rightarrow> nat \<Rightarrow> nat option" where
  "seek_binary cmp target it left right =
     (if left < right then
        let mid = (left + right + 1) div 2
        in case DecodeEntry (region it (GetRestartPoint it mid)) of
             None \<Rightarrow> None
           | Some (shared, non_shared, value_length, q) \<Rightarrow>
               if shared \<noteq> 0 then None
               else if cmp (take (unat non_shared) q) target < 0 then seek_binary cmp target it mid right
               else seek_binary cmp target it left (mid - 1)
      else Some left)"
  by pat_completeness auto
termination
  by (relation "measure (\<lambda>(cmp, target, it, left, right). right - left)") auto

declare seek_binary.simps [simp del]

definition Iter_Seek :: "(string \<Rightarrow> string \<Rightarrow> int) \<Rightarrow> string \<Rightarrow> BlockIter \<Rightarrow> BlockIter" where
  "Iter_Seek cmp target it =
     (let c = (if Iter_Valid it then cmp (bi_key it) target else 0);
          left = (if Iter_Valid it \<and> c < 0 then bi_restart_index it else 0);
          right = (if Iter_Valid it \<and> 0 < c then bi_restart_index it else bi_num_restarts it - 1)
      in if Iter_Valid it \<and> c = 0 then it
         else case seek_binary cmp target it left right of
                None \<Rightarrow> CorruptionError it
              | Some left' \<Rightarrow>
                  let skip_seek = (left' = bi_restart_index it \<and> c < 0)
                  in parse_while (\<lambda>it'. cmp (bi_key it') target < 0) (if skip_seek then it else SeekToRestartPoint left' it))"

definition Iter_SeekToFirst :: "BlockIter \<Rightarrow> BlockIter" where
  "Iter_SeekToFirst it = snd (ParseNextKey (SeekToRestartPoint 0 it))"

definition Iter_SeekToLast :: "BlockIter \<Rightarrow> BlockIter" where
  "Iter_SeekToLast it =
     parse_while (\<lambda>it'. NextEntryOffset it' < unat (bi_restarts it')) (SeekToRestartPoint (bi_num_restarts it - 1) it)"

section \<open>Iterators that a block returns\<close>

text \<open>\<^verbatim>\<open>EmptyIterator\<close> of \<^verbatim>\<open>table/iterator.cc\<close> carries a status; its moves do nothing.\<close>

datatype Iterator = EmptyIterator Status | BlockIterator BlockIter

definition Block_NewIterator :: "Block \<Rightarrow> Iterator" where
  "Block_NewIterator b =
     (if blk_size b < 4 then EmptyIterator (Corruption ''bad block contents'')
      else let num_restarts = unat (NumRestarts (blk_data b))
           in if num_restarts = 0 then EmptyIterator OK
              else BlockIterator (Iter_new (blk_data b) (blk_restart_offset b) num_restarts))"

fun it_Valid :: "Iterator \<Rightarrow> bool" where
  "it_Valid (EmptyIterator s) = False"
| "it_Valid (BlockIterator it) = Iter_Valid it"

fun it_status :: "Iterator \<Rightarrow> Status" where
  "it_status (EmptyIterator s) = s"
| "it_status (BlockIterator it) = bi_status it"

fun it_key :: "Iterator \<Rightarrow> string" where
  "it_key (EmptyIterator s) = []"
| "it_key (BlockIterator it) = bi_key it"

fun it_value :: "Iterator \<Rightarrow> string" where
  "it_value (EmptyIterator s) = []"
| "it_value (BlockIterator it) = Iter_value it"

fun it_move :: "(BlockIter \<Rightarrow> BlockIter) \<Rightarrow> Iterator \<Rightarrow> Iterator" where
  "it_move f (EmptyIterator s) = EmptyIterator s"
| "it_move f (BlockIterator it) = BlockIterator (f it)"

section \<open>Decoding what the builder wrote\<close>

lemma DecodeEntry_entry_bytes:
  assumes "e_shared e < 2 ^ 32" and "length (entry_bytes e @ t) < 2 ^ 32"
  shows "DecodeEntry (entry_bytes e @ t) =
    Some (of_nat (e_shared e), of_nat (length (e_key e) - e_shared e), of_nat (length (e_value e)),
          drop (e_shared e) (e_key e) @ e_value e @ t)"
proof -
  let ?n = "length (e_key e) - e_shared e" and ?v = "length (e_value e)"
  have b: "?n + ?v + length t < 2 ^ 32" using assms(2) by (simp add: entry_bytes_def)
  have "\<not> (of_nat (?n + (?v + length t)) :: u32) < of_nat (?n + ?v)"
    using b unat_of_nat_u32 [of "?n + (?v + length t)"] unat_of_nat_u32 [of "?n + ?v"] by (simp add: word_less_nat_alt)
  then show ?thesis by (simp add: DecodeEntry_eq_general DecodeEntry_general_def entry_bytes_def)
qed

lemma chain_ok_key_length:
  "chain_ok prev es \<Longrightarrow> e \<in> set es \<Longrightarrow> length (e_key e) \<le> length prev + length (entries_bytes es)"
proof (induction es arbitrary: prev)
  case (Cons f es)
  have "length (e_key f) \<le> length prev + length (entry_bytes f)" using Cons.prems by (auto simp: entry_bytes_def)
  then show ?case using Cons.IH [of "e_key f"] Cons.prems by auto
qed simp

lemma entry_off_Suc: "i < length es \<Longrightarrow> entry_off es (Suc i) = entry_off es i + length (entry_bytes (es ! i))"
  by (simp add: entry_off_def take_Suc_conv_app_nth)

lemma entry_off_0 [simp]: "entry_off es 0 = 0"
  by (simp add: entry_off_def)

lemma entry_off_mono: "i \<le> j \<Longrightarrow> entry_off es i \<le> entry_off es j"
  by (metis entry_off_def le_Suc_ex take_add entries_bytes_simps(3) length_append le_add1)

lemma entry_off_less: "i < j \<Longrightarrow> j \<le> length es \<Longrightarrow> entry_off es i < entry_off es j"
  using entry_off_Suc [of i es] entry_off_mono [of "Suc i" j es] entry_bytes_nonempty [of "es ! i"]
  by (simp add: Suc_le_eq flip: length_greater_0_conv)

lemma entry_off_less_iff: "i \<le> length es \<Longrightarrow> j \<le> length es \<Longrightarrow> entry_off es i < entry_off es j \<longleftrightarrow> i < j"
  by (metis entry_off_less entry_off_mono not_less)

lemma entry_off_le: "entry_off es i \<le> length (entries_bytes es)"
  by (metis append_take_drop_id entries_bytes_simps(3) entry_off_def le_add1 length_append)

lemma entries_split: "i < length es \<Longrightarrow> entries_bytes es = entries_bytes (take i es) @ entry_bytes (es ! i) @ entries_bytes (drop (Suc i) es)"
  by (metis id_take_nth_drop entries_bytes_simps(2,3))

lemma chain_ok_nth:
  "chain_ok prev es \<Longrightarrow> i < length es \<Longrightarrow>
   e_shared (es ! i) \<le> length (if i = 0 then prev else e_key (es ! (i - 1))) \<and> e_shared (es ! i) \<le> length (e_key (es ! i)) \<and>
   take (e_shared (es ! i)) (if i = 0 then prev else e_key (es ! (i - 1))) = take (e_shared (es ! i)) (e_key (es ! i))"
proof (induction es arbitrary: prev i)
  case (Cons e es)
  show ?case
  proof (cases i)
    case 0
    then show ?thesis using Cons.prems by simp
  next
    case (Suc k)
    then show ?thesis using Cons.IH [of "e_key e" k] Cons.prems by (cases k) auto
  qed
qed simp

section \<open>The iterator refines a cursor\<close>

definition restart_bytes :: "entry list \<Rightarrow> nat list \<Rightarrow> string" where
  "restart_bytes es ris =
     concat (map EncodeFixed32 (map (\<lambda>i. of_nat (entry_off es i)) ris)) @ EncodeFixed32 (of_nat (length ris))"

definition built :: "entry list \<Rightarrow> nat list \<Rightarrow> BlockIter \<Rightarrow> bool" where
  "built es ris it \<longleftrightarrow>
     chain_ok [] es \<and> restarts_ok es ris \<and>
     bi_data it = entries_bytes es @ restart_bytes es ris \<and>
     length (entries_bytes es) + length (restart_bytes es ris) < 2 ^ 32 \<and> unat (bi_restarts it) = length (entries_bytes es) \<and>
     bi_num_restarts it = length ris \<and> bi_status it = OK"

definition at_entry :: "entry list \<Rightarrow> nat list \<Rightarrow> BlockIter \<Rightarrow> nat \<Rightarrow> bool" where
  "at_entry es ris it i \<longleftrightarrow>
     i < length es \<and> bi_current it = entry_off es i \<and> bi_key it = e_key (es ! i) \<and> Iter_value it = e_value (es ! i) \<and>
     bi_voff it + bi_vlen it = entry_off es (Suc i) \<and> bi_restart_index it < length ris \<and> ris ! bi_restart_index it \<le> i"

definition ready :: "entry list \<Rightarrow> nat list \<Rightarrow> BlockIter \<Rightarrow> nat \<Rightarrow> bool" where
  "ready es ris it i \<longleftrightarrow>
     i \<le> length es \<and> bi_voff it + bi_vlen it = entry_off es i \<and>
     (i < length es \<longrightarrow> e_shared (es ! i) \<le> length (bi_key it) \<and>
        take (e_shared (es ! i)) (bi_key it) = take (e_shared (es ! i)) (e_key (es ! i))) \<and>
     bi_restart_index it < length ris \<and> ris ! bi_restart_index it \<le> i"

fun cursor :: "entry list \<Rightarrow> nat list \<Rightarrow> BlockIter \<Rightarrow> nat option \<Rightarrow> bool" where
  "cursor es ris it None \<longleftrightarrow> built es ris it \<and> bi_current it = unat (bi_restarts it)"
| "cursor es ris it (Some i) \<longleftrightarrow> built es ris it \<and> at_entry es ris it i"

lemma ris_le: "restarts_ok es ris \<Longrightarrow> j < length ris \<Longrightarrow> ris ! j = 0 \<or> ris ! j < length es"
  by (auto simp: restarts_ok_def)

lemma built_GetRestartPoint:
  assumes "built es ris it" "j < length ris"
  shows "GetRestartPoint it j = entry_off es (ris ! j)"
proof -
  have "drop (unat (bi_restarts it) + j * 4) (bi_data it) =
     EncodeFixed32 (of_nat (entry_off es (ris ! j))) @ concat (map EncodeFixed32 (drop (Suc j) (map (\<lambda>i. of_nat (entry_off es i)) ris))) @
     EncodeFixed32 (of_nat (length ris))"
    using assms drop_fixed32s [of j "map (\<lambda>i. of_nat (entry_off es i)) ris"] by (simp add: built_def restart_bytes_def)
  then have "GetRestartPoint it j = unat (of_nat (entry_off es (ris ! j)) :: u32)" by (simp add: GetRestartPoint_def)
  also have "\<dots> = entry_off es (ris ! j)"
    using assms(1) entry_off_le [of es "ris ! j"] by (intro unat_of_nat_u32) (auto simp: built_def)
  finally show ?thesis .
qed

lemma advance_restart_built:
  "built es ris it \<Longrightarrow> bi_current it = entry_off es i \<Longrightarrow> i < length es \<Longrightarrow> ri < length ris \<Longrightarrow> ris ! ri \<le> i \<Longrightarrow>
   advance_restart it ri < length ris \<and> ris ! advance_restart it ri \<le> i"
proof (induction it ri rule: advance_restart.induct)
  case (1 it ri)
  show ?case
  proof (cases "ri + 1 < bi_num_restarts it \<and> GetRestartPoint it (ri + 1) < bi_current it")
    case True
    then have n: "ri + 1 < length ris" using 1(2) by (simp add: built_def)
    then have "entry_off es (ris ! (ri + 1)) < entry_off es i"
      using True 1(2,3) built_GetRestartPoint [of es ris it "ri + 1"] by simp
    then have "ris ! (ri + 1) < i" using entry_off_mono [of i "ris ! (ri + 1)" es] by linarith
    then show ?thesis using 1(1) [OF True 1(2-4) n] True by (simp add: advance_restart.simps [of it ri])
  next
    case False
    then have "advance_restart it ri = ri" unfolding advance_restart.simps [of it ri] by (rule if_not_P)
    then show ?thesis using "1.prems" by simp
  qed
qed

lemma built_update:
  "built es ris it \<Longrightarrow> bi_data it' = bi_data it \<Longrightarrow> bi_restarts it' = bi_restarts it \<Longrightarrow>
   bi_num_restarts it' = bi_num_restarts it \<Longrightarrow> bi_status it' = bi_status it \<Longrightarrow> built es ris it'"
  by (simp add: built_def)

lemma ready_NextEntryOffset:
  assumes "built es ris it" "ready es ris it i"
  shows "NextEntryOffset it = entry_off es i"
proof -
  have "entry_off es i < 2 ^ 32" using assms(1) entry_off_le [of es i] by (auto simp: built_def)
  then show ?thesis using assms(2) by (simp add: NextEntryOffset_def ready_def)
qed

lemma built_drop:
  assumes "built es ris it" "i < length es"
  shows "drop (entry_off es i) (bi_data it) = entry_bytes (es ! i) @ entries_bytes (drop (Suc i) es) @ restart_bytes es ris"
proof -
  have "bi_data it = entries_bytes es @ restart_bytes es ris" using assms(1) by (simp add: built_def)
  then show ?thesis by (simp only: entries_split [OF assms(2)]) (simp add: entry_off_def)
qed

lemma built_region:
  assumes "built es ris it" "i < length es"
  shows "region it (entry_off es i) = entry_bytes (es ! i) @ entries_bytes (drop (Suc i) es)"
proof -
  have l: "length (entries_bytes (take i es)) = entry_off es i" by (simp add: entry_off_def)
  have "unat (bi_restarts it) - entry_off es i = length (entry_bytes (es ! i) @ entries_bytes (drop (Suc i) es))"
    using assms entries_split [OF assms(2)] l by (simp add: built_def)
  moreover have "drop (entry_off es i) (bi_data it) = (entry_bytes (es ! i) @ entries_bytes (drop (Suc i) es)) @
     restart_bytes es ris"
    using built_drop [OF assms] by simp
  ultimately show ?thesis by (simp only: region_def take_append) simp
qed

lemma parse_ready:
  assumes b: "built es ris it" and r: "ready es ris it i" and i: "i < length es"
  shows "\<exists>it'. ParseNextKey it = (True, it') \<and> built es ris it' \<and> at_entry es ris it' i"
proof -
  let ?e = "es ! i" and ?t = "entries_bytes (drop (Suc i) es)" and ?o = "entry_off es i"
  let ?q = "drop (e_shared ?e) (e_key ?e) @ e_value ?e @ ?t"
  define h where "h = length (entry_bytes ?e @ ?t) - length ?q"
  have n: "NextEntryOffset it = ?o" by (rule ready_NextEntryOffset [OF b r])
  have lt: "?o < unat (bi_restarts it)"
    using b i entry_off_less [of i "length es" es] by (simp add: built_def entry_off_all)
  have sh: "e_shared ?e \<le> length (bi_key it)" "take (e_shared ?e) (bi_key it) = take (e_shared ?e) (e_key ?e)"
    using r i by (simp_all add: ready_def)
  have sk: "e_shared ?e \<le> length (e_key ?e)" using b chain_ok_nth [of "[]" es i] i by (simp add: built_def)
  have len: "length (entry_bytes ?e @ ?t) < 2 ^ 32"
    using b entries_split [OF i] by (simp add: built_def)
  have kl: "length (e_key ?e) < 2 ^ 32"
    using b chain_ok_key_length [of "[]" es ?e] i by (simp add: built_def)
  have w: "unat (of_nat (e_shared ?e) :: u32) = e_shared ?e"
     "unat (of_nat (length (e_key ?e) - e_shared ?e) :: u32) = length (e_key ?e) - e_shared ?e"
     "unat (of_nat (length (e_value ?e)) :: u32) = length (e_value ?e)"
    by (rule unat_of_nat_u32, use sk kl len in \<open>simp add: entry_bytes_def\<close>)+
  have d: "DecodeEntry (region it ?o) = Some (of_nat (e_shared ?e), of_nat (length (e_key ?e) - e_shared ?e), of_nat (length (e_value ?e)), ?q)"
    unfolding built_region [OF b i] by (rule DecodeEntry_entry_bytes [OF _ len]) (use sk kl in simp)
  have reg: "length (region it ?o) - length ?q = h" by (simp only: built_region [OF b i] h_def)
  have "drop ?o (bi_data it) = entry_bytes ?e @ ?t @ restart_bytes es ris"
    by (rule built_drop [OF b i])
  then have dd: "drop (?o + h) (bi_data it) = drop (e_shared ?e) (e_key ?e) @ e_value ?e @ ?t @ restart_bytes es ris"
    unfolding add.commute [of ?o h] drop_drop [symmetric] by (simp add: h_def entry_bytes_def)
  define it1 where "it1 = it\<lparr>bi_current := ?o, bi_key := e_key ?e,
      bi_voff := ?o + h + (length (e_key ?e) - e_shared ?e), bi_vlen := length (e_value ?e)\<rparr>"
  define it2 where "it2 = it1\<lparr>bi_restart_index := advance_restart it1 (bi_restart_index it1)\<rparr>"
  have p: "ParseNextKey it = (True, it2)"
    unfolding it2_def by (rule ParseNextKey_decoded [OF n lt d _ reg]) (simp_all add: w sh dd it1_def)
  have b1: "built es ris it1" "built es ris it2" by (rule built_update [OF b]; simp add: it1_def it2_def)+
  have ri: "advance_restart it1 (bi_restart_index it1) < length ris \<and> ris ! advance_restart it1 (bi_restart_index it1) \<le> i"
    using r by (intro advance_restart_built [OF b1(1) _ i]) (simp_all add: it1_def ready_def)
  have "drop (length (e_key ?e) - e_shared ?e) (drop (?o + h) (bi_data it)) = e_value ?e @ ?t @ restart_bytes es ris"
    unfolding dd by simp
  then have "Iter_value it2 = e_value ?e" by (simp add: it2_def it1_def Iter_value_def add.commute)
  moreover have "bi_voff it2 + bi_vlen it2 = entry_off es (Suc i)"
    using i by (simp add: it2_def it1_def entry_off_Suc h_def entry_bytes_def)
  ultimately have "at_entry es ris it2 i" using ri i by (simp add: at_entry_def it2_def it1_def)
  then show ?thesis using p b1(2) by blast
qed

lemma parse_end:
  assumes b: "built es ris it" and r: "ready es ris it (length es)"
  shows "\<exists>it'. ParseNextKey it = (False, it') \<and> cursor es ris it' None"
proof -
  have "NextEntryOffset it = unat (bi_restarts it)"
    using ready_NextEntryOffset [OF b r] b by (simp add: built_def entry_off_all)
  then show ?thesis using b by (auto simp: ParseNextKey_def Let_def intro: built_update [OF b])
qed

lemma at_ready:
  assumes "built es ris it" "at_entry es ris it i"
  shows "ready es ris it (Suc i)"
  using assms chain_ok_nth [of "[]" es "Suc i"] by (auto simp: at_entry_def ready_def built_def)

lemma restart_ready:
  assumes b: "built es ris it" and j: "j < length ris"
  shows "built es ris (SeekToRestartPoint j it)" "ready es ris (SeekToRestartPoint j it) (ris ! j)"
proof -
  show "built es ris (SeekToRestartPoint j it)" by (rule built_update [OF b]) (simp_all add: SeekToRestartPoint_def)
  have c: "chain_ok [] es" and o: "restarts_ok es ris" using b by (auto simp: built_def)
  have "e_shared (es ! (ris ! j)) = 0" if "ris ! j < length es"
    using that o chain_ok_nth [OF c, of 0] nth_mem [OF j] by (cases "ris ! j = 0") (auto simp: restarts_ok_def simp del: nth_mem)
  moreover have "ris ! j \<le> length es" using ris_le [OF o j] by auto
  ultimately show "ready es ris (SeekToRestartPoint j it) (ris ! j)"
    using j built_GetRestartPoint [OF b j] by (simp add: ready_def SeekToRestartPoint_def)
qed

text \<open>
  Scanning while a predicate holds stops at the first entry that does not fulfil it.  \<open>P\<close> is
  given by what it says of the entry that the iterator is at.
\<close>

lemma parse_while_find:
  assumes "built es ris it" "ready es ris it i" "i \<le> length es"
    and "\<And>it' k. built es ris it' \<Longrightarrow> at_entry es ris it' k \<Longrightarrow> P it' \<longleftrightarrow> Q k"
    and "i \<le> m" "m \<le> length es" "\<And>k. i \<le> k \<Longrightarrow> k < m \<Longrightarrow> Q k" "m < length es \<Longrightarrow> \<not> Q m"
  shows "cursor es ris (parse_while P it) (if m < length es then Some m else None)"
  using assms
proof (induction "length es - i" arbitrary: it i rule: less_induct)
  case less
  show ?case
  proof (cases "i < length es")
    case True
    then obtain it' where it': "ParseNextKey it = (True, it')" "built es ris it'" "at_entry es ris it' i"
      using parse_ready less.prems by blast
    have P: "P it' \<longleftrightarrow> Q i" using less.prems(4) it' by blast
    show ?thesis
    proof (cases "i = m")
      case i: True
      then show ?thesis using it' P less.prems(8) True by (simp add: parse_while.simps [of P it])
    next
      case False
      then have "i < m" "Q i" using less.prems(5,7) by auto
      then have "parse_while P it = parse_while P it'" using it' P by (simp add: parse_while.simps [of P it])
      moreover have "cursor es ris (parse_while P it') (if m < length es then Some m else None)"
        by (rule less.hyps [of "Suc i"]) (use True \<open>i < m\<close> less.prems at_ready [OF it'(2,3)] it' in \<open>auto\<close>)
      ultimately show ?thesis by simp
    qed
  next
    case False
    then have "i = length es" "m = length es" using less.prems by auto
    then show ?thesis using parse_end [of es ris it] less.prems by (auto simp: parse_while.simps [of P it])
  qed
qed

section \<open>The block iterator fulfils it\<close>

lemma cursor_built: "cursor es ris it c \<Longrightarrow> built es ris it"
  by (cases c) auto

lemma built_ris: "built es ris it \<Longrightarrow> 0 < length ris \<and> ris ! 0 = 0"
  by (auto simp: built_def restarts_ok_def)

lemma cursor_Valid: "cursor es ris it c \<Longrightarrow> Iter_Valid it \<longleftrightarrow> c \<noteq> None"
  using entry_off_less [of _ "length es" es] by (cases c) (auto simp: Iter_Valid_def at_entry_def built_def entry_off_all)

lemma parse_cursor:
  assumes "built es ris it" "ready es ris it i"
  shows "cursor es ris (snd (ParseNextKey it)) (if i < length es then Some i else None)"
proof (cases "i < length es")
  case True
  then show ?thesis using parse_ready [OF assms] by auto
next
  case False
  then have "i = length es" using assms(2) by (simp add: ready_def)
  then show ?thesis using parse_end [of es ris it] assms by auto
qed

lemma cursor_SeekToFirst: "cursor es ris it c \<Longrightarrow> cursor es ris (Iter_SeekToFirst it) (first_pos (length es))"
  using restart_ready [OF cursor_built, of es ris it c 0] built_ris [OF cursor_built]
    parse_cursor [of es ris "SeekToRestartPoint 0 it" 0]
  by (auto simp: Iter_SeekToFirst_def first_pos_def)

lemma cursor_Next: "cursor es ris it (Some i) \<Longrightarrow> cursor es ris (Iter_Next it) (next_pos (length es) i)"
  using parse_cursor [of es ris it "Suc i"] at_ready [of es ris it i] by (simp add: Iter_Next_def next_pos_def)

lemma at_NextEntryOffset: "built es ris it \<Longrightarrow> at_entry es ris it k \<Longrightarrow> NextEntryOffset it = entry_off es (Suc k)"
  by (rule ready_NextEntryOffset [OF _ at_ready])

lemma cursor_SeekToLast:
  assumes "cursor es ris it c"
  shows "cursor es ris (Iter_SeekToLast it) (last_pos (length es))"
proof -
  have b: "built es ris it" by (rule cursor_built [OF assms])
  let ?j = "length ris - 1"
  have j: "?j < length ris" using built_ris [OF b] by simp
  note r = restart_ready [OF b j]
  have n: "bi_num_restarts it = length ris" using b by (simp add: built_def)
  have le: "ris ! ?j = 0 \<or> ris ! ?j < length es" using ris_le [OF _ j] b by (simp add: built_def)
  have "cursor es ris (parse_while (\<lambda>it'. NextEntryOffset it' < unat (bi_restarts it')) (SeekToRestartPoint ?j it))
      (if length es - 1 < length es then Some (length es - 1) else None)"
  proof (rule parse_while_find [OF r, where Q = "\<lambda>k. Suc k < length es"])
    fix it' k assume k: "built es ris it'" "at_entry es ris it' k"
    then have "Suc k \<le> length es" "unat (bi_restarts it') = entry_off es (length es)" by (simp_all add: at_entry_def built_def entry_off_all)
    then show "NextEntryOffset it' < unat (bi_restarts it') \<longleftrightarrow> Suc k < length es"
      using at_NextEntryOffset [OF k] entry_off_less_iff [of "Suc k" es "length es"] by simp
  qed (use le in auto)
  then show ?thesis by (simp add: Iter_SeekToLast_def n last_pos_def) (cases es; simp)
qed

lemma prev_restart_built:
  assumes b: "built es ris it" and i: "i < length es"
  shows "ri < length ris \<Longrightarrow> ris ! ri \<le> i \<Longrightarrow>
    (if i = 0 then prev_restart it (entry_off es i) ri = None
     else \<exists>r. prev_restart it (entry_off es i) ri = Some r \<and> r < length ris \<and> ris ! r < i)"
proof (induction ri)
  case 0
  then show ?case using built_GetRestartPoint [OF b, of 0] built_ris [OF b] entry_off_less [of 0 i es] i by (cases "i = 0") auto
next
  case (Suc ri)
  have s: "ris ! ri < ris ! Suc ri"
    using b Suc.prems sorted_wrt_nth_less [of "(<)" ris ri "Suc ri"] by (simp add: built_def restarts_ok_def)
  have g: "GetRestartPoint it (Suc ri) = entry_off es (ris ! Suc ri)" by (rule built_GetRestartPoint [OF b Suc.prems(1)])
  have "entry_off es i \<le> GetRestartPoint it (Suc ri) \<longleftrightarrow> i = ris ! Suc ri"
    using Suc.prems(2) i entry_off_less_iff [of "ris ! Suc ri" es i] by (auto simp: g not_less)
  then show ?case using Suc s by auto
qed

lemma cursor_Prev:
  assumes "cursor es ris it (Some i)"
  shows "cursor es ris (Iter_Prev it) (prev_pos i)"
proof -
  have b: "built es ris it" and a: "at_entry es ris it i" using assms by auto
  then have i: "i < length es" and c: "bi_current it = entry_off es i"
    and ri: "bi_restart_index it < length ris" "ris ! bi_restart_index it \<le> i" by (auto simp: at_entry_def)
  note p = prev_restart_built [OF b i ri]
  show ?thesis
  proof (cases "i = 0")
    case True
    then show ?thesis using p c by (auto simp: Iter_Prev_def prev_pos_def intro: built_update [OF b])
  next
    case False
    then obtain r where r: "prev_restart it (entry_off es i) (bi_restart_index it) = Some r" "r < length ris" "ris ! r < i"
      using p by auto
    have "cursor es ris (parse_while (\<lambda>it'. NextEntryOffset it' < entry_off es i) (SeekToRestartPoint r it))
      (if i - 1 < length es then Some (i - 1) else None)"
    proof (rule parse_while_find [OF restart_ready [OF b r(2)], where Q = "\<lambda>k. Suc k < i"])
      fix it' k assume k: "built es ris it'" "at_entry es ris it' k"
      then have "Suc k \<le> length es" by (simp add: at_entry_def)
      then show "NextEntryOffset it' < entry_off es i \<longleftrightarrow> Suc k < i"
        using at_NextEntryOffset [OF k] entry_off_less_iff [of "Suc k" es i] i by simp
    qed (use r i in auto)
    moreover have "i - 1 < length es" using i by simp
    ultimately show ?thesis using False r c by (simp add: Iter_Prev_def prev_pos_def)
  qed
qed

definition Iter_kv :: "BlockIter \<Rightarrow> string \<times> string" where
  "Iter_kv it = (bi_key it, Iter_value it)"

interpretation bi: kv_iterator Iter_Valid Iter_kv Iter_SeekToFirst Iter_SeekToLast Iter_Next Iter_Prev
  "cursor es ris" "map entry_kv es" for es ris
  by unfold_locales
    (auto simp: cursor_Valid cursor_SeekToFirst cursor_SeekToLast cursor_Next cursor_Prev Iter_kv_def entry_kv_def at_entry_def)

section \<open>Seeking\<close>

context key_comparator
begin

lemma sorted_less_before:
  assumes "sorted_keys Compare valid ks" "valid t" "j < length ks" "Compare (ks ! j) t \<le> 0" "i < j"
  shows "Compare (ks ! i) t < 0"
proof -
  have "Compare (ks ! i) (ks ! j) < 0" "valid (ks ! i)" "valid (ks ! j)"
    using assms sorted_wrt_nth_less [of "\<lambda>a b. Compare a b < 0" ks i j] by (auto simp: sorted_keys_def list_all_length)
  then show ?thesis using cmp_less_le_trans [of "ks ! i" "ks ! j" t] assms by simp
qed

lemma seek_binary_built:
  assumes b: "built es ris it" and sorted: "sorted_keys Compare valid (map e_key es)" and t: "valid t"
  shows "left < length ris \<Longrightarrow> right < length ris \<Longrightarrow> (\<forall>k < ris ! left. Compare (e_key (es ! k)) t < 0) \<Longrightarrow>
   \<exists>l. seek_binary Compare t it left right = Some l \<and> l < length ris \<and> (\<forall>k < ris ! l. Compare (e_key (es ! k)) t < 0)"
proof (induction "right - left" arbitrary: left right rule: less_induct)
  case less
  show ?case
  proof (cases "left < right")
    case True
    define mid where "mid = (left + right + 1) div 2"
    have m: "mid < length ris" "0 < mid" "left < mid" "mid \<le> right" using True less.prems(2) by (auto simp: mid_def)
    have pos: "ris ! 0 < ris ! mid" using b m sorted_wrt_nth_less [of "(<)" ris 0 mid] by (simp add: built_def restarts_ok_def)
    then have e: "ris ! mid < length es" using ris_le [OF _ m(1)] b by (auto simp: built_def)
    let ?e = "es ! (ris ! mid)" and ?t = "entries_bytes (drop (Suc (ris ! mid)) es)"
    have s0: "e_shared ?e = 0" using b nth_mem [OF m(1)] pos by (auto simp: built_def restarts_ok_def simp del: nth_mem)
    have len: "length (entry_bytes ?e @ ?t) < 2 ^ 32" using b entries_split [OF e] by (simp add: built_def)
    have d: "DecodeEntry (region it (GetRestartPoint it mid)) =
        Some (0, of_nat (length (e_key ?e)), of_nat (length (e_value ?e)), e_key ?e @ e_value ?e @ ?t)"
      unfolding built_GetRestartPoint [OF b m(1)] built_region [OF b e]
      using DecodeEntry_entry_bytes [OF _ len] s0 by simp
    have "unat (of_nat (length (e_key ?e)) :: u32) = length (e_key ?e)"
      using len s0 by (intro unat_of_nat_u32) (simp add: entry_bytes_def)
    then have step: "seek_binary Compare t it left right =
        (if Compare (e_key ?e) t < 0 then seek_binary Compare t it mid right else seek_binary Compare t it left (mid - 1))"
      using True unfolding seek_binary.simps [of Compare t it left right] Let_def mid_def [symmetric] d by simp
    show ?thesis
    proof (cases "Compare (e_key ?e) t < 0")
      case True
      then have "\<forall>k < ris ! mid. Compare (e_key (es ! k)) t < 0"
        using sorted_less_before [OF sorted t, of "ris ! mid"] e by auto
      then show ?thesis using less.hyps [of right mid] less.prems True m step by simp
    next
      case False
      then show ?thesis using less.hyps [of "mid - 1" left] less.prems m step by simp
    qed
  next
    case False
    then show ?thesis using less.prems by (simp add: seek_binary.simps [of _ t it left right])
  qed
qed

text \<open>\<open>Seek\<close> finds the first entry that is not below the target, from every position.\<close>

lemma cursor_Seek:
  assumes c: "cursor es ris it c" and sorted: "sorted_keys Compare valid (map e_key es)" and t: "valid t"
  shows "cursor es ris (Iter_Seek Compare t it) (first_ge Compare (map e_key es) t)"
proof -
  have b: "built es ris it" by (rule cursor_built [OF c])
  have n: "bi_num_restarts it = length ris" "0 < length ris" "ris ! 0 = 0" using b built_ris [OF b] by (auto simp: built_def)
  define m where "m = length (takeWhile (\<lambda>k. Compare k t < 0) (map e_key es))"
  have mb: "m \<le> length es" using length_takeWhile_le [of "\<lambda>k. Compare k t < 0" "map e_key es"] by (simp add: m_def)
  have mless: "Compare (e_key (es ! k)) t < 0" if "k < m" for k
    using that mb nth_length_takeWhile takeWhile_nth [of k "\<lambda>k. Compare k t < 0" "map e_key es"] set_takeWhileD
    by (metis (no_types, lifting) m_def nth_mem nth_map order_less_le_trans)
  have mge: "m < length es \<Longrightarrow> \<not> Compare (e_key (es ! m)) t < 0"
    using nth_length_takeWhile [of "\<lambda>k. Compare k t < 0" "map e_key es"] by (simp add: m_def)
  have goal: "first_ge Compare (map e_key es) t = (if m < length es then Some m else None)"
    by (simp add: first_ge_def Let_def m_def)
  have le: "i \<le> m" if "i \<le> length es" "\<forall>k < i. Compare (e_key (es ! k)) t < 0" for i
    using that mge by (meson leI less_le_trans)
  have scan: "cursor es ris (parse_while (\<lambda>it'. Compare (bi_key it') t < 0) it') (if m < length es then Some m else None)"
    if "built es ris it'" "ready es ris it' i" "\<forall>k < i. Compare (e_key (es ! k)) t < 0" for it' i
    using that mless mge le [OF _ that(3)] mb
    by (intro parse_while_find [where Q = "\<lambda>k. Compare (e_key (es ! k)) t < 0"]) (auto simp: at_entry_def ready_def)
  have restart: "cursor es ris (parse_while (\<lambda>it'. Compare (bi_key it') t < 0) (SeekToRestartPoint l it))
      (if m < length es then Some m else None)" if "l < length ris" "\<forall>k < ris ! l. Compare (e_key (es ! k)) t < 0" for l
    by (rule scan [OF restart_ready [OF b that(1)] that(2)])
  show ?thesis
  proof (cases c)
    case None
    then have "\<not> Iter_Valid it" using cursor_Valid [OF c] by simp
    then show ?thesis
      using seek_binary_built [OF b sorted t, of 0 "length ris - 1"] n restart by (auto simp: Iter_Seek_def Let_def goal)
  next
    case (Some i)
    have v: "Iter_Valid it" using cursor_Valid [OF c] Some by simp
    have a: "at_entry es ris it i" using c Some by simp
    then have i: "i < length es" "bi_key it = e_key (es ! i)" "bi_restart_index it < length ris" "ris ! bi_restart_index it \<le> i"
      by (auto simp: at_entry_def)
    consider "Compare (bi_key it) t = 0" | "Compare (bi_key it) t < 0" | "0 < Compare (bi_key it) t" by linarith
    then show ?thesis
    proof cases
      case 1
      then have "\<forall>k < i. Compare (e_key (es ! k)) t < 0" using sorted_less_before [OF sorted t, of i] i by auto
      then have "m = i" using le [of i] mless [of i] i 1 by (metis less_imp_le order.irrefl order_neq_le_trans)
      then show ?thesis using 1 v c Some i goal by (simp add: Iter_Seek_def)
    next
      case 2
      then have lt: "\<forall>k \<le> i. Compare (e_key (es ! k)) t < 0"
        using sorted_less_before [OF sorted t, of i] i by (auto simp: order.order_iff_strict)
      have "\<forall>k < ris ! bi_restart_index it. Compare (e_key (es ! k)) t < 0" using lt i by auto
      from seek_binary_built [OF b sorted t i(3) _ this, of "length ris - 1"] n obtain l where
        l: "seek_binary Compare t it (bi_restart_index it) (length ris - 1) = Some l" "l < length ris" "\<forall>k < ris ! l. Compare (e_key (es ! k)) t < 0"
        by auto
      then show ?thesis using 2 v n goal restart [OF l(2,3)] scan [OF b at_ready [OF b a]] lt
        by (auto simp: Iter_Seek_def Let_def less_Suc_eq_le simp del: cursor.simps split: if_splits)
    next
      case 3
      then show ?thesis using seek_binary_built [OF b sorted t, of 0 "bi_restart_index it"] n i v restart
        by (auto simp: Iter_Seek_def Let_def goal)
    qed
  qed
qed

end

section \<open>Blocks that the builder wrote\<close>

lemma length_restart_bytes: "length (restart_bytes es ris) = 4 * length ris + 4"
  by (induction ris) (simp_all add: restart_bytes_def)

lemma bb_Finish_built:
  assumes rep: "bb_rep b es ris" and len: "length (fst (bb_Finish b)) < 2 ^ 32"
  shows "\<exists>it. Block_NewIterator (Block_new (fst (bb_Finish b))) = BlockIterator it \<and> cursor es ris it None"
proof -
  have f: "fst (bb_Finish b) = entries_bytes es @ restart_bytes es ris" using rep by (simp add: bb_Finish_bytes bb_rep_def restart_bytes_def)
  define d where "d = entries_bytes es @ restart_bytes es ris"
  have l: "length d = length (entries_bytes es) + (4 * length ris + 4)" by (simp add: d_def length_restart_bytes)
  have lb: "length d < 2 ^ 32" using len f by (simp add: d_def)
  have "drop (length d - 4) d = EncodeFixed32 (of_nat (length ris))"
    unfolding l by (simp add: d_def length_restart_bytes) (simp add: restart_bytes_def length_concat comp_def sum_list_triv)
  then have "NumRestarts d = of_nat (length ris)" using DecodeFixed32_Encode [of _ "[]"] by (simp add: NumRestarts_def)
  then have n: "unat (NumRestarts d) = length ris" using unat_of_nat_u32 [of "length ris"] l lb by simp
  have r: "0 < length ris" using rep by (auto simp: bb_rep_def restarts_ok_def)
  let ?it = "Iter_new d (of_nat (length (entries_bytes es))) (length ris)"
  have "Block_NewIterator (Block_new d) = BlockIterator ?it"
    using r l by (simp add: Block_new_def Block_NewIterator_def n)
  moreover have "cursor es ris ?it None"
    using rep lb l unat_of_nat_u32 [of "length (entries_bytes es)"]
    by (simp add: built_def Iter_new_def d_def bb_rep_def length_restart_bytes)
  ultimately show ?thesis by (simp add: f d_def)
qed

lemma build_block:
  assumes "1 \<le> n" and "length (fst (bb_Finish (fold (\<lambda>(k, v). bb_Add k v) kvs (BlockBuilder_new n)))) < 2 ^ 32"
  shows "\<exists>it es ris. Block_NewIterator (Block_new (fst (bb_Finish (fold (\<lambda>(k, v). bb_Add k v) kvs (BlockBuilder_new n))))) = BlockIterator it
    \<and> cursor es ris it None \<and> map entry_kv es = kvs"
proof -
  have "1 \<le> bb_interval (BlockBuilder_new n)" using assms(1) by (simp add: BlockBuilder_new_def)
  from bb_rep_Adds [OF bb_rep_new this, of kvs] obtain es ris where
    "bb_rep (fold (\<lambda>(k, v). bb_Add k v) kvs (BlockBuilder_new n)) es ris" "map entry_kv es = kvs"
    by auto
  then show ?thesis using bb_Finish_built assms(2) by blast
qed

text \<open>A block whose only entry has a key of one byte and a value length of \<open>2\<^sup>32 - 1\<close>.\<close>

definition wrapping_block :: string where
  "wrapping_block = map chr8 [0, 1, 0xff, 0xff, 0xff, 0xff, 0x0f, 107, 0, 0, 0, 0, 1, 0, 0, 0]"

section \<open>Properties\<close>

text \<open>
  C15: reading back a block returns what was added: for every restart interval of at least one,
  a scan with \<^verbatim>\<open>SeekToFirst\<close> and \<^verbatim>\<open>Next\<close> over the finished block yields the added pairs in order and
  then ends with status OK.
\<close>

theorem block_roundtrip:
  assumes "1 \<le> n" and "blk = fst (bb_Finish (fold (\<lambda>(k, v). bb_Add k v) kvs (BlockBuilder_new n)))" and "length blk < 2 ^ 32"
  shows "\<exists>it it'. Block_NewIterator (Block_new blk) = BlockIterator it
    \<and> iterate Iter_Valid Iter_kv Iter_Next (length kvs) (Iter_SeekToFirst it) = (kvs, it')
    \<and> \<not> Iter_Valid it' \<and> bi_status it' = OK"
proof -
  from build_block [of n kvs] assms obtain it es ris where
    it: "Block_NewIterator (Block_new blk) = BlockIterator it" "cursor es ris it None" "map entry_kv es = kvs" by auto
  from bi.iterate_all [OF it(2), of "length kvs"] it(3) obtain it' where
    "iterate Iter_Valid Iter_kv Iter_Next (length kvs) (Iter_SeekToFirst it) = (kvs, it')" "cursor es ris it' None" by auto
  then show ?thesis using it cursor_Valid [of es ris it' None] by (auto simp: built_def)
qed

theorem block_roundtrip_witness:
  "\<exists>it it'. Block_NewIterator (Block_new (fst (bb_Finish (fold (\<lambda>(k, v). bb_Add k v)
      [(''apple'', ''1''), (''apply'', ''2''), (''b'', [])] (BlockBuilder_new 2))))) = BlockIterator it
    \<and> iterate Iter_Valid Iter_kv Iter_Next 3 (Iter_SeekToFirst it) = ([(''apple'', ''1''), (''apply'', ''2''), (''b'', [])], it')
    \<and> \<not> Iter_Valid it' \<and> bi_status it' = OK"
proof -
  have "length (fst (bb_Finish (fold (\<lambda>(k, v). bb_Add k v)
      [(''apple'', ''1''), (''apply'', ''2''), (''b'', [])] (BlockBuilder_new 2)))) < 100" by code_simp
  then show ?thesis
    using block_roundtrip [of 2 _ "[(''apple'', ''1''), (''apply'', ''2''), (''b'', [])]", OF _ refl] by (simp add: numeral_3_eq_3)
qed

text \<open>
  C14: the block iterator refines a cursor into the list of entries.  From every position, valid
  or not, it is valid exactly when the cursor is at an entry, whose key and value it returns;
  \<^verbatim>\<open>SeekToFirst\<close>, \<^verbatim>\<open>SeekToLast\<close>, \<^verbatim>\<open>Next\<close> and \<^verbatim>\<open>Prev\<close> move it as the cursor moves, and \<^verbatim>\<open>Seek\<close>, which
  searches the restart points and reuses the current position, goes to the first entry that is
  not below the target when the keys are in increasing order.
\<close>

theorem block_iterator_refines_cursor:
  assumes "cursor es ris it c"
  shows "Iter_Valid it = (c \<noteq> None) \<and> (\<forall>i. c = Some i \<longrightarrow> (bi_key it, Iter_value it) = entry_kv (es ! i))
    \<and> cursor es ris (Iter_SeekToFirst it) (first_pos (length es)) \<and> cursor es ris (Iter_SeekToLast it) (last_pos (length es))
    \<and> (\<forall>i. c = Some i \<longrightarrow> cursor es ris (Iter_Next it) (next_pos (length es) i) \<and> cursor es ris (Iter_Prev it) (prev_pos i))
    \<and> (sorted_keys bytewise_Compare (\<lambda>_. True) (map e_key es) \<longrightarrow>
        cursor es ris (Iter_Seek bytewise_Compare t it) (first_ge bytewise_Compare (map e_key es) t))"
  using cursor_Valid [OF assms] bi.rel_at [of es ris it] cursor_SeekToFirst [OF assms] cursor_SeekToLast [OF assms]
    cursor_Next [of es ris it] cursor_Prev [of es ris it] bytewise.cursor_Seek [OF assms] assms
  by (auto simp: Iter_kv_def)

theorem block_iterator_refines_cursor_witness:
  "\<exists>it es. cursor es [0, 1] it None \<and> map entry_kv es = [(''a'', ''1''), (''ab'', ''2'')] \<and>
     cursor es [0, 1] (Iter_Seek bytewise_Compare ''aa'' it) (Some 1)"
proof -
  define b where "b = fold (\<lambda>(k, v). bb_Add k v) [(''a'', ''1''), (''ab'', ''2'')] (BlockBuilder_new 1)"
  define es where "es = [Entry 0 ''a'' ''1'', Entry 0 ''ab'' ''2'']"
  have rep: "bb_rep b es [0, 1]" unfolding b_def es_def by code_simp
  have "length (fst (bb_Finish b)) < 100" unfolding b_def by code_simp
  then obtain it where it: "cursor es [0, 1] it None" using bb_Finish_built [OF rep] by auto
  have s: "sorted_keys bytewise_Compare (\<lambda>_. True) (map e_key es)" "first_ge bytewise_Compare (map e_key es) ''aa'' = Some 1"
    "map entry_kv es = [(''a'', ''1''), (''ab'', ''2'')]" unfolding es_def by code_simp+
  show ?thesis using it s block_iterator_refines_cursor [OF it, of "''aa''"] by metis
qed

text \<open>
  The fast path of \<^verbatim>\<open>DecodeEntry\<close>, which reads three one-byte lengths without the varint
  decoder, agrees with decoding three varints on every input.
\<close>

theorem decode_entry_fast_path: "DecodeEntry p = DecodeEntry_general p"
  by (rule DecodeEntry_eq_general)

text \<open>
  C39: the length check of \<^verbatim>\<open>DecodeEntry\<close> adds two 32-bit lengths and wraps, so a block of 16 bytes
  is accepted whose entry has a value of \<open>2\<^sup>32 - 1\<close> bytes: the iterator is valid with status OK
  and its value slice ends far outside the block.
\<close>

theorem block_value_out_of_bounds:
  "\<exists>it. Block_NewIterator (Block_new wrapping_block) = BlockIterator it \<and> Iter_Valid (Iter_SeekToFirst it)
     \<and> bi_status (Iter_SeekToFirst it) = OK
     \<and> length wrapping_block < bi_voff (Iter_SeekToFirst it) + bi_vlen (Iter_SeekToFirst it)"
proof -
  let ?it = "Iter_new wrapping_block 8 1"
  have b: "Block_NewIterator (Block_new wrapping_block) = BlockIterator ?it" by code_simp
  define s0 where "s0 = \<lparr>bi_data = wrapping_block, bi_restarts = 8, bi_num_restarts = 1, bi_current = 8,
    bi_restart_index = 0, bi_key = [], bi_voff = 0, bi_vlen = 0, bi_status = OK\<rparr>"
  have s: "SeekToRestartPoint 0 ?it = s0" unfolding s0_def by code_simp
  have d: "DecodeEntry (region s0 0) = Some (0, 1, 0xffffffff, ''k'')" unfolding s0_def by code_simp
  have l: "length (region s0 0) = 8" "length wrapping_block = 16" unfolding s0_def by code_simp+
  have "Iter_SeekToFirst ?it = (let it1 = s0\<lparr>bi_current := 0, bi_key := take 1 (drop 7 wrapping_block),
      bi_voff := 8, bi_vlen := 4294967295\<rparr> in it1\<lparr>bi_restart_index := advance_restart it1 (bi_restart_index it1)\<rparr>)"
    unfolding Iter_SeekToFirst_def Let_def s
    by (subst ParseNextKey_decoded [OF _ _ d _ _ refl, of 7]) (simp_all add: l NextEntryOffset_def, simp_all add: s0_def)
  then have "Iter_Valid (Iter_SeekToFirst ?it) \<and> bi_status (Iter_SeekToFirst ?it) = OK \<and>
      length wrapping_block < bi_voff (Iter_SeekToFirst ?it) + bi_vlen (Iter_SeekToFirst ?it)"
    by (simp add: Let_def Iter_Valid_def l) (simp add: s0_def)
  with b show ?thesis by blast
qed

end
