(* ===== verification/Logging.thy ===== *)
theory Logging
  imports Slice_Status
begin

text \<open>
  \<^verbatim>\<open>src/leveldb/util/logging.cc\<close>: printing and parsing of decimal numbers, and the escaping
  that the dump code applies to keys and values.  \<open>ConsumeDecimalNumber\<close> keeps the 64-bit
  arithmetic and the overflow test of the source; the theorems say that the test is exact.
\<close>

section \<open>Printing\<close>

definition AppendNumberTo :: "string \<Rightarrow> u64 \<Rightarrow> string" where
  "AppendNumberTo str num = str @ nat_to_string (unat num)"

definition hex_char :: "nat \<Rightarrow> char" where
  "hex_char d = (if d < 10 then char_of (48 + d) else char_of (87 + d))"

definition escape_char :: "char \<Rightarrow> string" where
  "escape_char c =
     (if CHR '' '' \<le> c \<and> c \<le> CHR ''~'' then [c]
      else [CHR 0x5C, CHR ''x'', hex_char (of_char c div 16), hex_char (of_char c mod 16)])"

definition AppendEscapedStringTo :: "string \<Rightarrow> string \<Rightarrow> string" where
  "AppendEscapedStringTo str value = str @ concat (map escape_char value)"

definition NumberToString :: "u64 \<Rightarrow> string" where
  "NumberToString num = AppendNumberTo [] num"

definition EscapeString :: "string \<Rightarrow> string" where
  "EscapeString value = AppendEscapedStringTo [] value"

section \<open>Parsing\<close>

definition kMaxUint64 :: u64 where
  "kMaxUint64 = - 1"

fun consume_loop :: "u64 \<Rightarrow> string \<Rightarrow> (u64 \<times> string) option" where
  "consume_loop value [] = Some (value, [])"
| "consume_loop value (ch # cs) =
     (if ch < CHR ''0'' \<or> CHR ''9'' < ch then Some (value, ch # cs)
      else if value > kMaxUint64 div 10 \<or>
              (value = kMaxUint64 div 10 \<and> ord8 ch > ord8 (CHR ''0'') + ucast (kMaxUint64 mod 10))
      then None
      else consume_loop (value * 10 + ucast (ord8 ch - ord8 (CHR ''0''))) cs)"

definition ConsumeDecimalNumber :: "string \<Rightarrow> (u64 \<times> string) option" where
  "ConsumeDecimalNumber inp =
     (case consume_loop 0 inp of
        None \<Rightarrow> None
      | Some (val, rest) \<Rightarrow> if length inp - length rest \<noteq> 0 then Some (val, rest) else None)"

section \<open>The overflow test is exact\<close>

lemma is_digit_iff: "is_digit_char c \<longleftrightarrow> \<not> (c < CHR ''0'' \<or> CHR ''9'' < c)"
  by (auto simp: is_digit_char_def)

lemma digit_val_less: "is_digit_char c \<Longrightarrow> digit_val c < 10"
  by (simp add: is_digit_char_def digit_val_def less_eq_char_def) linarith

lemma decimal_val_ge: "acc \<le> decimal_val acc ds"
proof (induction ds arbitrary: acc)
  case (Cons c cs)
  have "acc \<le> acc * 10 + digit_val c" by simp
  also have "\<dots> \<le> decimal_val (acc * 10 + digit_val c) cs" by (rule Cons.IH)
  finally show ?case by simp
qed simp

lemma ord8_digit:
  assumes "is_digit_char c"
  shows "unat (ord8 c - ord8 (CHR ''0'')) = digit_val c"
proof -
  have "48 \<le> unat (ord8 c)"
    using assms by (simp add: is_digit_char_def less_eq_char_def unat_ord8)
  then have "ord8 (CHR ''0'') \<le> ord8 c" by (simp add: word_le_nat_alt unat_ord8)
  then show ?thesis by (simp add: unat_sub unat_ord8 digit_val_def)
qed

lemma overflow_test:
  assumes "is_digit_char c"
  shows "(v > kMaxUint64 div 10 \<or> (v = kMaxUint64 div 10 \<and> ord8 c > ord8 (CHR ''0'') + ucast (kMaxUint64 mod 10)))
     \<longleftrightarrow> 2 ^ 64 \<le> unat v * 10 + digit_val c"
proof -
  have q: "kMaxUint64 div 10 = 1844674407370955161" and r: "ucast (kMaxUint64 mod 10) = (5 :: u8)"
    by (simp_all add: kMaxUint64_def)
  have c: "ord8 c > ord8 (CHR ''0'') + 5 \<longleftrightarrow> 5 < digit_val c"
    by (simp add: word_less_nat_alt unat_ord8 unat_word_ariths digit_val_def less_diff_conv) 
  have v: "v > 1844674407370955161 \<longleftrightarrow> 1844674407370955161 < unat v"
    "v = 1844674407370955161 \<longleftrightarrow> unat v = 1844674407370955161"
    by (simp_all add: word_less_nat_alt word_unat_eq_iff)
  show ?thesis
    unfolding q r c v using digit_val_less [OF assms] by auto
qed

lemma consume_step:
  assumes "is_digit_char c"
  shows "consume_loop v (c # cs) =
     (if 2 ^ 64 \<le> unat v * 10 + digit_val c then None
      else consume_loop (v * 10 + ucast (ord8 c - ord8 (CHR ''0''))) cs)"
  using assms unfolding consume_loop.simps overflow_test [OF assms] by (simp add: is_digit_iff)

lemma consume_loop_digits:
  assumes "list_all is_digit_char ds" and "rest = [] \<or> \<not> is_digit_char (hd rest)"
  shows "consume_loop v (ds @ rest) =
     (if decimal_val (unat v) ds < 2 ^ 64 then Some (of_nat (decimal_val (unat v) ds), rest) else None)"
  using assms(1)
proof (induction ds arbitrary: v)
  case Nil
  have "unat v < 2 ^ LENGTH(64)" by (rule unsigned_less)
  moreover have "consume_loop v rest = Some (v, rest)"
    using assms(2) by (cases rest) (auto simp: is_digit_iff)
  ultimately show ?case by simp
next
  case (Cons c ds)
  then have c: "is_digit_char c" by simp
  let ?n = "unat v * 10 + digit_val c"
  show ?case
  proof (cases "2 ^ 64 \<le> ?n")
    case True
    then have "2 ^ 64 \<le> decimal_val ?n ds" using decimal_val_ge order_trans by blast
    then show ?thesis using True by (simp add: consume_step [OF c] del: consume_loop.simps)
  next
    case False
    have "unat (v * 10 + ucast (ord8 c - ord8 (CHR ''0''))) = ?n"
      using False ord8_digit [OF c]
      by (simp add: unat_word_ariths unat_ucast_up)
    then show ?thesis using False Cons by (simp add: consume_step [OF c] del: consume_loop.simps)
  qed
qed

lemma ConsumeDecimalNumber_digits:
  assumes "list_all is_digit_char ds" and "ds \<noteq> []" and "rest = [] \<or> \<not> is_digit_char (hd rest)"
  shows "ConsumeDecimalNumber (ds @ rest) =
     (if decimal_val 0 ds < 2 ^ 64 then Some (of_nat (decimal_val 0 ds), rest) else None)"
  using assms consume_loop_digits [OF assms(1,3), of 0] by (simp add: ConsumeDecimalNumber_def)

lemma ConsumeDecimalNumber_no_digit:
  "inp = [] \<or> \<not> is_digit_char (hd inp) \<Longrightarrow> ConsumeDecimalNumber inp = None"
  by (cases inp) (auto simp: ConsumeDecimalNumber_def is_digit_iff)

lemma ConsumeDecimalNumber_printed:
  "rest = [] \<or> \<not> is_digit_char (hd rest) \<Longrightarrow> ConsumeDecimalNumber (nat_to_string (unat n) @ rest) = Some (n, rest)"
  using unsigned_less [of n, where 'a = nat] nat_to_string_digits [of "unat n"]
  by (subst ConsumeDecimalNumber_digits) simp_all

section \<open>Escaping\<close>

definition printable :: "char \<Rightarrow> bool" where
  "printable c \<longleftrightarrow> CHR '' '' \<le> c \<and> c \<le> CHR ''~''"

lemma EscapeString_printable: "list_all printable s \<Longrightarrow> EscapeString s = s"
  by (induction s) (auto simp: EscapeString_def AppendEscapedStringTo_def escape_char_def printable_def)

lemma EscapeString_Cons: "EscapeString (c # s) = escape_char c @ EscapeString s"
  by (simp add: EscapeString_def AppendEscapedStringTo_def)

lemma of_char_hex_char: "d < 16 \<Longrightarrow> (of_char (hex_char d) :: nat) = (if d < 10 then 48 + d else 87 + d)"
  by (simp add: hex_char_def of_char_of)

lemma hex_char_printable: "d < 16 \<Longrightarrow> printable (hex_char d)"
  by (auto simp: printable_def less_eq_char_def of_char_hex_char)

lemma hex_char_not_quote: "d < 16 \<Longrightarrow> hex_char d \<noteq> CHR 0x27"
  using of_char_hex_char [of d] by (auto split: if_splits)

lemma of_char_div_16: "(of_char c :: nat) div 16 < 16"
  by (rule less_mult_imp_div_less) (use of_char_lt_256 [of c] in simp)

lemma EscapeString_Nil [simp]: "EscapeString [] = []"
  by (simp add: EscapeString_def AppendEscapedStringTo_def)

lemma escape_char_no_quote: "c \<noteq> CHR 0x27 \<Longrightarrow> CHR 0x27 \<notin> set (escape_char c)"
proof -
  assume c: "c \<noteq> CHR 0x27"
  have h: "CHR 0x27 \<noteq> hex_char (of_char c div 16)" "CHR 0x27 \<noteq> hex_char (of_char c mod 16)"
    by (rule hex_char_not_quote [symmetric], rule of_char_div_16)
      (rule hex_char_not_quote [symmetric], simp)
  show ?thesis unfolding escape_char_def using c by (simp add: h)
qed

lemma EscapeString_no_quote: "CHR 0x27 \<notin> set s \<Longrightarrow> CHR 0x27 \<notin> set (EscapeString s)"
proof (induction s)
  case (Cons c s)
  then have "c \<noteq> CHR 0x27" by auto
  with Cons show ?case using escape_char_no_quote [of c] by (simp add: EscapeString_Cons)
qed simp

section \<open>Properties\<close>

text \<open>
  C30: \<^verbatim>\<open>ConsumeDecimalNumber\<close> on a maximal non-empty run of digits returns its value and the rest
  exactly when the value fits in 64 bits, and fails otherwise: the overflow test before each
  multiplication is exact.
\<close>

theorem consume_decimal_exact:
  assumes "list_all is_digit_char ds" and "ds \<noteq> []" and "rest = [] \<or> \<not> is_digit_char (hd rest)"
  shows "ConsumeDecimalNumber (ds @ rest) =
     (if decimal_val 0 ds < 2 ^ 64 then Some (of_nat (decimal_val 0 ds), rest) else None)"
  using assms by (rule ConsumeDecimalNumber_digits)

theorem consume_decimal_exact_witness:
  "ConsumeDecimalNumber (''18446744073709551616'' @ '',x'') =
     (if decimal_val 0 ''18446744073709551616'' < 2 ^ 64
      then Some (of_nat (decimal_val 0 ''18446744073709551616''), '',x'') else None)"
  by (rule consume_decimal_exact) (simp_all add: is_digit_char_def)

end
