(* ===== verification/Dbformat.thy ===== *)
theory Dbformat
  imports Coding Comparator Logging
begin

text \<open>
  \<^verbatim>\<open>src/leveldb/db/dbformat.h\<close> and \<^verbatim>\<open>dbformat.cc\<close>: internal keys.  An internal key is the user
  key followed by eight bytes that hold the sequence number and the value type.  The user
  comparator and the user filter policy are arguments, as they are in the source; the
  locale \<open>user_comparator\<close> carries the contract of a user comparator to the internal key
  comparator, and is interpreted on the bytewise comparator that the program uses.
\<close>

section \<open>Keys\<close>

datatype ValueType = kTypeDeletion | kTypeValue

definition ValueType_num :: "ValueType \<Rightarrow> nat" where
  "ValueType_num t = (case t of kTypeDeletion \<Rightarrow> 0 | kTypeValue \<Rightarrow> 1)"

definition kValueTypeForSeek :: ValueType where
  "kValueTypeForSeek = kTypeValue"

type_synonym SequenceNumber = u64

definition kMaxSequenceNumber :: SequenceNumber where
  "kMaxSequenceNumber = push_bit 56 1 - 1"

record ParsedInternalKey =
  user_key :: string
  sequence :: SequenceNumber
  vtype :: ValueType

definition PackSequenceAndType :: "u64 \<Rightarrow> ValueType \<Rightarrow> u64" where
  "PackSequenceAndType seq t = push_bit 8 seq OR of_nat (ValueType_num t)"

definition InternalKeyEncodingLength :: "ParsedInternalKey \<Rightarrow> nat" where
  "InternalKeyEncodingLength key = length (user_key key) + 8"

definition AppendInternalKey :: "string \<Rightarrow> ParsedInternalKey \<Rightarrow> string" where
  "AppendInternalKey result key =
     PutFixed64 (result @ user_key key) (PackSequenceAndType (sequence key) (vtype key))"

definition ExtractUserKey :: "string \<Rightarrow> string" where
  "ExtractUserKey internal_key = take (length internal_key - 8) internal_key"

definition ParseInternalKey :: "string \<Rightarrow> ParsedInternalKey option" where
  "ParseInternalKey internal_key =
     (let n = length internal_key
      in if n < 8 then None
         else let num = DecodeFixed64 (drop (n - 8) internal_key);
                  c = (ucast num :: u8);
                  uk = take (n - 8) internal_key
              in if c = 0 then Some \<lparr>user_key = uk, sequence = drop_bit 8 num, vtype = kTypeDeletion\<rparr>
                 else if c = 1 then Some \<lparr>user_key = uk, sequence = drop_bit 8 num, vtype = kTypeValue\<rparr>
                 else None)"

definition ParsedInternalKey_DebugString :: "ParsedInternalKey \<Rightarrow> string" where
  "ParsedInternalKey_DebugString k =
     [CHR 0x27] @ EscapeString (user_key k) @ [CHR 0x27] @ '' @ '' @ nat_to_string (unat (sequence k)) @ '' : ''
       @ nat_to_string (ValueType_num (vtype k))"

definition InternalKey_DebugString :: "string \<Rightarrow> string" where
  "InternalKey_DebugString rep =
     (case ParseInternalKey rep of
        Some parsed \<Rightarrow> ParsedInternalKey_DebugString parsed
      | None \<Rightarrow> ''(bad)'' @ EscapeString rep)"

section \<open>The internal key comparator\<close>

definition ik_Compare :: "(string \<Rightarrow> string \<Rightarrow> int) \<Rightarrow> string \<Rightarrow> string \<Rightarrow> int" where
  "ik_Compare ucmp akey bkey =
     (let r = ucmp (ExtractUserKey akey) (ExtractUserKey bkey)
      in if r = 0
         then let anum = DecodeFixed64 (drop (length akey - 8) akey);
                  bnum = DecodeFixed64 (drop (length bkey - 8) bkey)
              in if anum > bnum then - 1 else if anum < bnum then 1 else r
         else r)"

definition ik_FindShortestSeparator ::
  "(string \<Rightarrow> string \<Rightarrow> int) \<Rightarrow> (string \<Rightarrow> string \<Rightarrow> string) \<Rightarrow> string \<Rightarrow> string \<Rightarrow> string" where
  "ik_FindShortestSeparator ucmp usep start limit =
     (let user_start = ExtractUserKey start;
          user_limit = ExtractUserKey limit;
          tmp = usep user_start user_limit
      in if length tmp < length user_start \<and> ucmp user_start tmp < 0
         then PutFixed64 tmp (PackSequenceAndType kMaxSequenceNumber kValueTypeForSeek)
         else start)"

definition ik_FindShortSuccessor ::
  "(string \<Rightarrow> string \<Rightarrow> int) \<Rightarrow> (string \<Rightarrow> string) \<Rightarrow> string \<Rightarrow> string" where
  "ik_FindShortSuccessor ucmp usucc key =
     (let ukey = ExtractUserKey key;
          tmp = usucc ukey
      in if length tmp < length ukey \<and> ucmp ukey tmp < 0
         then PutFixed64 tmp (PackSequenceAndType kMaxSequenceNumber kValueTypeForSeek)
         else key)"

section \<open>The filter policy wrapper and lookup keys\<close>

definition InternalFilterPolicy_CreateFilter ::
  "(string list \<Rightarrow> string \<Rightarrow> string) \<Rightarrow> string list \<Rightarrow> string \<Rightarrow> string" where
  "InternalFilterPolicy_CreateFilter user_create keys dst = user_create (map ExtractUserKey keys) dst"

definition InternalFilterPolicy_KeyMayMatch ::
  "(string \<Rightarrow> string \<Rightarrow> bool) \<Rightarrow> string \<Rightarrow> string \<Rightarrow> bool" where
  "InternalFilterPolicy_KeyMayMatch user_match key f = user_match (ExtractUserKey key) f"

record LookupKey =
  lk_bytes :: string
  lk_kstart :: nat

definition mk_LookupKey :: "string \<Rightarrow> SequenceNumber \<Rightarrow> LookupKey" where
  "mk_LookupKey ukey s =
     (let klen = EncodeVarint32 (of_nat (length ukey + 8))
      in \<lparr>lk_bytes = klen @ ukey @ EncodeFixed64 (PackSequenceAndType s kValueTypeForSeek),
          lk_kstart = length klen\<rparr>)"

definition LookupKey_memtable_key :: "LookupKey \<Rightarrow> string" where
  "LookupKey_memtable_key k = lk_bytes k"

definition LookupKey_internal_key :: "LookupKey \<Rightarrow> string" where
  "LookupKey_internal_key k = drop (lk_kstart k) (lk_bytes k)"

definition LookupKey_user_key :: "LookupKey \<Rightarrow> string" where
  "LookupKey_user_key k =
     take (length (lk_bytes k) - lk_kstart k - 8) (drop (lk_kstart k) (lk_bytes k))"

section \<open>Parsing inverts printing\<close>

lemma ExtractUserKey_tagged [simp]: "ExtractUserKey (PutFixed64 u v) = u"
  by (simp add: ExtractUserKey_def PutFixed64_def)

lemma DecodeFixed64_Encode' [simp]: "DecodeFixed64 (EncodeFixed64 v) = v"
  using DecodeFixed64_Encode [of v "[]"] by simp

lemma tag_tagged [simp]: "DecodeFixed64 (drop (length (PutFixed64 u v) - 8) (PutFixed64 u v)) = v"
  by (simp add: PutFixed64_def)

lemma ValueType_num_le: "ValueType_num t \<le> 1"
  by (simp add: ValueType_num_def split: ValueType.split)

lemma bit_type_byte: "bit (of_nat (ValueType_num t) :: 'a::len word) n \<longleftrightarrow> n = 0 \<and> t = kTypeValue"
  by (cases t) (auto simp: ValueType_num_def bit_1_iff)

lemma Pack_type: "(ucast (PackSequenceAndType seq t) :: u8) = of_nat (ValueType_num t)"
  by (rule bit_word_eqI)
    (auto simp: PackSequenceAndType_def bit_ucast_iff bit_or_iff bit_push_bit_iff bit_type_byte)

lemma kMaxSequenceNumber_mask: "kMaxSequenceNumber = mask 56"
  by (simp add: kMaxSequenceNumber_def mask_eq_exp_minus_1)

lemma seq_bits: "seq \<le> kMaxSequenceNumber \<Longrightarrow> bit seq n \<Longrightarrow> n < 56"
proof -
  assume "seq \<le> kMaxSequenceNumber" "bit seq n"
  then have "seq < 2 ^ 56" by (simp add: kMaxSequenceNumber_def word_le_nat_alt word_less_nat_alt)
  then show ?thesis using \<open>bit seq n\<close> by (rule bits_below)
qed

lemma Pack_sequence:
  assumes "seq \<le> kMaxSequenceNumber"
  shows "drop_bit 8 (PackSequenceAndType seq t) = seq"
  by (rule bit_word_eqI)
    (use seq_bits [OF assms] in \<open>auto simp: PackSequenceAndType_def bit_drop_bit_eq bit_or_iff
        bit_push_bit_iff bit_type_byte\<close>)

lemma ParseInternalKey_Append:
  assumes "sequence k \<le> kMaxSequenceNumber"
  shows "ParseInternalKey (AppendInternalKey [] k) = Some k"
proof (cases "vtype k")
  case kTypeDeletion
  then show ?thesis
    using assms Pack_type [of "sequence k" "vtype k"] Pack_sequence [OF assms, of "vtype k"]
    by (simp add: ParseInternalKey_def AppendInternalKey_def Let_def PutFixed64_def ValueType_num_def)
next
  case kTypeValue
  then show ?thesis
    using assms Pack_type [of "sequence k" "vtype k"] Pack_sequence [OF assms, of "vtype k"]
    by (simp add: ParseInternalKey_def AppendInternalKey_def Let_def PutFixed64_def ValueType_num_def)
qed

section \<open>Internal keys are ordered by user key, then by decreasing tag\<close>

definition ikey_ok :: "string \<Rightarrow> bool" where
  "ikey_ok k \<longleftrightarrow> 8 \<le> length k"

definition ikey_tag :: "string \<Rightarrow> u64" where
  "ikey_tag k = DecodeFixed64 (drop (length k - 8) k)"

lemma ikey_split: "ikey_ok k \<Longrightarrow> k = PutFixed64 (ExtractUserKey k) (ikey_tag k)"
  by (simp add: ikey_ok_def ikey_tag_def ExtractUserKey_def PutFixed64_def EncodeFixed64_Decode)

lemma ikey_eq_iff:
  "ikey_ok a \<Longrightarrow> ikey_ok b \<Longrightarrow> a = b \<longleftrightarrow> ExtractUserKey a = ExtractUserKey b \<and> ikey_tag a = ikey_tag b"
  using ikey_split by metis

lemma ikey_ok_PutFixed64 [simp]: "ikey_ok (PutFixed64 u v)"
  by (simp add: ikey_ok_def PutFixed64_def)

lemma ikey_tag_PutFixed64 [simp]: "ikey_tag (PutFixed64 u v) = v"
  by (simp add: ikey_tag_def)

lemma ik_Compare_cases:
  "ik_Compare ucmp a b =
     (if ucmp (ExtractUserKey a) (ExtractUserKey b) = 0
      then if ikey_tag b < ikey_tag a then - 1 else if ikey_tag a < ikey_tag b then 1 else 0
      else ucmp (ExtractUserKey a) (ExtractUserKey b))"
  by (simp add: ik_Compare_def ikey_tag_def Let_def)

locale user_comparator =
  key_comparator Compare FindShortestSeparator FindShortSuccessor "\<lambda>_. True"
  for Compare :: "string \<Rightarrow> string \<Rightarrow> int"
    and FindShortestSeparator :: "string \<Rightarrow> string \<Rightarrow> string"
    and FindShortSuccessor :: "string \<Rightarrow> string" +
  assumes sep_same: "FindShortestSeparator k k = k"
begin

lemma ik_less:
  "ik_Compare Compare a b < 0 \<longleftrightarrow>
     Compare (ExtractUserKey a) (ExtractUserKey b) < 0 \<or>
     ExtractUserKey a = ExtractUserKey b \<and> ikey_tag b < ikey_tag a"
  using cmp_eq [of "ExtractUserKey a" "ExtractUserKey b"] by (auto simp: ik_Compare_cases)

lemma ik_greater:
  "0 < ik_Compare Compare a b \<longleftrightarrow>
     0 < Compare (ExtractUserKey a) (ExtractUserKey b) \<or>
     ExtractUserKey a = ExtractUserKey b \<and> ikey_tag a < ikey_tag b"
  using cmp_eq [of "ExtractUserKey a" "ExtractUserKey b"] by (auto simp: ik_Compare_cases)

lemma ik_zero:
  "ik_Compare Compare a b = 0 \<longleftrightarrow> ExtractUserKey a = ExtractUserKey b \<and> ikey_tag a = ikey_tag b"
  using cmp_eq [of "ExtractUserKey a" "ExtractUserKey b"] by (auto simp: ik_Compare_cases)

lemma ik_swap: "ik_Compare Compare a b < 0 \<longleftrightarrow> 0 < ik_Compare Compare b a"
  using cmp_swap [of "ExtractUserKey a" "ExtractUserKey b"] by (auto simp: ik_less ik_greater)

lemma ik_trans: "ik_Compare Compare a b < 0 \<Longrightarrow> ik_Compare Compare b c < 0 \<Longrightarrow> ik_Compare Compare a c < 0"
  using cmp_trans [of "ExtractUserKey a" "ExtractUserKey b" "ExtractUserKey c"] by (auto simp: ik_less)

lemma ik_sep:
  assumes "ikey_ok s"
  shows "ikey_ok (ik_FindShortestSeparator Compare FindShortestSeparator s l)
    \<and> ik_Compare Compare s (ik_FindShortestSeparator Compare FindShortestSeparator s l) \<le> 0
    \<and> (ik_Compare Compare s l < 0 \<longrightarrow>
        ik_Compare Compare (ik_FindShortestSeparator Compare FindShortestSeparator s l) l < 0)"
proof -
  let ?us = "ExtractUserKey s" and ?ul = "ExtractUserKey l"
  let ?tmp = "FindShortestSeparator ?us ?ul"
  let ?x = "ik_FindShortestSeparator Compare FindShortestSeparator s l"
  show ?thesis
  proof (cases "length ?tmp < length ?us \<and> Compare ?us ?tmp < 0")
    case True
    then have x: "?x = PutFixed64 ?tmp (PackSequenceAndType kMaxSequenceNumber kValueTypeForSeek)"
      by (simp add: ik_FindShortestSeparator_def Let_def)
    have "ik_Compare Compare s ?x < 0" using True x by (simp add: ik_less)
    moreover have "ik_Compare Compare ?x l < 0" if "ik_Compare Compare s l < 0"
    proof -
      have "?us \<noteq> ?ul" using True sep_same [of ?us] by auto
      then have "Compare ?us ?ul < 0" using that by (simp add: ik_less)
      then have "Compare ?tmp ?ul < 0" using sep_less by simp
      then show ?thesis using x by (simp add: ik_less)
    qed
    ultimately show ?thesis using x by simp
  next
    case False
    then have "?x = s" by (auto simp: ik_FindShortestSeparator_def Let_def)
    then show ?thesis using assms by (simp add: ik_zero order_le_less)
  qed
qed

lemma ik_succ:
  assumes "ikey_ok k"
  shows "ikey_ok (ik_FindShortSuccessor Compare FindShortSuccessor k)
    \<and> ik_Compare Compare k (ik_FindShortSuccessor Compare FindShortSuccessor k) \<le> 0"
proof (cases "length (FindShortSuccessor (ExtractUserKey k)) < length (ExtractUserKey k)
    \<and> Compare (ExtractUserKey k) (FindShortSuccessor (ExtractUserKey k)) < 0")
  case True
  then show ?thesis
    by (simp add: ik_FindShortSuccessor_def Let_def ik_less order_le_less)
next
  case False
  then have "ik_FindShortSuccessor Compare FindShortSuccessor k = k"
    by (auto simp: ik_FindShortSuccessor_def Let_def)
  then show ?thesis using assms by (simp add: ik_zero order_le_less)
qed

end

sublocale user_comparator \<subseteq> ik: key_comparator "ik_Compare Compare"
    "ik_FindShortestSeparator Compare FindShortestSeparator"
    "ik_FindShortSuccessor Compare FindShortSuccessor" ikey_ok
  by unfold_locales
    (use ik_sep ik_succ ik_swap ik_trans in \<open>auto simp: ik_zero ikey_eq_iff\<close>)

lemma diff_index_loop_same: "diff_index_loop s s (length s) d = max d (length s)"
proof (induction "length s - d" arbitrary: d)
  case 0
  then show ?case by (simp add: diff_index_loop.simps [of s s "length s" d])
next
  case (Suc n)
  then have "n = length s - Suc d" by linarith
  then have "diff_index_loop s s (length s) (Suc d) = max (Suc d) (length s)" by (rule Suc(1))
  moreover have "d < length s" using Suc(2) by linarith
  ultimately show ?case by (simp add: diff_index_loop.simps [of s s "length s" d])
qed

interpretation bytewise_user: user_comparator bytewise_Compare bytewise_FindShortestSeparator
    bytewise_FindShortSuccessor
  by unfold_locales (simp add: bytewise_FindShortestSeparator_def diff_index_loop_same)

section \<open>Properties\<close>

text \<open>
  C31: parsing an internal key that was built from a user key, a sequence number of at most
  56 bits and a value type gives these back.
\<close>

theorem internal_key_roundtrip:
  assumes "sequence k \<le> kMaxSequenceNumber"
  shows "ParseInternalKey (AppendInternalKey [] k) = Some k"
  using assms by (rule ParseInternalKey_Append)

theorem internal_key_roundtrip_witness:
  "ParseInternalKey (AppendInternalKey [] \<lparr>user_key = ''k'', sequence = 7, vtype = kTypeDeletion\<rparr>)
   = Some \<lparr>user_key = ''k'', sequence = 7, vtype = kTypeDeletion\<rparr>"
  by (rule internal_key_roundtrip) (simp add: kMaxSequenceNumber_def)

text \<open>The tags of two entries are ordered by the sequence number first.\<close>

lemma drop_bit_mono_word: "a \<le> b \<Longrightarrow> drop_bit n a \<le> drop_bit n (b :: u64)"
  by (simp add: word_le_nat_alt drop_bit_eq_div unat_div div_le_mono)

lemma Pack_less:
  assumes "s \<le> kMaxSequenceNumber" and "s' \<le> kMaxSequenceNumber" and "s < s'"
  shows "PackSequenceAndType s t < PackSequenceAndType s' t'"
proof (rule ccontr)
  assume "\<not> ?thesis"
  then have "drop_bit 8 (PackSequenceAndType s' t') \<le> drop_bit 8 (PackSequenceAndType s t)"
    by (intro drop_bit_mono_word) simp
  with assms show False by (simp add: Pack_sequence)
qed

text \<open>
  C32: the internal comparator over the bytewise order sorts by user key and, for one user
  key, the newer entry first, whatever the types of the entries are.
\<close>

theorem newest_first:
  assumes "sequence a \<le> kMaxSequenceNumber" and "sequence b \<le> kMaxSequenceNumber" and "sequence a \<noteq> sequence b"
  shows "ik_Compare bytewise_Compare (AppendInternalKey [] a) (AppendInternalKey [] b) < 0
     \<longleftrightarrow> user_key a < user_key b \<or> user_key a = user_key b \<and> sequence b < sequence a"
proof -
  have "PackSequenceAndType (sequence b) (vtype b) < PackSequenceAndType (sequence a) (vtype a)
      \<longleftrightarrow> sequence b < sequence a"
    using Pack_less [OF assms(1,2), of "vtype a" "vtype b"] Pack_less [OF assms(2,1), of "vtype b" "vtype a"] assms(3)
    by (metis linorder_less_linear order_less_asym)
  then show ?thesis by (auto simp: bytewise_user.ik_less AppendInternalKey_def)
qed

theorem newest_first_witness:
  "ik_Compare bytewise_Compare (AppendInternalKey [] \<lparr>user_key = ''k'', sequence = 9, vtype = kTypeDeletion\<rparr>)
       (AppendInternalKey [] \<lparr>user_key = ''k'', sequence = 3, vtype = kTypeValue\<rparr>) < 0"
  using newest_first [of "\<lparr>user_key = ''k'', sequence = 9, vtype = kTypeDeletion\<rparr>"
      "\<lparr>user_key = ''k'', sequence = 3, vtype = kTypeValue\<rparr>"]
  by (simp add: kMaxSequenceNumber_def)

text \<open>
  C33: the separator that the internal comparator puts into an index block for two adjacent
  keys is at or after the last key of the one block and before the first key of the next,
  and the successor used for the last block is not before its last key.
\<close>

theorem index_separator:
  assumes "ikey_ok a" and "ikey_ok b" and "ik_Compare bytewise_Compare a b < 0"
  shows "ik_Compare bytewise_Compare a (ik_FindShortestSeparator bytewise_Compare bytewise_FindShortestSeparator a b) \<le> 0
     \<and> ik_Compare bytewise_Compare (ik_FindShortestSeparator bytewise_Compare bytewise_FindShortestSeparator a b) b < 0
     \<and> ik_Compare bytewise_Compare a (ik_FindShortSuccessor bytewise_Compare bytewise_FindShortSuccessor a) \<le> 0"
  using assms by (simp add: bytewise_user.ik.sep_ge bytewise_user.ik.sep_less bytewise_user.ik.succ_ge)

theorem index_separator_witness:
  "let a = PutFixed64 ''abcx'' 1; b = PutFixed64 ''abzz'' 1 in
     ik_Compare bytewise_Compare a (ik_FindShortestSeparator bytewise_Compare bytewise_FindShortestSeparator a b) \<le> 0
     \<and> ik_Compare bytewise_Compare (ik_FindShortestSeparator bytewise_Compare bytewise_FindShortestSeparator a b) b < 0
     \<and> ik_Compare bytewise_Compare a (ik_FindShortSuccessor bytewise_Compare bytewise_FindShortSuccessor a) \<le> 0"
  unfolding Let_def
  by (rule index_separator) (simp_all add: bytewise_user.ik_less)

end
