(* ===== verification/Bloom_Policy.thy ===== *)
theory Bloom_Policy
  imports Coding Dbformat
begin

text \<open>
  \<^verbatim>\<open>src/leveldb/util/hash.cc\<close> and \<^verbatim>\<open>util/bloom.cc\<close>: the filter policy that LevelDB ships.  A filter is a
  string whose last byte is the number of probes.  \<^verbatim>\<open>bits_per_key * 0.69\<close> is computed in the
  source in double precision; as the result is cut at 30, only arguments below 44 matter,
  for which the product is never an integer except at 0 and truncation agrees with the
  integer quotient used here.  The locale \<open>filter_policy\<close> is the contract of
  \<^verbatim>\<open>include/leveldb/filter_policy.h\<close> that filter blocks rely on.
\<close>

unbundle bit_operations_syntax

section \<open>Hash\<close>

function Hash_loop :: "u32 \<Rightarrow> string \<Rightarrow> u32 \<times> string" where
  "Hash_loop h data =
     (if 4 \<le> length data then
        let w = DecodeFixed32 data;
            h1 = (h + w) * 0xc6a4a793;
            h2 = h1 XOR drop_bit 16 h1
        in Hash_loop h2 (drop 4 data)
      else (h, data))"
  by pat_completeness auto
termination
  by (relation "measure (\<lambda>(h, data). length data)") auto

declare Hash_loop.simps [simp del]

definition Hash :: "string \<Rightarrow> u32 \<Rightarrow> u32" where
  "Hash data seed =
     (let m = 0xc6a4a793;
          (h, left) = Hash_loop (seed XOR (of_nat (length data) * m)) data;
          h3 = (if length left = 3 then h + push_bit 16 (ucast (ord8 (left ! 2))) else h);
          h2 = (if 2 \<le> length left then h3 + push_bit 8 (ucast (ord8 (left ! 1))) else h3);
          h1 = (h2 + ucast (ord8 (left ! 0))) * m
      in if left = [] then h else h1 XOR drop_bit 24 h1)"

section \<open>Bloom filters\<close>

definition BloomHash :: "string \<Rightarrow> u32" where
  "BloomHash key = Hash key 0xbc9f1d34"

definition bloom_k :: "nat \<Rightarrow> nat" where
  "bloom_k bits_per_key = (let k = bits_per_key * 69 div 100; k1 = (if k < 1 then 1 else k) in if 30 < k1 then 30 else k1)"

definition bloom_Name :: string where
  "bloom_Name = ''leveldb.BuiltinBloomFilter2''"

definition bloom_delta :: "u32 \<Rightarrow> u32" where
  "bloom_delta h = drop_bit 17 h OR push_bit 15 h"

definition set_array_bit :: "nat \<Rightarrow> string \<Rightarrow> string" where
  "set_array_bit bitpos a = a[bitpos div 8 := chr8 (ord8 (a ! (bitpos div 8)) OR push_bit (bitpos mod 8) 1)]"

definition test_array_bit :: "nat \<Rightarrow> string \<Rightarrow> bool" where
  "test_array_bit bitpos a \<longleftrightarrow> ord8 (a ! (bitpos div 8)) AND push_bit (bitpos mod 8) 1 \<noteq> 0"

primrec set_probes :: "nat \<Rightarrow> u32 \<Rightarrow> nat \<Rightarrow> u32 \<Rightarrow> string \<Rightarrow> string" where
  "set_probes bits delta 0 h a = a"
| "set_probes bits delta (Suc j) h a = set_probes bits delta j (h + delta) (set_array_bit (unat h mod bits) a)"

primrec test_probes :: "nat \<Rightarrow> u32 \<Rightarrow> nat \<Rightarrow> u32 \<Rightarrow> string \<Rightarrow> bool" where
  "test_probes bits delta 0 h a = True"
| "test_probes bits delta (Suc j) h a =
     (if \<not> test_array_bit (unat h mod bits) a then False else test_probes bits delta j (h + delta) a)"

definition bloom_CreateFilter :: "nat \<Rightarrow> string list \<Rightarrow> string \<Rightarrow> string" where
  "bloom_CreateFilter bits_per_key keys dst =
     (let bits = length keys * bits_per_key;
          bits1 = (if bits < 64 then 64 else bits);
          bytes = (bits1 + 7) div 8;
          bits2 = bytes * 8;
          k = bloom_k bits_per_key;
          a = fold (\<lambda>key. set_probes bits2 (bloom_delta (BloomHash key)) k (BloomHash key)) keys (replicate bytes (chr8 0))
      in dst @ a @ [char_of k])"

definition bloom_KeyMayMatch :: "string \<Rightarrow> string \<Rightarrow> bool" where
  "bloom_KeyMayMatch key bloom_filter =
     (let len = length bloom_filter
      in if len < 2 then False
         else let bits = (len - 1) * 8;
                  k = of_char (bloom_filter ! (len - 1))
              in if 30 < k then True
                 else test_probes bits (bloom_delta (BloomHash key)) k (BloomHash key) bloom_filter)"

section \<open>The contract\<close>

locale filter_policy =
  fixes CreateFilter :: "string list \<Rightarrow> string \<Rightarrow> string"
    and KeyMayMatch :: "string \<Rightarrow> string \<Rightarrow> bool"
  assumes CreateFilter_appends: "CreateFilter keys dst = dst @ CreateFilter keys []"
    and may_match: "key \<in> set keys \<Longrightarrow> KeyMayMatch key (CreateFilter keys [])"

section \<open>The Bloom filter fulfils it\<close>

lemma test_array_bit_iff: "test_array_bit p a \<longleftrightarrow> bit (ord8 (a ! (p div 8))) (p mod 8)"
  by (auto simp: test_array_bit_def bit_eq_iff [where 'a = "8 word"] bit_and_iff bit_exp_iff)

lemma bit_set_array_bit:
  assumes "p div 8 < length a"
  shows "test_array_bit q (set_array_bit p a) \<longleftrightarrow> q = p \<or> test_array_bit q a"
proof (cases "q div 8 = p div 8")
  case True
  then have "q = p \<longleftrightarrow> q mod 8 = p mod 8" by (metis mult_div_mod_eq)
  then show ?thesis using True assms by (auto simp: test_array_bit_iff set_array_bit_def bit_or_iff bit_exp_iff)
next
  case False
  then show ?thesis by (auto simp: test_array_bit_iff set_array_bit_def nth_list_update)
qed

lemma length_set_array_bit [simp]: "length (set_array_bit p a) = length a"
  by (simp add: set_array_bit_def)

lemma length_set_probes [simp]: "length (set_probes bits delta k h a) = length a"
  by (induction k arbitrary: h a) simp_all

lemma probe_in_range: "0 < n \<Longrightarrow> x mod (n * 8) div 8 < (n :: nat)"
  by (simp add: less_mult_imp_div_less)

lemma set_probes_mono:
  "length a = n \<Longrightarrow> 0 < n \<Longrightarrow> test_array_bit p a \<Longrightarrow> test_array_bit p (set_probes (n * 8) delta k h a)"
  by (induction k arbitrary: h a) (simp_all add: bit_set_array_bit probe_in_range)

lemma test_set_probes:
  "length a = n \<Longrightarrow> 0 < n \<Longrightarrow> (\<And>p. test_array_bit p (set_probes (n * 8) delta k h a) \<Longrightarrow> test_array_bit p b) \<Longrightarrow>
   test_probes (n * 8) delta k h b"
proof (induction k arbitrary: h a)
  case (Suc k)
  let ?a = "set_array_bit (unat h mod (n * 8)) a"
  have "test_array_bit (unat h mod (n * 8)) ?a" using Suc.prems by (simp add: bit_set_array_bit probe_in_range)
  then have "test_array_bit (unat h mod (n * 8)) b"
    using Suc.prems(3) set_probes_mono [of ?a n] Suc.prems(1,2) by simp
  moreover have "test_probes (n * 8) delta k (h + delta) b" by (rule Suc.IH [of ?a]) (use Suc.prems in simp_all)
  ultimately show ?case by simp
qed simp

lemma fold_set_probes:
  "length a = n \<Longrightarrow> 0 < n \<Longrightarrow> key \<in> set keys \<Longrightarrow>
   (\<And>p. test_array_bit p (fold (\<lambda>key. set_probes (n * 8) (d key) k (f key)) keys a) \<Longrightarrow> test_array_bit p b) \<Longrightarrow>
   test_probes (n * 8) (d key) k (f key) b"
proof (induction keys arbitrary: a)
  case (Cons x keys)
  let ?a = "set_probes (n * 8) (d x) k (f x) a"
  have mono: "test_array_bit p c \<Longrightarrow> length c = n \<Longrightarrow>
      test_array_bit p (fold (\<lambda>key. set_probes (n * 8) (d key) k (f key)) ks c)" for p c ks
    using Cons.prems(2) by (induction ks arbitrary: c) (simp_all add: set_probes_mono)
  show ?case
  proof (cases "key = x")
    case True
    then show ?thesis using Cons.prems mono [of _ ?a keys] by (auto intro: test_set_probes [of a])
  next
    case False
    then show ?thesis using Cons.prems by (intro Cons.IH [of ?a]) auto
  qed
qed simp

lemma length_fold_set_probes [simp]:
  "length (fold (\<lambda>key. set_probes m (d key) k (f key)) keys a) = length a"
  by (induction keys arbitrary: a) simp_all

lemma length_bloom_CreateFilter:
  "length (bloom_CreateFilter b keys dst) = length dst + ((if length keys * b < 64 then 64 else length keys * b) + 7) div 8 + 1"
  by (simp add: bloom_CreateFilter_def Let_def)

lemma test_array_bit_append: "p div 8 < length a \<Longrightarrow> test_array_bit p (a @ b) \<longleftrightarrow> test_array_bit p a"
  by (simp add: test_array_bit_def nth_append)

lemma test_probes_append:
  "length a = n \<Longrightarrow> 0 < n \<Longrightarrow> test_probes (n * 8) delta k h (a @ b) \<longleftrightarrow> test_probes (n * 8) delta k h a"
  by (induction k arbitrary: h) (simp_all add: test_array_bit_append probe_in_range)

lemma bloom_k_range: "1 \<le> bloom_k b" "bloom_k b \<le> 30"
  by (simp_all add: bloom_k_def Let_def)

lemma bloom_no_false_negative:
  assumes "key \<in> set keys"
  shows "bloom_KeyMayMatch key (bloom_CreateFilter b keys [])"
proof -
  define n where "n = ((if length keys * b < 64 then 64 else length keys * b) + 7) div 8"
  define a where "a = fold (\<lambda>key. set_probes (n * 8) (bloom_delta (BloomHash key)) (bloom_k b) (BloomHash key)) keys (replicate n (chr8 0))"
  have "0 < ((if m < 64 then 64 else m) + 7) div 8" for m :: nat by (cases "m < 64") (simp_all add: div_greater_zero_iff)
  then have n: "0 < n" by (simp only: n_def)
  have l: "length a = n" by (simp add: a_def)
  have f: "bloom_CreateFilter b keys [] = a @ [char_of (bloom_k b)]" by (simp add: bloom_CreateFilter_def Let_def a_def n_def)
  have k: "of_char (char_of (bloom_k b)) = bloom_k b" using bloom_k_range(2) [of b] by simp
  have "test_probes (n * 8) (bloom_delta (BloomHash key)) (bloom_k b) (BloomHash key) a"
    by (rule fold_set_probes [OF _ n assms, of "replicate n (chr8 0)"]) (simp_all add: a_def)
  then show ?thesis using l n k by (simp add: f bloom_KeyMayMatch_def Let_def nth_append test_probes_append)
qed

interpretation bloom_policy: filter_policy "bloom_CreateFilter b" bloom_KeyMayMatch for b
  by unfold_locales (simp_all add: bloom_no_false_negative, simp add: bloom_CreateFilter_def Let_def)

text \<open>The policy on internal keys passes the user keys on (\<^verbatim>\<open>db/dbformat.cc\<close>).\<close>

context filter_policy
begin

lemma internal: "filter_policy (InternalFilterPolicy_CreateFilter CreateFilter) (InternalFilterPolicy_KeyMayMatch KeyMayMatch)"
  by unfold_locales
    (simp_all add: InternalFilterPolicy_CreateFilter_def InternalFilterPolicy_KeyMayMatch_def may_match
      CreateFilter_appends [symmetric])

end

interpretation internal_bloom: filter_policy "InternalFilterPolicy_CreateFilter (bloom_CreateFilter b)"
    "InternalFilterPolicy_KeyMayMatch bloom_KeyMayMatch" for b
  by (rule bloom_policy.internal)

section \<open>Properties\<close>

text \<open>
  The built-in Bloom filter has no false negative: whatever the number of bits per key, a
  filter made from a list of keys matches each of them.
\<close>

theorem builtin_bloom_no_false_negative:
  assumes "key \<in> set keys"
  shows "bloom_KeyMayMatch key (bloom_CreateFilter bits_per_key keys [])"
  using assms by (rule bloom_no_false_negative)

theorem builtin_bloom_no_false_negative_witness:
  "bloom_KeyMayMatch ''b'' (bloom_CreateFilter 10 [''a'', ''b''] [])"
  by (rule builtin_bloom_no_false_negative) simp

end
