(* ===== verification/Filter_Block.thy ===== *)
theory Filter_Block
  imports Bloom_Policy
begin

text \<open>
  \<^verbatim>\<open>src/leveldb/table/filter_block.cc\<close>: one filter for every 2 KiB of table file.  The builder keeps
  the pending keys flattened in one string with their start offsets, as the source does;
  \<open>fb_rep\<close> relates it to the list of key lists of the finished filters and the list of pending
  keys.  The client lemmas are proved in the locale \<open>filter_policy\<close>, for every policy without
  false negatives.
\<close>

section \<open>The builder\<close>

definition kFilterBaseLg :: nat where
  "kFilterBaseLg = 11"

definition kFilterBase :: nat where
  "kFilterBase = 2 ^ kFilterBaseLg"

record FilterBlockBuilder =
  fb_keys :: string
  fb_start :: "nat list"
  fb_result :: string
  fb_offsets :: "u32 list"

definition FilterBlockBuilder_new :: FilterBlockBuilder where
  "FilterBlockBuilder_new = \<lparr>fb_keys = [], fb_start = [], fb_result = [], fb_offsets = []\<rparr>"

definition GenerateFilter :: "(string list \<Rightarrow> string \<Rightarrow> string) \<Rightarrow> FilterBlockBuilder \<Rightarrow> FilterBlockBuilder" where
  "GenerateFilter create fb =
     (let num_keys = length (fb_start fb)
      in if num_keys = 0 then fb\<lparr>fb_offsets := fb_offsets fb @ [of_nat (length (fb_result fb))]\<rparr>
         else
           let start = fb_start fb @ [length (fb_keys fb)];
               tmp_keys = map (\<lambda>i. take (start ! (i + 1) - start ! i) (drop (start ! i) (fb_keys fb))) [0..<num_keys]
           in fb\<lparr>fb_offsets := fb_offsets fb @ [of_nat (length (fb_result fb))],
                 fb_result := create tmp_keys (fb_result fb), fb_keys := [], fb_start := []\<rparr>)"

definition fb_StartBlock :: "(string list \<Rightarrow> string \<Rightarrow> string) \<Rightarrow> nat \<Rightarrow> FilterBlockBuilder \<Rightarrow> FilterBlockBuilder" where
  "fb_StartBlock create block_offset fb =
     (let filter_index = block_offset div kFilterBase
      in (GenerateFilter create ^^ (filter_index - length (fb_offsets fb))) fb)"

definition fb_AddKey :: "string \<Rightarrow> FilterBlockBuilder \<Rightarrow> FilterBlockBuilder" where
  "fb_AddKey k fb = fb\<lparr>fb_start := fb_start fb @ [length (fb_keys fb)], fb_keys := fb_keys fb @ k\<rparr>"

definition fb_Finish :: "(string list \<Rightarrow> string \<Rightarrow> string) \<Rightarrow> FilterBlockBuilder \<Rightarrow> string \<times> FilterBlockBuilder" where
  "fb_Finish create fb =
     (let fb1 = (if fb_start fb \<noteq> [] then GenerateFilter create fb else fb);
          array_offset = of_nat (length (fb_result fb1));
          r = fold (\<lambda>off r. PutFixed32 r off) (fb_offsets fb1) (fb_result fb1);
          r' = PutFixed32 r array_offset @ [char_of kFilterBaseLg]
      in (r', fb1\<lparr>fb_result := r'\<rparr>))"

section \<open>The reader\<close>

record FilterBlockReader =
  fr_data :: string
  fr_offset :: nat
  fr_num :: nat
  fr_base_lg :: nat

definition FilterBlockReader_new :: "string \<Rightarrow> FilterBlockReader" where
  "FilterBlockReader_new contents =
     (let n = length contents
      in if n < 5 then \<lparr>fr_data = [], fr_offset = 0, fr_num = 0, fr_base_lg = 0\<rparr>
         else let base_lg = of_char (contents ! (n - 1));
                  last_word = unat (DecodeFixed32 (drop (n - 5) contents))
              in if n - 5 < last_word then \<lparr>fr_data = [], fr_offset = 0, fr_num = 0, fr_base_lg = base_lg\<rparr>
                 else \<lparr>fr_data = contents, fr_offset = last_word, fr_num = (n - 5 - last_word) div 4, fr_base_lg = base_lg\<rparr>)"

definition fr_KeyMayMatch :: "(string \<Rightarrow> string \<Rightarrow> bool) \<Rightarrow> FilterBlockReader \<Rightarrow> nat \<Rightarrow> string \<Rightarrow> bool" where
  "fr_KeyMayMatch may_match fr block_offset key =
     (let index = block_offset div 2 ^ fr_base_lg fr
      in if index < fr_num fr then
           let start = unat (DecodeFixed32 (drop (fr_offset fr + index * 4) (fr_data fr)));
               limit = unat (DecodeFixed32 (drop (fr_offset fr + index * 4 + 4) (fr_data fr)))
           in if start \<le> limit \<and> limit \<le> fr_offset fr then may_match key (take (limit - start) (drop start (fr_data fr)))
              else if start = limit then False
              else True
         else True)"

text \<open>The calls that \<^verbatim>\<open>TableBuilder\<close> makes: per data block its offset, then its keys.\<close>

definition fb_run :: "(string list \<Rightarrow> string \<Rightarrow> string) \<Rightarrow> (nat \<times> string list) list \<Rightarrow> FilterBlockBuilder \<Rightarrow> FilterBlockBuilder" where
  "fb_run create = fold (\<lambda>(off, ks) fb. fold fb_AddKey ks (fb_StartBlock create off fb))"

section \<open>What the builder holds\<close>

definition starts :: "string list \<Rightarrow> nat list" where
  "starts ks = map (\<lambda>i. length (concat (take i ks))) [0..<length ks]"

definition filt :: "(string list \<Rightarrow> string \<Rightarrow> string) \<Rightarrow> string list \<Rightarrow> string" where
  "filt create g = (if g = [] then [] else create g [])"

definition fb_rep :: "(string list \<Rightarrow> string \<Rightarrow> string) \<Rightarrow> FilterBlockBuilder \<Rightarrow> string list list \<Rightarrow> string list \<Rightarrow> bool" where
  "fb_rep create fb gs ks \<longleftrightarrow>
     fb_keys fb = concat ks \<and> fb_start fb = starts ks \<and> fb_result fb = concat (map (filt create) gs) \<and>
     fb_offsets fb = map of_nat (starts (map (filt create) gs))"

text \<open>The keys added in the block at an offset are in the filter of that offset.\<close>

definition recorded :: "string list list \<Rightarrow> string list \<Rightarrow> (nat \<times> string list) list \<Rightarrow> bool" where
  "recorded gs ks hist \<longleftrightarrow> (\<forall>(off, js) \<in> set hist. off div kFilterBase \<le> length gs \<and> set js \<subseteq> set ((gs @ [ks]) ! (off div kFilterBase)))"

lemma starts_le:
  assumes "j < length fs"
  shows "starts fs ! j \<le> length (concat fs)"
proof -
  have "concat fs = concat (take j fs) @ concat (drop j fs)" by (metis append_take_drop_id concat_append)
  then show ?thesis using assms by (simp add: starts_def)
qed

lemma starts_mono:
  assumes "i < length fs"
  shows "(starts fs @ [length (concat fs)]) ! i \<le> (starts fs @ [length (concat fs)]) ! (i + 1)"
proof -
  have s: "starts fs @ [length (concat fs)] = map (\<lambda>i. length (concat (take i fs))) [0..<Suc (length fs)]" by (simp add: starts_def)
  show ?thesis unfolding s using assms by (simp add: take_Suc_conv_app_nth del: upt_Suc)
qed

lemma starts_snoc: "starts (xs @ [x]) = starts xs @ [length (concat xs)]"
  by (auto simp: starts_def)

lemma starts_piece:
  assumes "i < length ks"
  shows "take ((starts ks @ [length (concat ks)]) ! (i + 1) - (starts ks @ [length (concat ks)]) ! i)
      (drop ((starts ks @ [length (concat ks)]) ! i) (concat ks)) = ks ! i"
proof -
  have s: "starts ks @ [length (concat ks)] = map (\<lambda>i. length (concat (take i ks))) [0..<Suc (length ks)]" by (simp add: starts_def)
  have c: "concat ks = concat (take i ks) @ ks ! i @ concat (drop (Suc i) ks)"
    using assms by (metis concat.simps(2) concat_append id_take_nth_drop)
  have t: "concat (take (Suc i) ks) = concat (take i ks) @ ks ! i" using assms by (simp add: take_Suc_conv_app_nth)
  have n: "(starts ks @ [length (concat ks)]) ! (i + 1) = length (concat (take i ks)) + length (ks ! i)"
    "(starts ks @ [length (concat ks)]) ! i = length (concat (take i ks))"
    unfolding s using assms t by (simp_all del: upt_Suc)
  show ?thesis unfolding n by (subst c) simp
qed

lemma length_starts [simp]: "length (starts ks) = length ks"
  by (simp add: starts_def)

context filter_policy
begin

lemma rep_Generate:
  assumes "fb_rep CreateFilter fb gs ks"
  shows "fb_rep CreateFilter (GenerateFilter CreateFilter fb) (gs @ [ks]) []"
proof (cases "ks = []")
  case True
  then show ?thesis using assms by (simp add: fb_rep_def GenerateFilter_def starts_snoc filt_def)
next
  case False
  let ?start = "fb_start fb @ [length (fb_keys fb)]"
  have "map (\<lambda>i. take (?start ! (i + 1) - ?start ! i) (drop (?start ! i) (fb_keys fb))) [0..<length (fb_start fb)] = map ((!) ks) [0..<length ks]"
    using assms starts_piece [of _ ks] by (auto simp: fb_rep_def)
  then have "map (\<lambda>i. take (?start ! (i + 1) - ?start ! i) (drop (?start ! i) (fb_keys fb))) [0..<length (fb_start fb)] = ks"
    by (simp only: map_nth)
  then have "GenerateFilter CreateFilter fb = fb\<lparr>fb_offsets := fb_offsets fb @ [of_nat (length (fb_result fb))],
                 fb_result := CreateFilter ks (fb_result fb), fb_keys := [], fb_start := []\<rparr>"
    using assms False unfolding GenerateFilter_def Let_def by (simp add: fb_rep_def)
  then show ?thesis
    using assms False CreateFilter_appends [of ks "fb_result fb"] by (simp add: fb_rep_def filt_def starts_snoc) (simp add: starts_def)
qed

lemma rep_Generate_n:
  "fb_rep CreateFilter fb gs ks \<Longrightarrow>
   fb_rep CreateFilter ((GenerateFilter CreateFilter ^^ Suc n) fb) (gs @ [ks] @ replicate n []) []"
proof (induction n)
  case 0
  then show ?case using rep_Generate by simp
next
  case (Suc n)
  from rep_Generate [OF Suc.IH [OF Suc.prems]] show ?case by (simp add: replicate_append_same)
qed

lemma rep_length: "fb_rep CreateFilter fb gs ks \<Longrightarrow> length (fb_offsets fb) = length gs"
  by (simp add: fb_rep_def)

lemma rep_AddKeys: "fb_rep CreateFilter fb gs ks \<Longrightarrow> fb_rep CreateFilter (fold fb_AddKey js fb) gs (ks @ js)"
proof (induction js arbitrary: fb ks)
  case (Cons j js)
  have "fb_rep CreateFilter (fb_AddKey j fb) gs (ks @ [j])" using Cons.prems by (simp add: fb_rep_def fb_AddKey_def starts_snoc)
  from Cons.IH [OF this] show ?case by simp
qed simp

lemma rep_block:
  assumes rep: "fb_rep CreateFilter fb gs ks" and rec: "recorded gs ks hist" and le: "length gs \<le> off div kFilterBase"
  shows "\<exists>gs' ks'. fb_rep CreateFilter (fold fb_AddKey js (fb_StartBlock CreateFilter off fb)) gs' ks' \<and>
     recorded gs' ks' (hist @ [(off, js)]) \<and> length gs' = off div kFilterBase"
proof (cases "off div kFilterBase = length gs")
  case True
  then have "fb_StartBlock CreateFilter off fb = fb" using rep_length [OF rep] by (simp add: fb_StartBlock_def)
  then have "fb_rep CreateFilter (fold fb_AddKey js (fb_StartBlock CreateFilter off fb)) gs (ks @ js)" using rep_AddKeys [OF rep] by simp
  moreover have "recorded gs (ks @ js) (hist @ [(off, js)])"
    using rec True by (fastforce simp: recorded_def nth_append)
  ultimately show ?thesis using True by metis
next
  case False
  define n where "n = off div kFilterBase - length gs - 1"
  have n: "off div kFilterBase - length (fb_offsets fb) = Suc n" "length gs + Suc n = off div kFilterBase"
    using False le rep_length [OF rep] by (auto simp: n_def)
  let ?gs = "gs @ [ks] @ replicate n []"
  have "fb_rep CreateFilter (fb_StartBlock CreateFilter off fb) ?gs []"
    using rep_Generate_n [OF rep, of n] unfolding fb_StartBlock_def Let_def n(1) .
  from rep_AddKeys [OF this, of js] have "fb_rep CreateFilter (fold fb_AddKey js (fb_StartBlock CreateFilter off fb)) ?gs js" by simp
  moreover have "recorded ?gs js (hist @ [(off, js)])"
    using rec n(2) by (fastforce simp: recorded_def nth_append split: if_splits)
  moreover have "length ?gs = off div kFilterBase" using n(2) by simp
  ultimately show ?thesis by metis
qed

lemma rep_Finish_contents:
  assumes "fb_rep CreateFilter fb gs []"
  shows "fst (fb_Finish CreateFilter fb) = concat (map (filt CreateFilter) gs) @
      concat (map EncodeFixed32 (map of_nat (starts (map (filt CreateFilter) gs) @ [length (concat (map (filt CreateFilter) gs))]))) @
      [char_of kFilterBaseLg]"
  using assms by (simp add: fb_Finish_def Let_def fb_rep_def starts_def fold_PutFixed32 PutFixed32_def [of "_ @ _"])

lemma reader_match:
  assumes rep: "fb_rep CreateFilter fb gs []" and len: "length (fst (fb_Finish CreateFilter fb)) < 2 ^ 32"
    and i: "off div kFilterBase < length gs" and key: "key \<in> set (gs ! (off div kFilterBase))"
  shows "fr_KeyMayMatch KeyMayMatch (FilterBlockReader_new (fst (fb_Finish CreateFilter fb))) off key"
proof -
  define fs where "fs = map (filt CreateFilter) gs"
  define R where "R = concat fs"
  define offs where "offs = starts fs @ [length R]"
  define B where "B = concat (map EncodeFixed32 (map of_nat offs))"
  define c where "c = R @ B @ [char_of kFilterBaseLg]"
  define i where "i = off div kFilterBase"
  have fin: "fst (fb_Finish CreateFilter fb) = c"
    using rep_Finish_contents [OF rep] by (simp add: c_def B_def offs_def R_def fs_def)
  have il: "i < length fs" and ne: "gs ! i \<noteq> []" using i key by (auto simp: i_def fs_def)
  have lB: "length B = 4 * length offs" by (simp add: B_def length_concat comp_def sum_list_triv)
  have lo: "length offs = length fs + 1" by (simp add: offs_def)
  have lc: "length c = length R + 4 * length fs + 5" by (simp add: c_def lB lo)
  have lR: "length R < 2 ^ 32" using len lc by (simp add: fin)
  have ole: "offs ! j \<le> length R" if "j < length offs" for j
    using that starts_le [of j fs] by (auto simp: offs_def R_def nth_append)
  have word: "unat (DecodeFixed32 (drop (length R + j * 4) c)) = offs ! j" if "j < length offs" for j
    using drop_fixed32s [of j "map of_nat offs" "[char_of kFilterBaseLg]"] that unat_of_nat_u32 [OF le_less_trans [OF ole [OF that] lR]]
    by (simp add: c_def B_def)
  have "offs ! length fs = length R" by (simp add: offs_def nth_append)
  then have last: "unat (DecodeFixed32 (drop (length c - 5) c)) = length R"
    using word [of "length fs"] lo by (simp add: lc mult.commute)
  have "c ! (length c - 1) = char_of kFilterBaseLg" using lc lB lo by (simp add: c_def nth_append)
  then have rd: "FilterBlockReader_new c = \<lparr>fr_data = c, fr_offset = length R, fr_num = length fs, fr_base_lg = kFilterBaseLg\<rparr>"
    using last lc by (simp add: FilterBlockReader_new_def Let_def kFilterBaseLg_def)
  have "fs ! i = CreateFilter (gs ! i) []" using il ne by (simp add: fs_def filt_def)
  then have m: "KeyMayMatch key (fs ! i)" using key may_match by (simp add: i_def)
  have piece: "take (offs ! (i + 1) - offs ! i) (drop (offs ! i) R) = fs ! i"
    using starts_piece [OF il] by (simp add: offs_def R_def)
  have mono: "offs ! i \<le> offs ! (i + 1)" "offs ! (i + 1) \<le> length R"
    using il lo ole [of "i + 1"] starts_mono [OF il] by (auto simp: offs_def R_def)
  have "take (offs ! (i + 1) - offs ! i) (drop (offs ! i) c) = fs ! i"
    using piece mono by (simp add: c_def)
  moreover have "length R + i * 4 + 4 = length R + (i + 1) * 4" by simp
  ultimately show ?thesis
    using word [of i] word [of "i + 1"] il lo mono m
    by (simp del: add_mult_distrib mult_Suc add: fin rd fr_KeyMayMatch_def Let_def kFilterBase_def [symmetric] i_def [symmetric] add.assoc)
qed

lemma rep_run:
  assumes "fb_rep CreateFilter fb gs ks" "recorded gs ks h0" "sorted (map fst hist)" "\<forall>(off, js) \<in> set hist. length gs \<le> off div kFilterBase"
  shows "\<exists>gs' ks'. fb_rep CreateFilter (fb_run CreateFilter hist fb) gs' ks' \<and> recorded gs' ks' (h0 @ hist)"
  using assms
proof (induction hist arbitrary: fb gs ks h0)
  case Nil
  then show ?case by (auto simp: fb_run_def)
next
  case (Cons x hist)
  obtain off js where x: "x = (off, js)" by (cases x)
  from rep_block [OF Cons.prems(1,2), of off js] Cons.prems(4) x obtain gs' ks' where
    1: "fb_rep CreateFilter (fold fb_AddKey js (fb_StartBlock CreateFilter off fb)) gs' ks'"
       "recorded gs' ks' (h0 @ [(off, js)])" "length gs' = off div kFilterBase" by auto
  have "\<forall>(o', j') \<in> set hist. length gs' \<le> o' div kFilterBase"
    using Cons.prems(3) x 1(3) by (auto simp: div_le_mono)
  from Cons.IH [OF 1(1,2) _ this] Cons.prems(3) x show ?case by (simp add: fb_run_def)
qed

lemma Finish_generates:
  assumes "fb_rep CreateFilter fb gs ks"
  shows "\<exists>fb' gs'. fst (fb_Finish CreateFilter fb) = fst (fb_Finish CreateFilter fb') \<and> fb_rep CreateFilter fb' gs' [] \<and>
     gs' = (if ks = [] then gs else gs @ [ks])"
proof (cases "ks = []")
  case False
  then have "fb_start fb \<noteq> []" "fb_start (GenerateFilter CreateFilter fb) = []"
    using assms rep_Generate [OF assms] by (auto simp: fb_rep_def starts_def)
  then show ?thesis using rep_Generate [OF assms] False by (auto simp: fb_Finish_def Let_def intro!: exI [of _ "GenerateFilter CreateFilter fb"])
qed (use assms in auto)

lemma filter_block_match:
  assumes "sorted (map fst hist)" "(off, ks) \<in> set hist" "key \<in> set ks"
    and "blk = fst (fb_Finish CreateFilter (fb_run CreateFilter hist FilterBlockBuilder_new))" "length blk < 2 ^ 32"
  shows "fr_KeyMayMatch KeyMayMatch (FilterBlockReader_new blk) off key"
proof -
  have "fb_rep CreateFilter FilterBlockBuilder_new [] []" by (simp add: fb_rep_def FilterBlockBuilder_new_def starts_def)
  from rep_run [OF this, of "[]" hist] assms(1) obtain gs' ks' where
    r: "fb_rep CreateFilter (fb_run CreateFilter hist FilterBlockBuilder_new) gs' ks'" "recorded gs' ks' hist"
    by (auto simp: recorded_def)
  then have i: "off div kFilterBase \<le> length gs'" "key \<in> set ((gs' @ [ks']) ! (off div kFilterBase))"
    using assms(2,3) by (auto simp: recorded_def)
  from Finish_generates [OF r(1)] obtain fb' gs1 where
    f: "blk = fst (fb_Finish CreateFilter fb')" "fb_rep CreateFilter fb' gs1 []" "gs1 = (if ks' = [] then gs' else gs' @ [ks'])"
    using assms(4) by auto
  have "off div kFilterBase < length gs1 \<and> key \<in> set (gs1 ! (off div kFilterBase))"
    using i f(3) by (auto simp: nth_append split: if_splits)
  then show ?thesis using reader_match [OF f(2)] f(1) assms(5) by simp
qed

end

section \<open>Properties\<close>

text \<open>
  C19: the filter block of a table never hides a key.  For blocks at increasing offsets, each with
  the keys added to it, the reader of the finished filter block answers that every key may be
  in the block that it was added to; here for the built-in policy on internal keys.
\<close>

theorem filter_block_no_false_negative:
  assumes "sorted (map fst hist)" "(off, ks) \<in> set hist" "key \<in> set ks"
    and "blk = fst (fb_Finish (InternalFilterPolicy_CreateFilter (bloom_CreateFilter b))
           (fb_run (InternalFilterPolicy_CreateFilter (bloom_CreateFilter b)) hist FilterBlockBuilder_new))"
    and "length blk < 2 ^ 32"
  shows "fr_KeyMayMatch (InternalFilterPolicy_KeyMayMatch bloom_KeyMayMatch) (FilterBlockReader_new blk) off key"
  using assms by (rule internal_bloom.filter_block_match)

theorem filter_block_no_false_negative_witness:
  "fr_KeyMayMatch (InternalFilterPolicy_KeyMayMatch bloom_KeyMayMatch)
     (FilterBlockReader_new (fst (fb_Finish (InternalFilterPolicy_CreateFilter (bloom_CreateFilter 10))
        (fb_run (InternalFilterPolicy_CreateFilter (bloom_CreateFilter 10)) [(0, [''k1234567x'']), (4500, [''m12345678''])] FilterBlockBuilder_new))))
     4500 ''m12345678''"
proof -
  have k: "4500 div kFilterBase = 2" by (simp add: kFilterBase_def kFilterBaseLg_def)
  have two: "(f ^^ 2) x = f (f x)" for f :: "FilterBlockBuilder \<Rightarrow> FilterBlockBuilder" and x by (simp add: numeral_2_eq_2)
  have "length (fst (fb_Finish (InternalFilterPolicy_CreateFilter (bloom_CreateFilter 10))
        (fb_run (InternalFilterPolicy_CreateFilter (bloom_CreateFilter 10)) [(0, [''k1234567x'']), (4500, [''m12345678''])] FilterBlockBuilder_new))) < 100"
    by (simp add: fb_run_def fb_StartBlock_def k two FilterBlockBuilder_new_def fb_AddKey_def
        GenerateFilter_def fb_Finish_def Let_def PutFixed32_def InternalFilterPolicy_CreateFilter_def
        length_bloom_CreateFilter cong: if_cong)
  then show ?thesis
    by (intro filter_block_no_false_negative [where hist = "[(0, [''k1234567x'']), (4500, [''m12345678''])]" and ks = "[''m12345678'']" and b = 10]) simp_all
qed

end
