(* ===== verification/Table_Builder.thy ===== *)
theory Table_Builder
  imports Block Filter_Block
begin

text \<open>
  \<^verbatim>\<open>src/leveldb/table/table_builder.cc\<close>: data blocks, the filter block, the metaindex block, the index
  block and the footer, appended to one file.  Appends write through, so that \<^verbatim>\<open>Flush\<close> of the
  file has nothing left to write and succeeds; an append fails when the file is full.  File
  offsets are natural numbers.  A comparator carries the address by which \<^verbatim>\<open>ChangeOptions\<close>
  compares comparators.

  \<open>tb_inv\<close> is the invariant of a builder without errors: which data blocks are in the file and
  under which handles, what the open data block and the index block hold, and that an index
  entry is pending only while the open block is empty.
\<close>

section \<open>Options\<close>

record Comparator =
  cmp_addr :: nat
  cmp_Compare :: "string \<Rightarrow> string \<Rightarrow> int"
  cmp_FindShortestSeparator :: "string \<Rightarrow> string \<Rightarrow> string"
  cmp_FindShortSuccessor :: "string \<Rightarrow> string"

record FilterPolicy =
  fp_Name :: string
  fp_CreateFilter :: "string list \<Rightarrow> string \<Rightarrow> string"
  fp_KeyMayMatch :: "string \<Rightarrow> string \<Rightarrow> bool"

text \<open>The environment, the logger and the block cache are not part of the options of the model.\<close>

record Options =
  opt_comparator :: Comparator
  opt_create_if_missing :: bool
  opt_error_if_exists :: bool
  opt_paranoid_checks :: bool
  opt_write_buffer_size :: nat
  opt_max_open_files :: int
  opt_block_size :: nat
  opt_block_restart_interval :: nat
  opt_max_file_size :: nat
  opt_compression :: CompressionType
  opt_zstd_compression_level :: int
  opt_reuse_logs :: bool
  opt_filter_policy :: "FilterPolicy option"

section \<open>The builder\<close>

record TableBuilder =
  tb_options :: Options
  tb_file :: wfile
  tb_offset :: nat
  tb_status :: Status
  tb_data_block :: BlockBuilder
  tb_index_block :: BlockBuilder
  tb_last_key :: string
  tb_num_entries :: nat
  tb_closed :: bool
  tb_filter_block :: "FilterBlockBuilder option"
  tb_pending_index_entry :: bool
  tb_pending_handle :: BlockHandle

definition fp_create :: "Options \<Rightarrow> string list \<Rightarrow> string \<Rightarrow> string" where
  "fp_create opt = (case opt_filter_policy opt of None \<Rightarrow> (\<lambda>_ dst. dst) | Some fp \<Rightarrow> fp_CreateFilter fp)"

definition TableBuilder_new :: "Options \<Rightarrow> wfile \<Rightarrow> TableBuilder" where
  "TableBuilder_new opt f =
     \<lparr>tb_options = opt, tb_file = f, tb_offset = 0, tb_status = OK,
      tb_data_block = BlockBuilder_new (opt_block_restart_interval opt), tb_index_block = BlockBuilder_new 1,
      tb_last_key = [], tb_num_entries = 0, tb_closed = False,
      tb_filter_block = (case opt_filter_policy opt of None \<Rightarrow> None
                         | Some fp \<Rightarrow> Some (fb_StartBlock (fp_CreateFilter fp) 0 FilterBlockBuilder_new)),
      tb_pending_index_entry = False, tb_pending_handle = BlockHandle_new\<rparr>"

definition tb_ChangeOptions :: "Options \<Rightarrow> TableBuilder \<Rightarrow> Status \<times> TableBuilder" where
  "tb_ChangeOptions opt tb =
     (if cmp_addr (opt_comparator opt) \<noteq> cmp_addr (opt_comparator (tb_options tb))
      then (InvalidArgument ''changing comparator while building table'', tb)
      else (OK, tb\<lparr>tb_options := opt,
                   tb_data_block := (tb_data_block tb)\<lparr>bb_interval := opt_block_restart_interval opt\<rparr>,
                   tb_index_block := (tb_index_block tb)\<lparr>bb_interval := 1\<rparr>\<rparr>))"

definition tb_ok :: "TableBuilder \<Rightarrow> bool" where
  "tb_ok tb = Status_ok (tb_status tb)"

definition WriteRawBlock :: "string \<Rightarrow> CompressionType \<Rightarrow> TableBuilder \<Rightarrow> BlockHandle \<times> TableBuilder" where
  "WriteRawBlock block_contents type tb =
     (let handle = \<lparr>bh_offset = of_nat (tb_offset tb), bh_size = of_nat (length block_contents)\<rparr>;
          (s1, f1) = wf_Append (tb_file tb) block_contents
      in if Status_ok s1 then
           let t = char_of (CompressionType_num type);
               crc = crc32c_Extend (crc32c_Value block_contents) [t];
               trailer = t # EncodeFixed32 (Mask crc);
               (s2, f2) = wf_Append f1 trailer
           in (handle, tb\<lparr>tb_file := f2, tb_status := s2,
                 tb_offset := (if Status_ok s2 then tb_offset tb + length block_contents + kBlockTrailerSize else tb_offset tb)\<rparr>)
         else (handle, tb\<lparr>tb_file := f1, tb_status := s1\<rparr>))"

text \<open>The contents that are written for a raw block, and their type.\<close>

definition compress_block :: "codecs \<Rightarrow> CompressionType \<Rightarrow> string \<Rightarrow> string \<times> CompressionType" where
  "compress_block cd type raw =
     (case type of
        kNoCompression \<Rightarrow> (raw, kNoCompression)
      | kSnappyCompression \<Rightarrow>
          (case Snappy_Compress cd raw of
             Some c \<Rightarrow> if length c < length raw - length raw div 8 then (c, kSnappyCompression) else (raw, kNoCompression)
           | None \<Rightarrow> (raw, kNoCompression))
      | kZstdCompression \<Rightarrow>
          (case Zstd_Compress cd raw of
             Some c \<Rightarrow> if length c < length raw - length raw div 8 then (c, kZstdCompression) else (raw, kNoCompression)
           | None \<Rightarrow> (raw, kNoCompression)))"

definition WriteBlock :: "codecs \<Rightarrow> BlockBuilder \<Rightarrow> TableBuilder \<Rightarrow> BlockHandle \<times> BlockBuilder \<times> TableBuilder" where
  "WriteBlock cd block tb =
     (let (raw, block1) = bb_Finish block;
          (contents, type) = compress_block cd (opt_compression (tb_options tb)) raw;
          (handle, tb1) = WriteRawBlock contents type tb
      in (handle, bb_Reset block1, tb1))"

definition tb_Flush :: "codecs \<Rightarrow> TableBuilder \<Rightarrow> TableBuilder" where
  "tb_Flush cd tb =
     (if \<not> tb_ok tb then tb
      else if bb_empty (tb_data_block tb) then tb
      else
        let (handle, data, tb1) = WriteBlock cd (tb_data_block tb) tb;
            tb2 = tb1\<lparr>tb_data_block := data, tb_pending_handle := handle\<rparr>;
            tb3 = (if tb_ok tb2 then tb2\<lparr>tb_pending_index_entry := True, tb_status := OK\<rparr> else tb2)
        in tb3\<lparr>tb_filter_block := map_option (fb_StartBlock (fp_create (tb_options tb3)) (tb_offset tb3)) (tb_filter_block tb3)\<rparr>)"

definition add_index_entry :: "string \<Rightarrow> TableBuilder \<Rightarrow> TableBuilder" where
  "add_index_entry key tb =
     tb\<lparr>tb_last_key := key,
        tb_index_block := bb_Add key (BlockHandle_EncodeTo (tb_pending_handle tb) []) (tb_index_block tb),
        tb_pending_index_entry := False\<rparr>"

definition tb_Add :: "codecs \<Rightarrow> string \<Rightarrow> string \<Rightarrow> TableBuilder \<Rightarrow> TableBuilder" where
  "tb_Add cd key value tb =
     (if \<not> tb_ok tb then tb
      else
        let tb1 = (if tb_pending_index_entry tb
                   then add_index_entry (cmp_FindShortestSeparator (opt_comparator (tb_options tb)) (tb_last_key tb) key) tb
                   else tb);
            tb2 = tb1\<lparr>tb_filter_block := map_option (fb_AddKey key) (tb_filter_block tb1),
                      tb_last_key := key, tb_num_entries := tb_num_entries tb1 + 1,
                      tb_data_block := bb_Add key value (tb_data_block tb1)\<rparr>;
            estimated_block_size = bb_CurrentSizeEstimate (tb_data_block tb2)
        in if opt_block_size (tb_options tb2) \<le> estimated_block_size then tb_Flush cd tb2 else tb2)"

text \<open>The three blocks and the footer that \<^verbatim>\<open>Finish\<close> writes, each only if all is well so far.\<close>

definition write_filter :: "TableBuilder \<Rightarrow> BlockHandle \<times> TableBuilder" where
  "write_filter tb =
     (case tb_filter_block tb of
        Some fb \<Rightarrow>
          if tb_ok tb then
            let (contents, fb1) = fb_Finish (fp_create (tb_options tb)) fb
            in WriteRawBlock contents kNoCompression (tb\<lparr>tb_filter_block := Some fb1\<rparr>)
          else (BlockHandle_new, tb)
      | None \<Rightarrow> (BlockHandle_new, tb))"

definition filter_key :: "Options \<Rightarrow> string" where
  "filter_key opt = ''filter.'' @ (case opt_filter_policy opt of None \<Rightarrow> [] | Some fp \<Rightarrow> fp_Name fp)"

definition write_metaindex :: "codecs \<Rightarrow> BlockHandle \<Rightarrow> TableBuilder \<Rightarrow> BlockHandle \<times> TableBuilder" where
  "write_metaindex cd filter_handle tb =
     (if tb_ok tb then
        let meta = BlockBuilder_new (opt_block_restart_interval (tb_options tb));
            meta1 = (if tb_filter_block tb \<noteq> None
                     then bb_Add (filter_key (tb_options tb)) (BlockHandle_EncodeTo filter_handle []) meta else meta);
            (handle, b, tb1) = WriteBlock cd meta1 tb
        in (handle, tb1)
      else (BlockHandle_new, tb))"

definition write_index :: "codecs \<Rightarrow> TableBuilder \<Rightarrow> BlockHandle \<times> TableBuilder" where
  "write_index cd tb =
     (if tb_ok tb then
        let tb1 = (if tb_pending_index_entry tb
                   then add_index_entry (cmp_FindShortSuccessor (opt_comparator (tb_options tb)) (tb_last_key tb)) tb
                   else tb);
            (handle, b, tb2) = WriteBlock cd (tb_index_block tb1) tb1
        in (handle, tb2\<lparr>tb_index_block := b\<rparr>)
      else (BlockHandle_new, tb))"

definition write_footer :: "BlockHandle \<Rightarrow> BlockHandle \<Rightarrow> TableBuilder \<Rightarrow> TableBuilder" where
  "write_footer mh ih tb =
     (if tb_ok tb then
        let enc = Footer_EncodeTo \<lparr>metaindex_handle = mh, index_handle = ih\<rparr> [];
            (s, f) = wf_Append (tb_file tb) enc
        in tb\<lparr>tb_file := f, tb_status := s, tb_offset := (if Status_ok s then tb_offset tb + length enc else tb_offset tb)\<rparr>
      else tb)"

definition tb_Finish :: "codecs \<Rightarrow> TableBuilder \<Rightarrow> Status \<times> TableBuilder" where
  "tb_Finish cd tb =
     (let tb0 = (tb_Flush cd tb)\<lparr>tb_closed := True\<rparr>;
          (fh, tb1) = write_filter tb0;
          (mh, tb2) = write_metaindex cd fh tb1;
          (ih, tb3) = write_index cd tb2;
          tb4 = write_footer mh ih tb3
      in (tb_status tb4, tb4))"

definition tb_Abandon :: "TableBuilder \<Rightarrow> TableBuilder" where
  "tb_Abandon tb = tb\<lparr>tb_closed := True\<rparr>"

definition tb_NumEntries :: "TableBuilder \<Rightarrow> nat" where
  "tb_NumEntries tb = tb_num_entries tb"

definition tb_FileSize :: "TableBuilder \<Rightarrow> nat" where
  "tb_FileSize tb = tb_offset tb"

definition tb_Adds :: "codecs \<Rightarrow> (string \<times> string) list \<Rightarrow> TableBuilder \<Rightarrow> TableBuilder" where
  "tb_Adds cd = fold (\<lambda>(k, v). tb_Add cd k v)"

section \<open>Stored blocks\<close>

text \<open>
  What the compression libraries have to provide: uncompressing inverts compressing, and only
  inputs below 4 GiB are compressed.
\<close>

definition codec_ok :: "codecs \<Rightarrow> bool" where
  "codec_ok cd \<longleftrightarrow>
     (\<forall>raw c. Snappy_Compress cd raw = Some c \<longrightarrow>
        Snappy_GetUncompressedLength cd c = Some (length raw) \<and> Snappy_Uncompress cd c = Some raw \<and> length raw < 2 ^ 32) \<and>
     (\<forall>raw c. Zstd_Compress cd raw = Some c \<longrightarrow>
        Zstd_GetUncompressedLength cd c = Some (length raw) \<and> Zstd_Uncompress cd c = Some raw \<and> length raw < 2 ^ 32)"

definition block_trailer :: "CompressionType \<Rightarrow> string \<Rightarrow> string" where
  "block_trailer type contents =
     char_of (CompressionType_num type) # EncodeFixed32 (Mask (crc32c_Value (contents @ [char_of (CompressionType_num type)])))"

definition stored :: "codecs \<Rightarrow> string \<Rightarrow> BlockHandle \<Rightarrow> string \<Rightarrow> bool" where
  "stored cd data h raw \<longleftrightarrow>
     (\<exists>A B t contents type. compress_block cd t raw = (contents, type) \<and> data = A @ contents @ block_trailer type contents @ B \<and>
        h = \<lparr>bh_offset = of_nat (length A), bh_size = of_nat (length contents)\<rparr>)"

lemma stored_append: "stored cd data h raw \<Longrightarrow> stored cd (data @ more') h raw"
  unfolding stored_def by (metis append.assoc)

lemma length_block_trailer [simp]: "length (block_trailer t c) = 5"
  by (simp add: block_trailer_def)

lemma CompressionType_num_inj: "char_of (CompressionType_num a) = char_of (CompressionType_num b) \<longleftrightarrow> a = b"
  by (cases a; cases b) (simp_all add: CompressionType_num_def)

text \<open>Reading a stored block returns the raw block, checksums verified or not.\<close>

lemma compress_block_cases:
  assumes "codec_ok cd" "compress_block cd t raw = (contents, type)"
  shows "type = kNoCompression \<and> contents = raw
    \<or> type = kSnappyCompression \<and> Snappy_GetUncompressedLength cd contents = Some (length raw) \<and> Snappy_Uncompress cd contents = Some raw \<and> length raw < 2 ^ 32
    \<or> type = kZstdCompression \<and> Zstd_GetUncompressedLength cd contents = Some (length raw) \<and> Zstd_Uncompress cd contents = Some raw \<and> length raw < 2 ^ 32"
  using assms by (auto simp: codec_ok_def compress_block_def split: CompressionType.splits option.splits if_splits)

lemma ReadBlock_stored:
  assumes st: "stored cd data h raw" and ok: "codec_ok cd" and len: "length data < 2 ^ 32" and f: "ra_data file = data" "ra_status file = (\<lambda>_ _. OK)"
  shows "ReadBlock cd file verify h = Inr raw" "length raw < 2 ^ 32"
proof -
  obtain A B t contents type where c: "compress_block cd t raw = (contents, type)"
    and d: "data = A @ contents @ block_trailer type contents @ B"
    and h: "h = \<lparr>bh_offset = of_nat (length A), bh_size = of_nat (length contents)\<rparr>"
    using st unfolding stored_def by blast
  define n where "n = length contents"
  define b where "b = contents @ block_trailer type contents"
  have u: "unat (bh_size h) = n" "unat (bh_offset h) = length A"
    using len d by (simp_all add: h n_def unat_of_nat_u64)
  have r: "ra_Read file (length A) (n + 5) = Inr b"
    using f d by (simp add: ra_Read_def b_def n_def)
  have crc: "crc32c_Value (take (n + 1) b) = Unmask (DecodeFixed32 (drop (n + 1) b))"
    using DecodeFixed32_Encode [of _ "[]"] by (simp add: block_trailer_def Mask_Unmask b_def n_def)
  have ty: "b ! n = char_of (CompressionType_num type)" by (simp add: block_trailer_def nth_append b_def n_def)
  have tk: "take n b = contents" and lb: "length b = n + 5" by (simp_all add: b_def n_def)
  have rb: "ReadBlock cd file verify h =
     (if type = kNoCompression then Inr contents
      else if type = kSnappyCompression then
        (case Snappy_GetUncompressedLength cd contents of None \<Rightarrow> Inl (Corruption ''corrupted snappy compressed block length'')
         | Some ulength \<Rightarrow> (case Snappy_Uncompress cd contents of None \<Rightarrow> Inl (Corruption ''corrupted snappy compressed block contents'')
             | Some ubuf \<Rightarrow> Inr (resize ubuf ulength)))
      else if type = kZstdCompression then
        (case Zstd_GetUncompressedLength cd contents of None \<Rightarrow> Inl (Corruption ''corrupted zstd compressed block length'')
         | Some ulength \<Rightarrow> (case Zstd_Uncompress cd contents of None \<Rightarrow> Inl (Corruption ''corrupted zstd compressed block contents'')
             | Some ubuf \<Rightarrow> Inr (resize ubuf ulength)))
      else Inl (Corruption ''bad block type''))"
    unfolding ReadBlock_def u Let_def kBlockTrailerSize_def r sum.case ty CompressionType_num_inj tk crc lb
    by (simp only: simp_thms if_False)
  from compress_block_cases [OF ok c] show "ReadBlock cd file verify h = Inr raw"
    by (elim disjE conjE) (simp_all add: rb)
  show "length raw < 2 ^ 32" using compress_block_cases [OF ok c] len d by auto
qed

section \<open>What an append without error does\<close>

lemma Status_ok_mk [simp]: "\<not> Status_ok (mk_Status c m n)"
  by (simp add: mk_Status_def)

lemma wf_Append_ok: "Status_ok (fst (wf_Append f s)) \<longleftrightarrow> length s \<le> wf_space f"
  by (simp add: wf_Append_def)

lemma wf_Append_fits: "length s \<le> wf_space f \<Longrightarrow> wf_Append f s = (OK, f\<lparr>wf_data := wf_data f @ s, wf_space := wf_space f - length s\<rparr>)"
  by (simp add: wf_Append_def)

lemma WriteRawBlock_ok:
  assumes w: "WriteRawBlock contents type tb = (h, tb')" and ok: "tb_ok tb'"
  shows "h = \<lparr>bh_offset = of_nat (tb_offset tb), bh_size = of_nat (length contents)\<rparr>"
    "length contents + 5 \<le> wf_space (tb_file tb)"
    "tb' = tb\<lparr>tb_file := \<lparr>wf_data = wf_data (tb_file tb) @ contents @ block_trailer type contents,
                          wf_space = wf_space (tb_file tb) - (length contents + 5)\<rparr>,
              tb_status := OK, tb_offset := tb_offset tb + (length contents + 5)\<rparr>"
proof -
  let ?t = "char_of (CompressionType_num type)"
  have crc: "crc32c_Extend (crc32c_Value contents) [?t] = crc32c_Value (contents @ [?t])"
    using crc32c_append [of 0 contents "[?t]"] by (simp add: crc32c_Value_eq) (simp add: crc32c_Extend_def Extend_portable_crc)
  have a: "length contents \<le> wf_space (tb_file tb)"
    using w ok by (rule_tac ccontr) (auto simp: WriteRawBlock_def Let_def wf_Append_def tb_ok_def)
  let ?f = "(tb_file tb)\<lparr>wf_data := wf_data (tb_file tb) @ contents, wf_space := wf_space (tb_file tb) - length contents\<rparr>"
  have b: "length (block_trailer type contents) \<le> wf_space ?f"
    using w ok a by (rule_tac ccontr) (auto simp: WriteRawBlock_def Let_def wf_Append_def tb_ok_def)
  show "h = \<lparr>bh_offset = of_nat (tb_offset tb), bh_size = of_nat (length contents)\<rparr>"
    using w by (auto simp: WriteRawBlock_def Let_def split: prod.splits if_splits)
  show l: "length contents + 5 \<le> wf_space (tb_file tb)" using a b by simp
  have e: "?t # EncodeFixed32 (Mask (crc32c_Extend (crc32c_Value contents) [?t])) = block_trailer type contents"
    by (simp add: block_trailer_def crc)
  show "tb' = tb\<lparr>tb_file := \<lparr>wf_data = wf_data (tb_file tb) @ contents @ block_trailer type contents,
                          wf_space = wf_space (tb_file tb) - (length contents + 5)\<rparr>,
              tb_status := OK, tb_offset := tb_offset tb + (length contents + 5)\<rparr>"
    using w unfolding WriteRawBlock_def Let_def wf_Append_fits [OF a] e wf_Append_fits [OF b, simplified length_block_trailer]
    by (auto simp: wf_Append_fits [OF b, simplified] kBlockTrailerSize_def)
qed

definition grows :: "codecs \<Rightarrow> TableBuilder \<Rightarrow> BlockHandle \<Rightarrow> string \<Rightarrow> TableBuilder \<Rightarrow> bool" where
  "grows cd tb h raw tb' \<longleftrightarrow>
     (\<exists>n x. 5 \<le> n \<and> length x = n \<and> n \<le> wf_space (tb_file tb) \<and> bh_offset h = of_nat (tb_offset tb) \<and>
        tb' = tb\<lparr>tb_file := \<lparr>wf_data = wf_data (tb_file tb) @ x, wf_space = wf_space (tb_file tb) - n\<rparr>,
                 tb_status := OK, tb_offset := tb_offset tb + n\<rparr> \<and>
        (length (wf_data (tb_file tb)) = tb_offset tb \<longrightarrow> stored cd (wf_data (tb_file tb')) h raw))"

lemma WriteRawBlock_grows:
  assumes "WriteRawBlock contents type tb = (h, tb')" "tb_ok tb'" "compress_block cd t raw = (contents, type)"
  shows "grows cd tb h raw tb'"
proof -
  note r = WriteRawBlock_ok [OF assms(1,2)]
  let ?x = "contents @ block_trailer type contents"
  have "stored cd (wf_data (tb_file tb')) h raw" if "length (wf_data (tb_file tb)) = tb_offset tb"
    unfolding stored_def r(1,3) using assms(3) that
    by (intro exI [of _ "wf_data (tb_file tb)"] exI [of _ "[]"] exI [of _ t] exI [of _ contents] exI [of _ type]) simp
  then show ?thesis unfolding grows_def using r
    by (intro exI [of _ "length contents + 5"] exI [of _ ?x]) simp
qed

lemma WriteBlock_grows:
  assumes w: "WriteBlock cd b tb = (h, b', tb')" and ok: "tb_ok tb'"
  shows "grows cd tb h (fst (bb_Finish b)) tb'" "b' = bb_Reset (snd (bb_Finish b))"
proof -
  obtain contents type where c: "compress_block cd (opt_compression (tb_options tb)) (fst (bb_Finish b)) = (contents, type)"
    by (cases "compress_block cd (opt_compression (tb_options tb)) (fst (bb_Finish b))")
  have r: "WriteRawBlock contents type tb = (h, tb')" and b: "b' = bb_Reset (snd (bb_Finish b))"
    using w c by (auto simp: WriteBlock_def Let_def split: prod.splits)
  show "grows cd tb h (fst (bb_Finish b)) tb'" by (rule WriteRawBlock_grows [OF r ok c])
  show "b' = bb_Reset (snd (bb_Finish b))" by (rule b)
qed

section \<open>The invariant\<close>

type_synonym flushed = "(BlockHandle \<times> entry list \<times> nat list) list"

definition fl_entries :: "flushed \<Rightarrow> entry list" where
  "fl_entries fl = concat (map (fst \<circ> snd) fl)"

definition fl_hist :: "flushed \<Rightarrow> (nat \<times> string list) list" where
  "fl_hist fl = map (\<lambda>(h, es, ris). (unat (bh_offset h), map e_key es)) fl"

definition stored_entries :: "codecs \<Rightarrow> string \<Rightarrow> BlockHandle \<Rightarrow> entry list \<Rightarrow> nat list \<Rightarrow> bool" where
  "stored_entries cd data h es ris \<longleftrightarrow> (\<exists>b. bb_rep b es ris \<and> stored cd data h (fst (bb_Finish b)))"

definition file_ok :: "codecs \<Rightarrow> TableBuilder \<Rightarrow> flushed \<Rightarrow> bool" where
  "file_ok cd tb fl \<longleftrightarrow>
     length (wf_data (tb_file tb)) = tb_offset tb \<and> tb_offset tb + wf_space (tb_file tb) < 2 ^ 32 \<and>
     (\<forall>(h, es, ris) \<in> set fl. es \<noteq> [] \<and> stored_entries cd (wf_data (tb_file tb)) h es ris \<and> unat (bh_offset h) < tb_offset tb) \<and>
     sorted_wrt (<) (map (unat \<circ> bh_offset \<circ> fst) fl)"

definition index_ok :: "TableBuilder \<Rightarrow> flushed \<Rightarrow> entry list \<Rightarrow> entry list \<Rightarrow> bool" where
  "index_ok tb fl ies es \<longleftrightarrow>
     (if tb_pending_index_entry tb
      then es = [] \<and> length fl = Suc (length ies) \<and> tb_pending_handle tb = fst (last fl)
      else length fl = length ies \<and> (fl \<noteq> [] \<longrightarrow> es \<noteq> [])) \<and>
     (\<forall>i < length ies. e_value (ies ! i) = BlockHandle_EncodeTo (fst (fl ! i)) [])"

definition filter_ok :: "TableBuilder \<Rightarrow> flushed \<Rightarrow> entry list \<Rightarrow> bool" where
  "filter_ok tb fl es \<longleftrightarrow>
     tb_filter_block tb = map_option (\<lambda>fp. fb_run (fp_CreateFilter fp) (fl_hist fl @ [(tb_offset tb, map e_key es)]) FilterBlockBuilder_new)
       (opt_filter_policy (tb_options tb))"

definition tb_inv :: "codecs \<Rightarrow> TableBuilder \<Rightarrow> flushed \<Rightarrow> entry list \<Rightarrow> nat list \<Rightarrow> entry list \<Rightarrow> nat list \<Rightarrow> bool" where
  "tb_inv cd tb fl ies iris es ris \<longleftrightarrow>
     tb_status tb = OK \<and> file_ok cd tb fl \<and> 1 \<le> bb_interval (tb_data_block tb) \<and> 1 \<le> bb_interval (tb_index_block tb) \<and>
     bb_rep (tb_data_block tb) es ris \<and> bb_rep (tb_index_block tb) ies iris \<and> index_ok tb fl ies es \<and> filter_ok tb fl es \<and>
     tb_last_key tb = last_key (fl_entries fl @ es) \<and> tb_num_entries tb = length (fl_entries fl @ es)"

lemma tb_inv_closed: "tb_inv cd (tb\<lparr>tb_closed := c\<rparr>) fl ies iris es ris \<longleftrightarrow> tb_inv cd tb fl ies iris es ris"
  by (simp add: tb_inv_def file_ok_def index_ok_def filter_ok_def)

lemma grows_file_ok:
  assumes "grows cd tb h raw tb'" "file_ok cd tb fl"
  shows "file_ok cd tb' fl" "stored cd (wf_data (tb_file tb')) h raw" "unat (bh_offset h) = tb_offset tb" "tb_offset tb < tb_offset tb'"
    "\<exists>n x. tb' = tb\<lparr>tb_file := \<lparr>wf_data = wf_data (tb_file tb) @ x, wf_space = wf_space (tb_file tb) - n\<rparr>, tb_status := OK, tb_offset := tb_offset tb + n\<rparr>"
proof -
  obtain n x where n: "5 \<le> n" "length x = n" "n \<le> wf_space (tb_file tb)" "bh_offset h = of_nat (tb_offset tb)"
    and tb': "tb' = tb\<lparr>tb_file := \<lparr>wf_data = wf_data (tb_file tb) @ x, wf_space = wf_space (tb_file tb) - n\<rparr>,
                 tb_status := OK, tb_offset := tb_offset tb + n\<rparr>"
    and s: "length (wf_data (tb_file tb)) = tb_offset tb \<longrightarrow> stored cd (wf_data (tb_file tb')) h raw"
    using assms(1) by (auto simp: grows_def)
  have se: "stored_entries cd (wf_data (tb_file tb)) h es ris \<Longrightarrow> stored_entries cd (wf_data (tb_file tb) @ x) h es ris" for h es ris
    using stored_append by (auto simp: stored_entries_def)
  show "file_ok cd tb' fl"
    using assms(2) n se by (fastforce simp: file_ok_def tb')
  show "stored cd (wf_data (tb_file tb')) h raw" using s assms(2) by (simp add: file_ok_def)
  show "unat (bh_offset h) = tb_offset tb" using assms(2) n(4) by (simp add: file_ok_def unat_of_nat_u64)
  show "tb_offset tb < tb_offset tb'" using n by (simp add: tb')
  show "\<exists>n x. tb' = tb\<lparr>tb_file := \<lparr>wf_data = wf_data (tb_file tb) @ x, wf_space = wf_space (tb_file tb) - n\<rparr>, tb_status := OK, tb_offset := tb_offset tb + n\<rparr>"
    using tb' by blast
qed

lemma Status_ok_eq: "tb_ok tb \<Longrightarrow> tb_status tb = OK"
  by (simp add: tb_ok_def Status_ok_def)

lemma fb_run_snoc: "fb_run create (hist @ [(off, ks)]) fb = fold fb_AddKey ks (fb_StartBlock create off (fb_run create hist fb))"
  by (simp add: fb_run_def)

lemma fb_run_snoc2: "fb_run create (hist @ [x, (off, ks)]) fb = fold fb_AddKey ks (fb_StartBlock create off (fb_run create (hist @ [x]) fb))"
  using fb_run_snoc [of create "hist @ [x]"] by simp

lemma fp_create_simp: "opt_filter_policy opt = Some fp \<Longrightarrow> fp_create opt = fp_CreateFilter fp"
  by (simp add: fp_create_def)

lemma bb_rep_empty: "bb_rep b es ris \<Longrightarrow> bb_empty b \<longleftrightarrow> es = []"
  using entry_bytes_nonempty by (cases es) (auto simp: bb_rep_def bb_empty_def)

lemma tb_inv_new:
  assumes "wf_data f = []" "wf_space f < 2 ^ 32" "1 \<le> opt_block_restart_interval opt"
  shows "tb_inv cd (TableBuilder_new opt f) [] [] [0] [] [0]"
  using assms bb_rep_new
  by (auto simp: tb_inv_def TableBuilder_new_def file_ok_def index_ok_def filter_ok_def fl_entries_def fl_hist_def
      last_key_def fb_run_def BlockBuilder_new_def split: option.split)

lemma file_ok_snoc:
  assumes "file_ok cd tb1 fl" "file_ok cd tb fl" "unat (bh_offset h) = tb_offset tb" "tb_offset tb < tb_offset tb1"
    and "es \<noteq> []" "bb_rep b es ris" "stored cd (wf_data (tb_file tb1)) h (fst (bb_Finish b))"
  shows "file_ok cd tb1 (fl @ [(h, es, ris)])"
proof -
  have "stored_entries cd (wf_data (tb_file tb1)) h es ris" using assms(6,7) by (auto simp: stored_entries_def)
  moreover have "\<forall>x \<in> set fl. unat (bh_offset (fst x)) < tb_offset tb" using assms(2) by (auto simp: file_ok_def)
  then have "sorted_wrt (<) (map (unat \<circ> bh_offset \<circ> fst) (fl @ [(h, es, ris)]))"
    using assms(1,3) by (auto simp: file_ok_def sorted_wrt_append)
  ultimately show ?thesis using assms(1,3-5) unfolding file_ok_def by simp
qed

text \<open>Flushing moves the entries of the open block to the file.\<close>

lemma tb_inv_Flush:
  assumes inv: "tb_inv cd tb fl ies iris es ris" and ok: "tb_ok (tb_Flush cd tb)" and ne: "es \<noteq> []"
  shows "\<exists>h. tb_inv cd (tb_Flush cd tb) (fl @ [(h, es, ris)]) ies iris [] [0] \<and> tb_pending_index_entry (tb_Flush cd tb)"
proof -
  have st: "tb_ok tb" using inv by (simp add: tb_inv_def tb_ok_def)
  have bne: "\<not> bb_empty (tb_data_block tb)" using inv ne bb_rep_empty by (auto simp: tb_inv_def)
  obtain h b tb1 where w: "WriteBlock cd (tb_data_block tb) tb = (h, b, tb1)" by (cases "WriteBlock cd (tb_data_block tb) tb")
  have ok1: "tb_ok tb1" using ok st bne by (rule_tac ccontr) (simp add: tb_Flush_def w Let_def tb_ok_def)
  note g = WriteBlock_grows [OF w ok1]
  have f: "file_ok cd tb fl" and data: "bb_rep (tb_data_block tb) es ris" using inv by (auto simp: tb_inv_def)
  note gf = grows_file_ok [OF g(1) f]
  obtain n x where tb1: "tb1 = tb\<lparr>tb_file := \<lparr>wf_data = wf_data (tb_file tb) @ x, wf_space = wf_space (tb_file tb) - n\<rparr>,
      tb_status := OK, tb_offset := tb_offset tb + n\<rparr>" using gf(5) by blast
  define tb' where "tb' = tb1\<lparr>tb_data_block := b, tb_pending_handle := h, tb_pending_index_entry := True,
      tb_filter_block := map_option (fb_StartBlock (fp_create (tb_options tb)) (tb_offset tb1)) (tb_filter_block tb)\<rparr>"
  have fl': "tb_Flush cd tb = tb'" using st bne ok1 by (simp add: tb_Flush_def w Let_def tb'_def tb_ok_def) (simp add: tb1)
  have np: "\<not> tb_pending_index_entry tb" using inv ne by (auto simp: tb_inv_def index_ok_def)
  have "file_ok cd tb1 (fl @ [(h, es, ris)])" by (rule file_ok_snoc [OF gf(1) f gf(3,4) ne data gf(2)])
  then have "file_ok cd tb' (fl @ [(h, es, ris)])" by (simp add: file_ok_def tb'_def)
  moreover have "filter_ok tb' (fl @ [(h, es, ris)]) []"
  proof -
    have "filter_ok tb fl es" using inv by (simp add: tb_inv_def)
    moreover have "fl_hist (fl @ [(h, es, ris)]) = fl_hist fl @ [(tb_offset tb, map e_key es)]" by (simp add: fl_hist_def gf(3))
    ultimately show ?thesis
      by (cases "opt_filter_policy (tb_options tb)")
        (simp_all add: filter_ok_def tb'_def tb1 fp_create_simp fb_run_snoc2)
  qed
  moreover have "index_ok tb' (fl @ [(h, es, ris)]) ies []"
    using inv np by (auto simp: tb_inv_def index_ok_def tb'_def nth_append)
  moreover have "bb_rep b [] [0]" "bb_interval b = bb_interval (tb_data_block tb)"
    using bb_rep_Reset by (simp_all add: g(2) bb_Reset_def bb_Finish_def Let_def)
  ultimately have "tb_inv cd tb' (fl @ [(h, es, ris)]) ies iris [] [0]"
    using inv by (simp add: tb_inv_def tb'_def tb1 fl_entries_def)
  then show ?thesis unfolding fl' by (auto simp: tb'_def)
qed

text \<open>Adding an index entry for the block that was flushed last.\<close>

lemma inv_add_index_entry:
  assumes inv: "tb_inv cd tb fl ies iris es ris" and p: "tb_pending_index_entry tb"
  shows "\<exists>e iris'. e_key e = key \<and> bb_rep (tb_index_block (add_index_entry key tb)) (ies @ [e]) iris' \<and>
    length fl = length (ies @ [e]) \<and> (\<forall>i < length (ies @ [e]). e_value ((ies @ [e]) ! i) = BlockHandle_EncodeTo (fst (fl ! i)) [])"
proof -
  have b: "bb_rep (tb_index_block tb) ies iris" "1 \<le> bb_interval (tb_index_block tb)" using inv by (auto simp: tb_inv_def)
  from bb_rep_Add [OF b, of key "BlockHandle_EncodeTo (tb_pending_handle tb) []"] obtain e iris' where
    e: "bb_rep (bb_Add key (BlockHandle_EncodeTo (tb_pending_handle tb) []) (tb_index_block tb)) (ies @ [e]) iris'"
      "entry_kv e = (key, BlockHandle_EncodeTo (tb_pending_handle tb) [])" by blast
  have ix: "length fl = Suc (length ies)" "tb_pending_handle tb = fst (last fl)"
    "\<forall>i < length ies. e_value (ies ! i) = BlockHandle_EncodeTo (fst (fl ! i)) []"
    using inv p by (auto simp: tb_inv_def index_ok_def)
  have "last fl = fl ! length ies" using ix(1) by (cases "fl = []") (simp_all add: last_conv_nth)
  then show ?thesis using e ix by (auto simp: add_index_entry_def entry_kv_def nth_append less_Suc_eq)
qed

section \<open>Order of the keys and of the index entries\<close>

definition tb_sep :: "(string \<Rightarrow> string \<Rightarrow> int) \<Rightarrow> (string \<Rightarrow> bool) \<Rightarrow> flushed \<Rightarrow> entry list \<Rightarrow> entry list \<Rightarrow> bool" where
  "tb_sep cmp valid fl ies es \<longleftrightarrow>
     sorted_keys cmp valid (map e_key (fl_entries fl @ es)) \<and> list_all valid (map e_key ies) \<and>
     (\<forall>i < length ies. (\<forall>e \<in> set (fl_entries (take (Suc i) fl)). cmp (e_key e) (e_key (ies ! i)) \<le> 0) \<and>
        (\<forall>e \<in> set (fl_entries (drop (Suc i) fl) @ es). cmp (e_key (ies ! i)) (e_key e) < 0))"

lemma fl_entries_Nil [simp]: "fl_entries [] = []"
  by (simp add: fl_entries_def)

lemma fl_entries_append [simp]: "fl_entries (xs @ ys) = fl_entries xs @ fl_entries ys"
  by (simp add: fl_entries_def)

lemma fl_entries_take_drop: "fl_entries (take i fl) @ fl_entries (drop i fl) = fl_entries fl"
  using fl_entries_append [of "take i fl" "drop i fl"] by simp

lemma fl_entries_nonempty: "file_ok cd tb fl \<Longrightarrow> x \<in> set fl \<Longrightarrow> fst (snd x) \<noteq> [] \<and> set (fst (snd x)) \<subseteq> set (fl_entries fl)"
  by (auto simp: file_ok_def fl_entries_def)

lemma drop_entries_nonempty:
  assumes "file_ok cd tb fl" "i < length fl"
  shows "fl_entries (drop i fl) \<noteq> []"
proof -
  have "fl ! i \<in> set (drop i fl)" using assms(2) by (auto simp: Cons_nth_drop_Suc [symmetric])
  moreover have "fst (snd (fl ! i)) \<noteq> []" using fl_entries_nonempty [OF assms(1), of "fl ! i"] assms(2) by simp
  ultimately show ?thesis by (auto simp: fl_entries_def)
qed

context key_comparator
begin

lemma sorted_keys_snoc:
  "sorted_keys Compare valid (ks @ [k]) \<longleftrightarrow> sorted_keys Compare valid ks \<and> valid k \<and> (\<forall>x \<in> set ks. Compare x k < 0)"
  by (auto simp: sorted_keys_def sorted_wrt_append)

lemma sorted_keys_last:
  assumes "sorted_keys Compare valid ks" "x \<in> set ks"
  shows "Compare x (last ks) \<le> 0"
proof -
  have ks: "ks = butlast ks @ [last ks]" using assms(2) by (cases ks) simp_all
  then have s: "sorted_keys Compare valid (butlast ks @ [last ks])" using assms(1) by simp
  show ?thesis
  proof (cases "x \<in> set (butlast ks)")
    case True
    then show ?thesis using s by (auto simp: sorted_keys_snoc)
  next
    case False
    then have "x = last ks" using assms(2) ks by (metis Un_iff empty_iff insert_iff list.set set_append)
    then show ?thesis using s cmp_eq [of x x] by (simp add: sorted_keys_snoc)
  qed
qed

text \<open>The separator between the block flushed last and the next key.\<close>

lemma sep_pending:
  assumes sep: "tb_sep Compare valid fl ies []" and f: "file_ok cd tb fl" and len: "length fl = Suc (length ies)"
    and srt: "sorted_keys Compare valid (map e_key (fl_entries fl) @ [e_key e])"
    and k: "e_key ie = FindShortestSeparator (last_key (fl_entries fl)) (e_key e)"
  shows "tb_sep Compare valid fl (ies @ [ie]) [e]"
proof -
  let ?L = "fl_entries fl"
  have L: "?L \<noteq> []" using drop_entries_nonempty [OF f, of 0] len by simp
  have less: "\<forall>x \<in> set ?L. Compare (e_key x) (e_key e) < 0" "valid (e_key e)" and v: "\<forall>x \<in> set ?L. valid (e_key x)"
    and s: "sorted_keys Compare valid (map e_key ?L)"
    using srt by (auto simp: sorted_keys_snoc) (auto simp: sorted_keys_def list_all_iff)
  have lk: "last_key ?L = last (map e_key ?L)" "valid (last_key ?L)" "Compare (last_key ?L) (e_key e) < 0"
    using L v less by (simp_all add: last_key_def last_map)
  note sp = sep_valid [OF lk(2) less(2)] sep_ge [OF lk(2) less(2)] sep_less [OF lk(2) less(2) lk(3)]
  have le: "Compare (e_key x) (e_key ie) \<le> 0" if "x \<in> set ?L" for x
    using cmp_le_trans [of "e_key x" "last_key ?L" "e_key ie"] sorted_keys_last [OF s, of "e_key x"] that v lk sp k by simp
  have old: "Compare (e_key (ies ! i)) (e_key e) < 0" if il: "i < length ies" for i
  proof -
    obtain x where x: "x \<in> set (fl_entries (drop (Suc i) fl))"
      using drop_entries_nonempty [OF f, of "Suc i"] il len by (cases "fl_entries (drop (Suc i) fl)") auto
    then have "x \<in> set ?L" using fl_entries_take_drop [of "Suc i" fl] by (metis Un_iff set_append)
    then show ?thesis using cmp_trans [of "e_key (ies ! i)" "e_key x" "e_key e"] sep x il less v
      by (auto simp: tb_sep_def list_all_length)
  qed
  show ?thesis using sep srt sp(1,3) k le old len less
    by (auto simp: tb_sep_def nth_append less_Suc_eq)
qed

lemma sep_open:
  assumes sep: "tb_sep Compare valid fl ies es" and len: "length ies \<le> length fl" and ne: "fl \<noteq> [] \<longrightarrow> es \<noteq> []"
    and srt: "sorted_keys Compare valid (map e_key (fl_entries fl @ es) @ [e_key e])"
  shows "tb_sep Compare valid fl ies (es @ [e])"
proof -
  have less: "\<forall>x \<in> set (fl_entries fl @ es). Compare (e_key x) (e_key e) < 0" "valid (e_key e)"
    and v: "\<forall>x \<in> set (fl_entries fl @ es). valid (e_key x)"
    using srt unfolding sorted_keys_snoc by (auto simp: sorted_keys_def list_all_iff)
  have old: "Compare (e_key (ies ! i)) (e_key e) < 0" if il: "i < length ies" for i
  proof -
    obtain x where x: "x \<in> set es" using ne il len by (cases es) auto
    then show ?thesis using cmp_trans [of "e_key (ies ! i)" "e_key x" "e_key e"] sep x il less v
      by (auto simp: tb_sep_def list_all_length)
  qed
  show ?thesis using sep srt old by (auto simp: tb_sep_def)
qed

end

lemma index_ok_le: "index_ok tb fl ies es \<Longrightarrow> length ies \<le> length fl"
  by (auto simp: index_ok_def split: if_splits)

definition uses_comparator :: "(string \<Rightarrow> string \<Rightarrow> int) \<Rightarrow> (string \<Rightarrow> string \<Rightarrow> string) \<Rightarrow> (string \<Rightarrow> string) \<Rightarrow> Options \<Rightarrow> bool" where
  "uses_comparator cmp sep succ opt \<longleftrightarrow>
     cmp_Compare (opt_comparator opt) = cmp \<and> cmp_FindShortestSeparator (opt_comparator opt) = sep \<and>
     cmp_FindShortSuccessor (opt_comparator opt) = succ"

lemma tb_options_Flush [simp]: "tb_options (tb_Flush cd tb) = tb_options tb"
  by (simp add: tb_Flush_def WriteBlock_def WriteRawBlock_def Let_def case_prod_beta)

lemma tb_options_Add [simp]: "tb_options (tb_Add cd k v tb) = tb_options tb"
  by (simp add: tb_Add_def Let_def add_index_entry_def)

context key_comparator
begin

lemma tb_inv_Add:
  assumes inv: "tb_inv cd tb fl ies iris es ris" and sep: "tb_sep Compare valid fl ies es"
    and cmp: "uses_comparator Compare FindShortestSeparator FindShortSuccessor (tb_options tb)"
    and srt: "sorted_keys Compare valid (map e_key (fl_entries fl @ es) @ [key])" and ok: "tb_ok (tb_Add cd key value tb)"
  shows "\<exists>fl' ies' iris' es' ris'. tb_inv cd (tb_Add cd key value tb) fl' ies' iris' es' ris' \<and> tb_sep Compare valid fl' ies' es' \<and>
     map entry_kv (fl_entries fl' @ es') = map entry_kv (fl_entries fl @ es) @ [(key, value)]"
proof -
  let ?p = "tb_pending_index_entry tb"
  let ?s = "FindShortestSeparator (tb_last_key tb) key"
  define tb1 where "tb1 = (if ?p then add_index_entry ?s tb else tb)"
  define tb2 where "tb2 = tb1\<lparr>tb_filter_block := map_option (fb_AddKey key) (tb_filter_block tb1),
                      tb_last_key := key, tb_num_entries := tb_num_entries tb1 + 1,
                      tb_data_block := bb_Add key value (tb_data_block tb1)\<rparr>"
  have st: "tb_ok tb" using inv by (simp add: tb_inv_def tb_ok_def)
  have adds: "tb_Add cd key value tb = (if opt_block_size (tb_options tb2) \<le> bb_CurrentSizeEstimate (tb_data_block tb2) then tb_Flush cd tb2 else tb2)"
    using st cmp unfolding tb_Add_def Let_def tb2_def tb1_def by (simp add: uses_comparator_def)
  have d: "bb_rep (tb_data_block tb) es ris" "1 \<le> bb_interval (tb_data_block tb)" using inv by (auto simp: tb_inv_def)
  have d1: "tb_data_block tb1 = tb_data_block tb" by (simp add: tb1_def add_index_entry_def)
  obtain e ris' where e: "bb_rep (tb_data_block tb2) (es @ [e]) ris'" "entry_kv e = (key, value)"
    using bb_rep_Add [OF d, of key "value"] by (auto simp: tb2_def d1)
  have ek: "e_key e = key" using e(2) by (simp add: entry_kv_def)
  have "\<exists>ies1 iris1. bb_rep (tb_index_block tb2) ies1 iris1 \<and> index_ok tb2 fl ies1 (es @ [e]) \<and> tb_sep Compare valid fl ies1 (es @ [e])"
  proof (cases ?p)
    case True
    then have i: "es = []" "length fl = Suc (length ies)" and f: "file_ok cd tb fl" and lk: "tb_last_key tb = last_key (fl_entries fl)"
      using inv by (auto simp: tb_inv_def index_ok_def)
    obtain ie iris1 where ie: "e_key ie = ?s" "bb_rep (tb_index_block (add_index_entry ?s tb)) (ies @ [ie]) iris1"
      "length fl = length (ies @ [ie])"
      "\<forall>i < length (ies @ [ie]). e_value ((ies @ [ie]) ! i) = BlockHandle_EncodeTo (fst (fl ! i)) []"
      using inv_add_index_entry [OF inv True, of ?s] by blast
    have "tb_sep Compare valid fl (ies @ [ie]) [e]"
      by (rule sep_pending [OF _ f i(2)]) (use sep srt i ie(1) lk ek in simp_all)
    moreover have "index_ok tb2 fl (ies @ [ie]) [e]" using ie True by (simp add: index_ok_def tb2_def tb1_def add_index_entry_def)
    moreover have "bb_rep (tb_index_block tb2) (ies @ [ie]) iris1" using ie(2) True by (simp add: tb2_def tb1_def)
    ultimately show ?thesis using i(1) by auto
  next
    case False
    then have "index_ok tb2 fl ies (es @ [e])" "length ies \<le> length fl" "fl \<noteq> [] \<longrightarrow> es \<noteq> []" "bb_rep (tb_index_block tb2) ies iris"
      using inv by (auto simp: tb_inv_def index_ok_def tb2_def tb1_def)
    then show ?thesis using sep_open [OF sep] srt ek by auto
  qed
  then obtain ies1 iris1 where x: "bb_rep (tb_index_block tb2) ies1 iris1" "index_ok tb2 fl ies1 (es @ [e])" "tb_sep Compare valid fl ies1 (es @ [e])"
    by blast
  have "filter_ok tb2 fl (es @ [e])"
    using inv by (cases "opt_filter_policy (tb_options tb)")
      (simp_all add: tb_inv_def filter_ok_def tb2_def tb1_def add_index_entry_def fb_run_snoc ek)
  moreover have "file_ok cd tb2 fl" using inv by (simp add: tb_inv_def file_ok_def tb2_def tb1_def add_index_entry_def)
  ultimately have inv2: "tb_inv cd tb2 fl ies1 iris1 (es @ [e]) ris'"
    using inv e(1) x(1,2) ek by (simp add: tb_inv_def) (simp add: tb2_def tb1_def add_index_entry_def last_key_def)
  show ?thesis
  proof (cases "opt_block_size (tb_options tb2) \<le> bb_CurrentSizeEstimate (tb_data_block tb2)")
    case True
    then have a: "tb_Add cd key value tb = tb_Flush cd tb2" using adds by simp
    obtain h where h: "tb_inv cd (tb_Flush cd tb2) (fl @ [(h, es @ [e], ris')]) ies1 iris1 [] [0]"
      using tb_inv_Flush [OF inv2] ok a by auto
    have "tb_sep Compare valid (fl @ [(h, es @ [e], ris')]) ies1 []"
      using x(3) index_ok_le [OF x(2)] by (auto simp: tb_sep_def fl_entries_def)
    then show ?thesis using h a e(2) by (fastforce simp: fl_entries_def)
  next
    case False
    then show ?thesis using adds inv2 x(3) e(2) by fastforce
  qed
qed

end

lemma tb_Adds_not_ok: "\<not> tb_ok tb \<Longrightarrow> tb_Adds cd kvs tb = tb"
  by (induction kvs) (auto simp: tb_Adds_def tb_Add_def)

context key_comparator
begin

lemma tb_inv_Adds:
  "tb_inv cd tb fl ies iris es ris \<Longrightarrow> tb_sep Compare valid fl ies es \<Longrightarrow>
   uses_comparator Compare FindShortestSeparator FindShortSuccessor (tb_options tb) \<Longrightarrow>
   sorted_keys Compare valid (map e_key (fl_entries fl @ es) @ map fst kvs) \<Longrightarrow> tb_ok (tb_Adds cd kvs tb) \<Longrightarrow>
   \<exists>fl' ies' iris' es' ris'. tb_inv cd (tb_Adds cd kvs tb) fl' ies' iris' es' ris' \<and> tb_sep Compare valid fl' ies' es' \<and>
     map entry_kv (fl_entries fl' @ es') = map entry_kv (fl_entries fl @ es) @ kvs \<and> tb_options (tb_Adds cd kvs tb) = tb_options tb"
proof (induction kvs arbitrary: tb fl ies iris es ris)
  case Nil
  then show ?case by (fastforce simp: tb_Adds_def)
next
  case (Cons kv kvs)
  obtain k v where kv: "kv = (k, v)" by (cases kv)
  let ?tb = "tb_Add cd k v tb"
  have a: "tb_Adds cd (kv # kvs) tb = tb_Adds cd kvs ?tb" by (simp add: tb_Adds_def kv)
  have ok: "tb_ok ?tb" using Cons.prems(5) tb_Adds_not_ok [of ?tb cd kvs] a by (cases "tb_ok ?tb") auto
  have s: "sorted_keys Compare valid (map e_key (fl_entries fl @ es) @ [k])"
    using Cons.prems(4) by (auto simp: kv sorted_keys_def sorted_wrt_append)
  obtain fl' ies' iris' es' ris' where 1: "tb_inv cd ?tb fl' ies' iris' es' ris'" "tb_sep Compare valid fl' ies' es'"
    "map entry_kv (fl_entries fl' @ es') = map entry_kv (fl_entries fl @ es) @ [(k, v)]"
    using tb_inv_Add [OF Cons.prems(1-3) s ok] by blast
  have keys: "map e_key xs = map fst (map entry_kv xs)" for xs by (simp add: entry_kv_def)
  have "map e_key (fl_entries fl' @ es') = map e_key (fl_entries fl @ es) @ [k]" unfolding keys 1(3) by simp
  then have "sorted_keys Compare valid (map e_key (fl_entries fl' @ es') @ map fst kvs)" using Cons.prems(4) by (simp add: kv)
  from Cons.IH [OF 1(1,2) _ this] Cons.prems(3,5) show ?case unfolding a 1(3) by (simp add: kv)
qed

end

section \<open>Finishing a table\<close>

definition table_file :: "codecs \<Rightarrow> Options \<Rightarrow> string \<Rightarrow> flushed \<Rightarrow> entry list \<Rightarrow> nat list \<Rightarrow> bool" where
  "table_file cd opt data fl ies iris \<longleftrightarrow>
     length data < 2 ^ 32 \<and> length ies = length fl \<and>
     (\<forall>i < length ies. e_value (ies ! i) = BlockHandle_EncodeTo (fst (fl ! i)) []) \<and>
     (\<forall>(h, es, ris) \<in> set fl. es \<noteq> [] \<and> stored_entries cd data h es ris) \<and> sorted_wrt (<) (map (unat \<circ> bh_offset \<circ> fst) fl) \<and>
     (\<exists>D mh ih fh mes mris off. data = D @ Footer_EncodeTo \<lparr>metaindex_handle = mh, index_handle = ih\<rparr> [] \<and>
        stored_entries cd data ih ies iris \<and> stored_entries cd data mh mes mris \<and>
        map entry_kv mes = (case opt_filter_policy opt of None \<Rightarrow> [] | Some fp \<Rightarrow> [(filter_key opt, BlockHandle_EncodeTo fh [])]) \<and>
        (\<forall>fp. opt_filter_policy opt = Some fp \<longrightarrow>
           stored cd data fh (fst (fb_Finish (fp_CreateFilter fp)
             (fb_run (fp_CreateFilter fp) (fl_hist fl @ [(off, [])]) FilterBlockBuilder_new)))) \<and>
        (\<forall>x \<in> set fl. unat (bh_offset (fst x)) < off))"

definition extends :: "TableBuilder \<Rightarrow> TableBuilder \<Rightarrow> bool" where
  "extends tb tb' \<longleftrightarrow> tb_options tb' = tb_options tb \<and> (\<exists>x. wf_data (tb_file tb') = wf_data (tb_file tb) @ x)"

lemma extends_trans: "extends a b \<Longrightarrow> extends b c \<Longrightarrow> extends a c"
  by (auto simp: extends_def)

lemma extends_stored: "extends tb tb' \<Longrightarrow> stored cd (wf_data (tb_file tb)) h raw \<Longrightarrow> stored cd (wf_data (tb_file tb')) h raw"
  using stored_append by (auto simp: extends_def)

lemma grows_extends: "grows cd tb h raw tb' \<Longrightarrow> extends tb tb'"
  by (auto simp: grows_def extends_def)

lemma grows_frame:
  assumes "grows cd tb h raw tb'"
  shows "tb_index_block tb' = tb_index_block tb" "tb_pending_index_entry tb' = tb_pending_index_entry tb"
    "tb_pending_handle tb' = tb_pending_handle tb" "tb_last_key tb' = tb_last_key tb" "tb_filter_block tb' = tb_filter_block tb"
    "tb_options tb' = tb_options tb"
  using assms by (auto simp: grows_def)

lemma write_filter_ok:
  assumes w: "write_filter tb = (fh, tb1)" and ok: "tb_ok tb1" and f: "file_ok cd tb fl" and o: "tb_ok tb"
  shows "file_ok cd tb1 fl" "extends tb tb1" "tb_index_block tb1 = tb_index_block tb" "tb_pending_index_entry tb1 = tb_pending_index_entry tb"
    "tb_pending_handle tb1 = tb_pending_handle tb" "tb_last_key tb1 = tb_last_key tb"
    "tb_filter_block tb1 = None \<longleftrightarrow> tb_filter_block tb = None"
    "tb_filter_block tb = Some fb \<Longrightarrow> stored cd (wf_data (tb_file tb1)) fh (fst (fb_Finish (fp_create (tb_options tb)) fb))"
proof -
  have "file_ok cd tb1 fl \<and> extends tb tb1 \<and> tb_index_block tb1 = tb_index_block tb \<and> tb_pending_index_entry tb1 = tb_pending_index_entry tb \<and>
    tb_pending_handle tb1 = tb_pending_handle tb \<and> tb_last_key tb1 = tb_last_key tb \<and>
    (tb_filter_block tb1 = None \<longleftrightarrow> tb_filter_block tb = None) \<and>
    (tb_filter_block tb = Some fb \<longrightarrow> stored cd (wf_data (tb_file tb1)) fh (fst (fb_Finish (fp_create (tb_options tb)) fb)))"
  proof (cases "tb_filter_block tb")
    case None
    then show ?thesis using w f by (auto simp: write_filter_def extends_def)
  next
    case (Some fb1)
    obtain c fb2 where c: "fb_Finish (fp_create (tb_options tb)) fb1 = (c, fb2)" by (cases "fb_Finish (fp_create (tb_options tb)) fb1")
    let ?tb = "tb\<lparr>tb_filter_block := Some fb2\<rparr>"
    have r: "WriteRawBlock c kNoCompression ?tb = (fh, tb1)" using w Some o c by (simp add: write_filter_def)
    have g: "grows cd ?tb fh c tb1"
      by (rule WriteRawBlock_grows [OF r ok, where t = kNoCompression]) (simp add: compress_block_def)
    have f': "file_ok cd ?tb fl" using f by (simp add: file_ok_def)
    show ?thesis using grows_file_ok [OF g f'] grows_extends [OF g] grows_frame [OF g] Some c by (auto simp: extends_def)
  qed
  then show "file_ok cd tb1 fl" "extends tb tb1" "tb_index_block tb1 = tb_index_block tb" "tb_pending_index_entry tb1 = tb_pending_index_entry tb"
    "tb_pending_handle tb1 = tb_pending_handle tb" "tb_last_key tb1 = tb_last_key tb"
    "tb_filter_block tb1 = None \<longleftrightarrow> tb_filter_block tb = None"
    "tb_filter_block tb = Some fb \<Longrightarrow> stored cd (wf_data (tb_file tb1)) fh (fst (fb_Finish (fp_create (tb_options tb)) fb))"
    by blast+
qed

lemma write_metaindex_ok:
  assumes w: "write_metaindex cd fh tb = (mh, tb1)" and ok: "tb_ok tb1" and f: "file_ok cd tb fl" and o: "tb_ok tb"
    and i: "1 \<le> opt_block_restart_interval (tb_options tb)"
  shows "\<exists>raw mes mris. grows cd tb mh raw tb1 \<and> stored_entries cd (wf_data (tb_file tb1)) mh mes mris \<and>
    map entry_kv mes = (if tb_filter_block tb = None then [] else [(filter_key (tb_options tb), BlockHandle_EncodeTo fh [])])"
proof -
  let ?kvs = "if tb_filter_block tb = None then [] else [(filter_key (tb_options tb), BlockHandle_EncodeTo fh [])]"
  let ?m = "fold (\<lambda>(k, v). bb_Add k v) ?kvs (BlockBuilder_new (opt_block_restart_interval (tb_options tb)))"
  have "1 \<le> bb_interval (BlockBuilder_new (opt_block_restart_interval (tb_options tb)))" using i by (simp add: BlockBuilder_new_def)
  from bb_rep_Adds [OF bb_rep_new this, of ?kvs] obtain mes mris where m: "bb_rep ?m mes mris" "map entry_kv mes = ?kvs" by auto
  obtain b where wb: "WriteBlock cd ?m tb = (mh, b, tb1)"
    using w o by (cases "tb_filter_block tb") (auto simp: write_metaindex_def Let_def split: prod.splits)
  note g = WriteBlock_grows(1) [OF wb ok]
  have "stored_entries cd (wf_data (tb_file tb1)) mh mes mris" unfolding stored_entries_def using m(1) grows_file_ok(2) [OF g f] by blast
  then show ?thesis using g m(2) by blast
qed

lemma write_footer_ok:
  assumes ok: "tb_ok (write_footer mh ih tb)"
  shows "tb_ok tb" "wf_data (tb_file (write_footer mh ih tb)) = wf_data (tb_file tb) @ Footer_EncodeTo \<lparr>metaindex_handle = mh, index_handle = ih\<rparr> []"
    "kEncodedLength \<le> wf_space (tb_file tb)"
proof -
  show o: "tb_ok tb" using ok by (cases "tb_ok tb") (simp_all add: write_footer_def)
  show l: "kEncodedLength \<le> wf_space (tb_file tb)"
    using ok o by (rule_tac ccontr) (simp add: write_footer_def wf_Append_def tb_ok_def length_Footer)
  show "wf_data (tb_file (write_footer mh ih tb)) = wf_data (tb_file tb) @ Footer_EncodeTo \<lparr>metaindex_handle = mh, index_handle = ih\<rparr> []"
    using o l by (simp add: write_footer_def Let_def wf_Append_def length_Footer)
qed

lemma write_index_ok:
  assumes w: "write_index cd tb = (ih, tb3)" and ok: "tb_ok tb3" and f: "file_ok cd tb fl" and o: "tb_ok tb"
  shows "\<exists>tb1 b tb2. tb1 = (if tb_pending_index_entry tb
        then add_index_entry (cmp_FindShortSuccessor (opt_comparator (tb_options tb)) (tb_last_key tb)) tb else tb) \<and>
      grows cd tb1 ih (fst (bb_Finish (tb_index_block tb1))) tb2 \<and> tb3 = tb2\<lparr>tb_index_block := b\<rparr> \<and> file_ok cd tb1 fl"
proof -
  let ?tb1 = "if tb_pending_index_entry tb
        then add_index_entry (cmp_FindShortSuccessor (opt_comparator (tb_options tb)) (tb_last_key tb)) tb else tb"
  obtain h b tb2 where wb: "WriteBlock cd (tb_index_block ?tb1) ?tb1 = (h, b, tb2)" by (cases "WriteBlock cd (tb_index_block ?tb1) ?tb1")
  then have t: "ih = h" "tb3 = tb2\<lparr>tb_index_block := b\<rparr>" using w o by (simp_all add: write_index_def Let_def)
  have "tb_ok tb2" using ok t by (simp add: tb_ok_def)
  note g = WriteBlock_grows(1) [OF wb this]
  have "file_ok cd ?tb1 fl" using f by (simp add: file_ok_def add_index_entry_def)
  then show ?thesis using t g by blast
qed

lemma tb_Finish_ok:
  assumes "tb_Finish cd tb = (OK, tb')"
  shows "tb_ok tb"
proof (rule ccontr)
  assume n: "\<not> tb_ok tb"
  then have "tb_status tb = OK" using assms
    by (auto simp: tb_Finish_def tb_Flush_def write_filter_def write_metaindex_def write_index_def write_footer_def Let_def tb_ok_def
        split: option.splits)
  then show False using n by (simp add: tb_ok_def)
qed

context key_comparator
begin

lemma sep_final:
  assumes sep: "tb_sep Compare valid fl ies []" and f: "file_ok cd tb fl" and len: "length fl = Suc (length ies)"
    and k: "e_key ie = FindShortSuccessor (last_key (fl_entries fl))"
  shows "tb_sep Compare valid fl (ies @ [ie]) []"
proof -
  let ?L = "fl_entries fl"
  have L: "?L \<noteq> []" using drop_entries_nonempty [OF f, of 0] len by simp
  have s: "sorted_keys Compare valid (map e_key ?L)" using sep by (simp add: tb_sep_def)
  then have v: "\<forall>x \<in> set ?L. valid (e_key x)" by (auto simp: sorted_keys_def list_all_iff)
  have lk: "last_key ?L = last (map e_key ?L)" "valid (last_key ?L)" using L v by (simp_all add: last_key_def last_map)
  have "Compare (e_key x) (e_key ie) \<le> 0" if "x \<in> set ?L" for x
    using cmp_le_trans [of "e_key x" "last_key ?L" "e_key ie"] sorted_keys_last [OF s, of "e_key x"] that v lk k succ_valid succ_ge by simp
  then show ?thesis using sep len succ_valid [OF lk(2)] k by (auto simp: tb_sep_def nth_append less_Suc_eq)
qed

text \<open>A table that is finished without error is in the file, with its index in order.\<close>

lemma tb_Finish_file:
  assumes inv: "tb_inv cd tb fl ies iris es ris" and sep: "tb_sep Compare valid fl ies es"
    and cmp: "uses_comparator Compare FindShortestSeparator FindShortSuccessor (tb_options tb)"
    and i: "1 \<le> opt_block_restart_interval (tb_options tb)" and fin: "tb_Finish cd tb = (OK, tb')"
  shows "\<exists>fl' ies' iris'. table_file cd (tb_options tb) (wf_data (tb_file tb')) fl' ies' iris' \<and> tb_sep Compare valid fl' ies' [] \<and>
     map entry_kv (fl_entries fl') = map entry_kv (fl_entries fl @ es) \<and> tb_FileSize tb' = length (wf_data (tb_file tb'))"
proof -
  define tb0 where "tb0 = (tb_Flush cd tb)\<lparr>tb_closed := True\<rparr>"
  obtain fh tb1 where w1: "write_filter tb0 = (fh, tb1)" by (cases "write_filter tb0")
  obtain mh tb2 where w2: "write_metaindex cd fh tb1 = (mh, tb2)" by (cases "write_metaindex cd fh tb1")
  obtain ih tb3 where w3: "write_index cd tb2 = (ih, tb3)" by (cases "write_index cd tb2")
  have tb': "tb' = write_footer mh ih tb3" "tb_ok tb'"
    using fin by (auto simp: tb_Finish_def Let_def w1 w2 w3 tb_ok_def simp flip: tb0_def)
  note foot = write_footer_ok [OF tb'(2) [unfolded tb'(1)]]
  have ok2: "tb_ok tb2" using foot(1) w3 by (cases "tb_ok tb2") (auto simp: write_index_def)
  have ok1: "tb_ok tb1" using ok2 w2 by (cases "tb_ok tb1") (auto simp: write_metaindex_def)
  have ok0: "tb_ok tb0" using ok1 w1 by (cases "tb_ok tb0") (auto simp: write_filter_def split: option.splits)
  have "\<exists>fl0. tb_inv cd tb0 fl0 ies iris [] [0] \<and> tb_sep Compare valid fl0 ies [] \<and> map entry_kv (fl_entries fl0) = map entry_kv (fl_entries fl @ es)"
  proof (cases "es = []")
    case True
    then have "ris = [0]" using inv by (simp add: tb_inv_def bb_rep_def)
    moreover have "tb_Flush cd tb = tb" using True inv bb_rep_empty by (auto simp: tb_Flush_def tb_inv_def)
    ultimately show ?thesis using inv sep True by (intro exI [of _ fl]) (simp add: tb0_def tb_inv_closed)
  next
    case False
    have "tb_ok (tb_Flush cd tb)" using ok0 by (simp add: tb0_def tb_ok_def)
    from tb_inv_Flush [OF inv this False] obtain h where h: "tb_inv cd (tb_Flush cd tb) (fl @ [(h, es, ris)]) ies iris [] [0]" by blast
    have "tb_inv cd tb0 (fl @ [(h, es, ris)]) ies iris [] [0]" using h by (simp add: tb0_def tb_inv_closed)
    moreover have "tb_sep Compare valid (fl @ [(h, es, ris)]) ies []"
      using sep index_ok_le [of tb fl ies es] inv by (auto simp: tb_sep_def tb_inv_def fl_entries_def)
    ultimately show ?thesis by (intro exI [of _ "fl @ [(h, es, ris)]"]) (simp add: fl_entries_def)
  qed
  then obtain fl0 where inv0: "tb_inv cd tb0 fl0 ies iris [] [0]" and sep0: "tb_sep Compare valid fl0 ies []"
    and kvs: "map entry_kv (fl_entries fl0) = map entry_kv (fl_entries fl @ es)" by blast
  have o0: "tb_options tb0 = tb_options tb" by (simp add: tb0_def)
  have f0: "file_ok cd tb0 fl0" and idx: "index_ok tb0 fl0 ies []" and fil: "filter_ok tb0 fl0 []" using inv0 by (auto simp: tb_inv_def)
  note s1 = write_filter_ok [OF w1 ok1 f0 ok0]
  have o1: "tb_options tb1 = tb_options tb" using s1(2) o0 by (simp add: extends_def)
  obtain raw mes mris where g2: "grows cd tb1 mh raw tb2" and me: "stored_entries cd (wf_data (tb_file tb2)) mh mes mris"
    "map entry_kv mes = (if tb_filter_block tb1 = None then [] else [(filter_key (tb_options tb1), BlockHandle_EncodeTo fh [])])"
    using write_metaindex_ok [OF w2 ok2 s1(1) ok1] i o1 by auto
  note f2 = grows_file_ok(1) [OF g2 s1(1)] and fr2 = grows_frame [OF g2]
  obtain tba b tbb where tba: "tba = (if tb_pending_index_entry tb2
        then add_index_entry (cmp_FindShortSuccessor (opt_comparator (tb_options tb2)) (tb_last_key tb2)) tb2 else tb2)"
    and g3: "grows cd tba ih (fst (bb_Finish (tb_index_block tba))) tbb" and t3: "tb3 = tbb\<lparr>tb_index_block := b\<rparr>" and fa: "file_ok cd tba fl0"
    using write_index_ok [OF w3 foot(1) f2 ok2] by blast
  note f3 = grows_file_ok [OF g3 fa]
  have "\<exists>ies1 iris1. bb_rep (tb_index_block tba) ies1 iris1 \<and> length ies1 = length fl0 \<and>
      (\<forall>i < length ies1. e_value (ies1 ! i) = BlockHandle_EncodeTo (fst (fl0 ! i)) []) \<and> tb_sep Compare valid fl0 ies1 []"
  proof (cases "tb_pending_index_entry tb2")
    case True
    let ?s = "FindShortSuccessor (last_key (fl_entries fl0))"
    have p0: "tb_pending_index_entry tb0" using True fr2 s1 by simp
    have lk: "tb_last_key tb2 = last_key (fl_entries fl0)" using fr2 s1 inv0 by (simp add: tb_inv_def)
    obtain ie iris1 where ie: "e_key ie = ?s" "bb_rep (tb_index_block (add_index_entry ?s tb0)) (ies @ [ie]) iris1"
      "length fl0 = length (ies @ [ie])"
      "\<forall>i < length (ies @ [ie]). e_value ((ies @ [ie]) ! i) = BlockHandle_EncodeTo (fst (fl0 ! i)) []"
      using inv_add_index_entry [OF inv0 p0, of ?s] by blast
    have "tb_index_block tba = tb_index_block (add_index_entry ?s tb0)"
      using True cmp o1 fr2 s1 lk by (simp add: tba add_index_entry_def uses_comparator_def)
    moreover have "tb_sep Compare valid fl0 (ies @ [ie]) []" using sep_final [OF sep0 f0 _ ie(1)] ie(3) by simp
    ultimately show ?thesis using ie by (intro exI [of _ "ies @ [ie]"] exI [of _ iris1]) simp
  next
    case False
    then have "\<not> tb_pending_index_entry tb0" "tba = tb2" using fr2 s1 by (simp_all add: tba)
    then show ?thesis using idx inv0 fr2 s1 sep0 by (intro exI [of _ ies] exI [of _ iris]) (auto simp: index_ok_def tb_inv_def)
  qed
  then obtain ies1 iris1 where ix: "bb_rep (tb_index_block tba) ies1 iris1" "length ies1 = length fl0"
      "\<forall>i < length ies1. e_value (ies1 ! i) = BlockHandle_EncodeTo (fst (fl0 ! i)) []" "tb_sep Compare valid fl0 ies1 []" by blast
  have e2: "extends tb2 tb3" using grows_extends [OF g3] by (auto simp: extends_def t3 tba add_index_entry_def)
  have e3: "extends tb3 tb'" using foot(1,2) by (auto simp: extends_def tb'(1)) (simp add: write_footer_def Let_def case_prod_beta)
  note ext = extends_trans [OF e2 e3]
  have f4: "file_ok cd tb3 fl0" using f3(1) by (simp add: t3 file_ok_def)
  let ?data = "wf_data (tb_file tb')"
  have blocks: "\<forall>(h, es, ris) \<in> set fl0. es \<noteq> [] \<and> stored_entries cd ?data h es ris" "sorted_wrt (<) (map (unat \<circ> bh_offset \<circ> fst) fl0)"
    using f4 extends_stored [OF e3] by (fastforce simp: file_ok_def stored_entries_def)+
  have len: "length ?data < 2 ^ 32" using f4 foot(2,3) by (simp add: file_ok_def tb'(1) length_Footer)
  have sidx: "stored_entries cd ?data ih ies1 iris1"
    using f3(2) ix(1) extends_stored [OF e3] by (auto simp: stored_entries_def t3)
  have smeta: "stored_entries cd ?data mh mes mris" using me(1) extends_stored [OF ext] by (auto simp: stored_entries_def)
  have mkv: "map entry_kv mes = (case opt_filter_policy (tb_options tb) of None \<Rightarrow> [] | Some fp \<Rightarrow> [(filter_key (tb_options tb), BlockHandle_EncodeTo fh [])])"
    using me(2) s1(7) fil o0 o1 by (auto simp: filter_ok_def split: option.split)
  have sfil: "stored cd ?data fh (fst (fb_Finish (fp_CreateFilter fp) (fb_run (fp_CreateFilter fp) (fl_hist fl0 @ [(tb_offset tb0, [])]) FilterBlockBuilder_new)))"
    if "opt_filter_policy (tb_options tb) = Some fp" for fp
  proof -
    have "tb_filter_block tb0 = Some (fb_run (fp_CreateFilter fp) (fl_hist fl0 @ [(tb_offset tb0, [])]) FilterBlockBuilder_new)"
      using fil o0 that by (simp add: filter_ok_def)
    from s1(8) [OF this] show ?thesis
      using extends_stored [OF extends_trans [OF grows_extends [OF g2] ext]] that o0 by (simp add: fp_create_simp)
  qed
  have off: "\<forall>x \<in> set fl0. unat (bh_offset (fst x)) < tb_offset tb0" using f0 by (auto simp: file_ok_def)
  have "table_file cd (tb_options tb) ?data fl0 ies1 iris1"
    unfolding table_file_def using len ix(2,3) blocks sidx smeta mkv sfil off foot(2) tb'(1) by blast
  moreover have "tb_FileSize tb' = length ?data"
    using f4 foot tb' by (simp add: tb_FileSize_def file_ok_def length_Footer) (simp add: write_footer_def Let_def case_prod_beta wf_Append_ok length_Footer)
  ultimately show ?thesis using ix(4) kvs by blast
qed

end

end
