(* ===== verification/Two_Level_Iterator.thy ===== *)
theory Two_Level_Iterator
  imports Block
begin

text \<open>
  \<^verbatim>\<open>src/leveldb/table/two_level_iterator.cc\<close>: the iterator over an index block whose values are turned
  into iterators over data blocks by the block function.  \<^verbatim>\<open>IteratorWrapper\<close> only caches \<^verbatim>\<open>Valid()\<close>
  and \<^verbatim>\<open>key()\<close> of the iterator it holds; a null wrapper is \<^term>\<open>None\<close>.  The loops that skip empty
  blocks end for every index block and every block function, because the index iterator moves
  on or becomes invalid.
\<close>

section \<open>Moving a block iterator makes progress\<close>

definition forward_measure :: "Iterator \<Rightarrow> nat" where
  "forward_measure i =
     (case i of EmptyIterator s \<Rightarrow> 0
      | BlockIterator it \<Rightarrow> if Iter_Valid it then Suc (unat (bi_restarts it) - NextEntryOffset it) else 0)"

definition backward_measure :: "Iterator \<Rightarrow> nat" where
  "backward_measure i =
     (case i of EmptyIterator s \<Rightarrow> 0 | BlockIterator it \<Rightarrow> if Iter_Valid it then Suc (bi_current it) else 0)"

lemma ParseNextKey_False: "ParseNextKey it = (False, it') \<Longrightarrow> \<not> Iter_Valid it'"
  by (auto simp: ParseNextKey_def Let_def Iter_Valid_def CorruptionError_def split: if_splits option.splits)

lemma ParseNextKey_current: "ParseNextKey it = (True, it') \<Longrightarrow> bi_current it' = NextEntryOffset it"
  by (auto simp: ParseNextKey_def Let_def split: if_splits option.splits)

lemma forward_progress: "it_Valid i \<Longrightarrow> forward_measure (it_move Iter_Next i) < forward_measure i"
proof (cases i)
  case (BlockIterator it)
  assume v: "it_Valid i"
  obtain ok it' where p: "ParseNextKey it = (ok, it')" by (cases "ParseNextKey it")
  show ?thesis
  proof (cases ok)
    case True
    then show ?thesis using v BlockIterator p ParseNextKey_progress [of it it'] by (auto simp: forward_measure_def Iter_Next_def)
  next
    case False
    then show ?thesis using v BlockIterator p ParseNextKey_False [of it it'] by (auto simp: forward_measure_def Iter_Next_def)
  qed
qed simp

lemma parse_while_before:
  "NextEntryOffset it < original \<Longrightarrow>
   \<not> Iter_Valid (parse_while (\<lambda>it'. NextEntryOffset it' < original) it) \<or>
   bi_current (parse_while (\<lambda>it'. NextEntryOffset it' < original) it) < original"
proof (induction "unat (bi_restarts it) - NextEntryOffset it" arbitrary: it rule: less_induct)
  case less
  obtain ok it' where p: "ParseNextKey it = (ok, it')" by (cases "ParseNextKey it")
  show ?case
  proof (cases ok)
    case True
    then have q: "NextEntryOffset it < NextEntryOffset it' \<and> NextEntryOffset it' \<le> unat (bi_restarts it) \<and> bi_restarts it' = bi_restarts it"
      using ParseNextKey_progress [of it it'] p by simp
    show ?thesis using less.hyps [of it'] less.prems q p True ParseNextKey_current [of it it']
      by (cases "NextEntryOffset it' < original") (auto simp: parse_while.simps [of _ it])
  next
    case False
    then show ?thesis using p ParseNextKey_False [of it it'] by (simp add: parse_while.simps [of _ it])
  qed
qed

lemma prev_restart_less: "prev_restart it original ri = Some r \<Longrightarrow> GetRestartPoint it r < original"
  by (induction ri) (auto split: if_splits)

lemma SeekToRestartPoint_offset: "NextEntryOffset (SeekToRestartPoint r it) = GetRestartPoint it r"
  using unsigned_less [of "DecodeFixed32 (drop (unat (bi_restarts it) + r * 4) (bi_data it))", where 'a = nat]
  by (simp add: NextEntryOffset_def SeekToRestartPoint_def GetRestartPoint_def)

lemma backward_progress: "it_Valid i \<Longrightarrow> backward_measure (it_move Iter_Prev i) < backward_measure i"
proof (cases i)
  case (BlockIterator it)
  assume v: "it_Valid i"
  show ?thesis
  proof (cases "prev_restart it (bi_current it) (bi_restart_index it)")
    case None
    then show ?thesis using v BlockIterator by (simp add: backward_measure_def Iter_Prev_def Iter_Valid_def)
  next
    case (Some r)
    then show ?thesis
      using v BlockIterator parse_while_before [of "SeekToRestartPoint r it" "bi_current it"] prev_restart_less [OF Some]
      by (auto simp: backward_measure_def Iter_Prev_def SeekToRestartPoint_offset)
  qed
qed simp

section \<open>The iterator\<close>

record TwoLevelIterator =
  tl_index :: Iterator
  tl_data :: "Iterator option"
  tl_handle :: string
  tl_saved :: Status

definition NewTwoLevelIterator :: "Iterator \<Rightarrow> TwoLevelIterator" where
  "NewTwoLevelIterator index_iter = \<lparr>tl_index = index_iter, tl_data = None, tl_handle = [], tl_saved = OK\<rparr>"

definition tl_Valid :: "TwoLevelIterator \<Rightarrow> bool" where
  "tl_Valid t = (case tl_data t of None \<Rightarrow> False | Some d \<Rightarrow> it_Valid d)"

definition tl_key :: "TwoLevelIterator \<Rightarrow> string" where
  "tl_key t = (case tl_data t of None \<Rightarrow> [] | Some d \<Rightarrow> it_key d)"

definition tl_value :: "TwoLevelIterator \<Rightarrow> string" where
  "tl_value t = (case tl_data t of None \<Rightarrow> [] | Some d \<Rightarrow> it_value d)"

definition tl_status :: "TwoLevelIterator \<Rightarrow> Status" where
  "tl_status t =
     (if \<not> Status_ok (it_status (tl_index t)) then it_status (tl_index t)
      else case tl_data t of
             Some d \<Rightarrow> if \<not> Status_ok (it_status d) then it_status d else tl_saved t
           | None \<Rightarrow> tl_saved t)"

definition SaveError :: "Status \<Rightarrow> TwoLevelIterator \<Rightarrow> TwoLevelIterator" where
  "SaveError s t = (if Status_ok (tl_saved t) \<and> \<not> Status_ok s then t\<lparr>tl_saved := s\<rparr> else t)"

definition SetDataIterator :: "Iterator option \<Rightarrow> TwoLevelIterator \<Rightarrow> TwoLevelIterator" where
  "SetDataIterator d t =
     (let t1 = (case tl_data t of None \<Rightarrow> t | Some old \<Rightarrow> SaveError (it_status old) t)
      in t1\<lparr>tl_data := d\<rparr>)"

definition InitDataBlock :: "(string \<Rightarrow> Iterator) \<Rightarrow> TwoLevelIterator \<Rightarrow> TwoLevelIterator" where
  "InitDataBlock block_function t =
     (if \<not> it_Valid (tl_index t) then SetDataIterator None t
      else let handle = it_value (tl_index t)
           in if tl_data t \<noteq> None \<and> Slice_compare handle (tl_handle t) = 0 then t
              else SetDataIterator (Some (block_function handle)) (t\<lparr>tl_handle := handle\<rparr>))"

definition on_data :: "(BlockIter \<Rightarrow> BlockIter) \<Rightarrow> TwoLevelIterator \<Rightarrow> TwoLevelIterator" where
  "on_data f t = t\<lparr>tl_data := map_option (it_move f) (tl_data t)\<rparr>"

definition on_index :: "(BlockIter \<Rightarrow> BlockIter) \<Rightarrow> TwoLevelIterator \<Rightarrow> TwoLevelIterator" where
  "on_index f t = t\<lparr>tl_index := it_move f (tl_index t)\<rparr>"

lemma tl_index_simps [simp]:
  "tl_index (on_data f t) = tl_index t" "tl_index (on_index f t) = it_move f (tl_index t)"
  "tl_index (SetDataIterator d t) = tl_index t" "tl_index (InitDataBlock bf t) = tl_index t"
  by (simp_all add: on_data_def on_index_def SetDataIterator_def SaveError_def InitDataBlock_def Let_def split: option.split)

function SkipEmptyDataBlocksForward :: "(string \<Rightarrow> Iterator) \<Rightarrow> TwoLevelIterator \<Rightarrow> TwoLevelIterator" where
  "SkipEmptyDataBlocksForward bf t =
     (if tl_Valid t then t
      else if \<not> it_Valid (tl_index t) then SetDataIterator None t
      else SkipEmptyDataBlocksForward bf (on_data Iter_SeekToFirst (InitDataBlock bf (on_index Iter_Next t))))"
  by pat_completeness auto
termination
  by (relation "measure (\<lambda>(bf, t). forward_measure (tl_index t))") (auto simp: forward_progress)

function SkipEmptyDataBlocksBackward :: "(string \<Rightarrow> Iterator) \<Rightarrow> TwoLevelIterator \<Rightarrow> TwoLevelIterator" where
  "SkipEmptyDataBlocksBackward bf t =
     (if tl_Valid t then t
      else if \<not> it_Valid (tl_index t) then SetDataIterator None t
      else SkipEmptyDataBlocksBackward bf (on_data Iter_SeekToLast (InitDataBlock bf (on_index Iter_Prev t))))"
  by pat_completeness auto
termination
  by (relation "measure (\<lambda>(bf, t). backward_measure (tl_index t))") (auto simp: backward_progress)

declare SkipEmptyDataBlocksForward.simps [simp del] SkipEmptyDataBlocksBackward.simps [simp del]

definition tl_Seek :: "(string \<Rightarrow> string \<Rightarrow> int) \<Rightarrow> (string \<Rightarrow> Iterator) \<Rightarrow> string \<Rightarrow> TwoLevelIterator \<Rightarrow> TwoLevelIterator" where
  "tl_Seek cmp bf target t =
     SkipEmptyDataBlocksForward bf (on_data (Iter_Seek cmp target) (InitDataBlock bf (on_index (Iter_Seek cmp target) t)))"

definition tl_SeekToFirst :: "(string \<Rightarrow> Iterator) \<Rightarrow> TwoLevelIterator \<Rightarrow> TwoLevelIterator" where
  "tl_SeekToFirst bf t =
     SkipEmptyDataBlocksForward bf (on_data Iter_SeekToFirst (InitDataBlock bf (on_index Iter_SeekToFirst t)))"

definition tl_SeekToLast :: "(string \<Rightarrow> Iterator) \<Rightarrow> TwoLevelIterator \<Rightarrow> TwoLevelIterator" where
  "tl_SeekToLast bf t =
     SkipEmptyDataBlocksBackward bf (on_data Iter_SeekToLast (InitDataBlock bf (on_index Iter_SeekToLast t)))"

definition tl_Next :: "(string \<Rightarrow> Iterator) \<Rightarrow> TwoLevelIterator \<Rightarrow> TwoLevelIterator" where
  "tl_Next bf t = SkipEmptyDataBlocksForward bf (on_data Iter_Next t)"

definition tl_Prev :: "(string \<Rightarrow> Iterator) \<Rightarrow> TwoLevelIterator \<Rightarrow> TwoLevelIterator" where
  "tl_Prev bf t = SkipEmptyDataBlocksBackward bf (on_data Iter_Prev t)"

section \<open>Positions in a list of lists\<close>

definition block_off :: "'a list list \<Rightarrow> nat \<Rightarrow> nat" where
  "block_off xss b = length (concat (take b xss))"

lemma block_off_0 [simp]: "block_off xss 0 = 0"
  by (simp add: block_off_def)

lemma block_off_Suc: "b < length xss \<Longrightarrow> block_off xss (Suc b) = block_off xss b + length (xss ! b)"
  by (simp add: block_off_def take_Suc_conv_app_nth)

lemma block_off_all: "length xss \<le> b \<Longrightarrow> block_off xss b = length (concat xss)"
  by (simp add: block_off_def)

lemma concat_split_at: "b < length xss \<Longrightarrow> concat xss = concat (take b xss) @ xss ! b @ concat (drop (Suc b) xss)"
  by (metis concat.simps(2) concat_append id_take_nth_drop)

lemma block_off_le: "b < length xss \<Longrightarrow> block_off xss b + length (xss ! b) \<le> length (concat xss)"
  unfolding block_off_def by (subst (2) concat_split_at [of b]) simp_all

lemma concat_nth_block: "b < length xss \<Longrightarrow> i < length (xss ! b) \<Longrightarrow> concat xss ! (block_off xss b + i) = xss ! b ! i"
  unfolding block_off_def by (subst concat_split_at [of b]) (simp_all add: nth_append)

section \<open>The two-level iterator refines a cursor into the concatenation\<close>

definition tl_layout :: "(string \<Rightarrow> Iterator) \<Rightarrow> entry list \<Rightarrow> nat list \<Rightarrow> (entry list \<times> nat list) list \<Rightarrow> bool" where
  "tl_layout bf ies iris blks \<longleftrightarrow>
     length ies = length blks \<and> distinct (map e_value ies) \<and>
     (\<forall>b < length blks. fst (blks ! b) \<noteq> [] \<and>
        (\<exists>it. bf (e_value (ies ! b)) = BlockIterator it \<and> cursor (fst (blks ! b)) (snd (blks ! b)) it None))"

definition tl_kvs :: "(entry list \<times> nat list) list \<Rightarrow> (string \<times> string) list" where
  "tl_kvs blks = map entry_kv (concat (map fst blks))"

definition data_at :: "entry list \<Rightarrow> (entry list \<times> nat list) list \<Rightarrow> TwoLevelIterator \<Rightarrow> nat \<Rightarrow> nat option \<Rightarrow> bool" where
  "data_at ies blks t b c \<longleftrightarrow>
     b < length blks \<and> tl_handle t = e_value (ies ! b) \<and>
     (\<exists>it. tl_data t = Some (BlockIterator it) \<and> cursor (fst (blks ! b)) (snd (blks ! b)) it c)"

definition tl_pre :: "(string \<Rightarrow> Iterator) \<Rightarrow> entry list \<Rightarrow> nat list \<Rightarrow> (entry list \<times> nat list) list \<Rightarrow> TwoLevelIterator \<Rightarrow> nat option \<Rightarrow> bool" where
  "tl_pre bf ies iris blks t d \<longleftrightarrow>
     tl_layout bf ies iris blks \<and> tl_saved t = OK \<and> (\<exists>ii. tl_index t = BlockIterator ii \<and> cursor ies iris ii d) \<and>
     (tl_data t = None \<or> (\<exists>b c. data_at ies blks t b c))"

fun tl_rel :: "(string \<Rightarrow> Iterator) \<Rightarrow> entry list \<Rightarrow> nat list \<Rightarrow> (entry list \<times> nat list) list \<Rightarrow> TwoLevelIterator \<Rightarrow> nat option \<Rightarrow> bool" where
  "tl_rel bf ies iris blks t None \<longleftrightarrow> (\<exists>d. tl_pre bf ies iris blks t d) \<and> tl_data t = None"
| "tl_rel bf ies iris blks t (Some n) \<longleftrightarrow>
     (\<exists>b i. tl_pre bf ies iris blks t (Some b) \<and> data_at ies blks t b (Some i) \<and> n = block_off (map fst blks) b + i)"

declare tl_rel.simps [simp del]

lemma rel_SomeE:
  assumes "tl_rel bf ies iris blks t (Some n)"
  obtains b i where "tl_pre bf ies iris blks t (Some b)" "data_at ies blks t b (Some i)" "n = block_off (map fst blks) b + i"
  using assms by (auto simp: tl_rel.simps)

lemma data_at_status: "data_at ies blks t b c \<Longrightarrow> tl_data t = Some d \<Longrightarrow> it_status d = OK"
  by (auto simp: data_at_def built_def dest: cursor_built)

lemma SetDataIterator_pre:
  assumes "tl_pre bf ies iris blks t d"
  shows "SetDataIterator x t = t\<lparr>tl_data := x\<rparr>"
  using assms by (auto simp: tl_pre_def SetDataIterator_def SaveError_def dest!: data_at_status split: option.split)

lemma pre_on_index:
  assumes "tl_pre bf ies iris blks t d" and "\<And>ii. cursor ies iris ii d \<Longrightarrow> cursor ies iris (f ii) d'"
  shows "tl_pre bf ies iris blks (on_index f t) d'"
  using assms by (fastforce simp: tl_pre_def on_index_def data_at_def)

lemma pre_on_data:
  assumes "tl_pre bf ies iris blks t d" and "data_at ies blks t b c"
    and "\<And>it. cursor (fst (blks ! b)) (snd (blks ! b)) it c \<Longrightarrow> cursor (fst (blks ! b)) (snd (blks ! b)) (f it) c'"
  shows "tl_pre bf ies iris blks (on_data f t) d" "data_at ies blks (on_data f t) b c'"
proof -
  show *: "data_at ies blks (on_data f t) b c'" using assms(2,3) by (auto simp: data_at_def on_data_def)
  have "tl_saved (on_data f t) = tl_saved t" by (simp add: on_data_def)
  then show "tl_pre bf ies iris blks (on_data f t) d" using assms(1) * by (auto simp: tl_pre_def)
qed

lemma pre_Init_None:
  assumes "tl_pre bf ies iris blks t None"
  shows "tl_rel bf ies iris blks (on_data f (InitDataBlock bf t)) None" "tl_data (on_data f (InitDataBlock bf t)) = None"
    "\<not> it_Valid (tl_index t)"
proof -
  obtain ii where "tl_index t = BlockIterator ii" "cursor ies iris ii None" using assms by (auto simp: tl_pre_def)
  then show v: "\<not> it_Valid (tl_index t)" using cursor_Valid [of ies iris ii None] by (simp del: cursor.simps)
  then have i: "InitDataBlock bf t = t\<lparr>tl_data := None\<rparr>" by (simp add: InitDataBlock_def SetDataIterator_pre [OF assms])
  show "tl_data (on_data f (InitDataBlock bf t)) = None" by (simp add: i on_data_def)
  show "tl_rel bf ies iris blks (on_data f (InitDataBlock bf t)) None"
    using assms by (auto simp: i on_data_def tl_pre_def tl_rel.simps intro!: exI [of _ None])
qed

lemma pre_Init_Some:
  assumes pre: "tl_pre bf ies iris blks t (Some b)"
  shows "\<exists>c. tl_pre bf ies iris blks (InitDataBlock bf t) (Some b) \<and> data_at ies blks (InitDataBlock bf t) b c"
proof -
  obtain ii where ii: "tl_index t = BlockIterator ii" "cursor ies iris ii (Some b)" using pre by (auto simp: tl_pre_def)
  have lay: "tl_layout bf ies iris blks" using pre by (simp add: tl_pre_def)
  have b: "b < length ies" "b < length blks" using ii(2) lay by (auto simp: at_entry_def tl_layout_def)
  have v: "it_Valid (tl_index t)" "it_value (tl_index t) = e_value (ies ! b)"
    using ii cursor_Valid [OF ii(2)] by (auto simp: at_entry_def)
  show ?thesis
  proof (cases "tl_data t \<noteq> None \<and> Slice_compare (e_value (ies ! b)) (tl_handle t) = 0")
    case True
    then have i: "InitDataBlock bf t = t" using v by (simp add: InitDataBlock_def)
    obtain b' c where b': "data_at ies blks t b' c" using True pre by (auto simp: tl_pre_def)
    then have "e_value (ies ! b') = e_value (ies ! b)" "b' < length ies" using True lay by (auto simp: data_at_def tl_layout_def)
    moreover have "distinct (map e_value ies)" using lay by (simp add: tl_layout_def)
    ultimately have "b' = b" using b nth_eq_iff_index_eq [of "map e_value ies" b' b] by simp
    then show ?thesis using i b' pre by auto
  next
    case False
    obtain it where it: "bf (e_value (ies ! b)) = BlockIterator it" "cursor (fst (blks ! b)) (snd (blks ! b)) it None"
      using lay b by (auto simp: tl_layout_def)
    have "SetDataIterator x (t\<lparr>tl_handle := h\<rparr>) = t\<lparr>tl_handle := h, tl_data := x\<rparr>" for x h
      using pre by (auto simp: tl_pre_def SetDataIterator_def SaveError_def dest!: data_at_status split: option.split)
    then have i: "InitDataBlock bf t = t\<lparr>tl_handle := e_value (ies ! b), tl_data := Some (BlockIterator it)\<rparr>"
      using v False it by (auto simp: InitDataBlock_def Let_def)
    have "data_at ies blks (InitDataBlock bf t) b None" using it b by (simp add: i data_at_def)
    moreover have "tl_pre bf ies iris blks (InitDataBlock bf t) (Some b)"
      using pre calculation by (auto simp: tl_pre_def i)
    ultimately show ?thesis by blast
  qed
qed

lemma data_at_Valid: "data_at ies blks t b c \<Longrightarrow> tl_Valid t \<longleftrightarrow> c \<noteq> None"
  by (auto simp: data_at_def tl_Valid_def cursor_Valid simp del: cursor.simps)

lemma rel_intro:
  "tl_pre bf ies iris blks t (Some b) \<Longrightarrow> data_at ies blks t b (Some i) \<Longrightarrow>
   tl_rel bf ies iris blks t (Some (block_off (map fst blks) b + i))"
  by (auto simp: tl_rel.simps)

lemma skip_done:
  assumes "data_at ies blks t b (Some i)"
  shows "SkipEmptyDataBlocksForward bf t = t" "SkipEmptyDataBlocksBackward bf t = t"
  using data_at_Valid [OF assms] by (simp_all add: SkipEmptyDataBlocksForward.simps [of bf t] SkipEmptyDataBlocksBackward.simps [of bf t])

lemma skip_None:
  assumes "tl_rel bf ies iris blks t None" "\<not> it_Valid (tl_index t)"
  shows "SkipEmptyDataBlocksForward bf t = t" "SkipEmptyDataBlocksBackward bf t = t"
  using assms by (auto simp: SkipEmptyDataBlocksForward.simps [of bf t] SkipEmptyDataBlocksBackward.simps [of bf t]
      tl_rel.simps tl_Valid_def SetDataIterator_pre)

lemma Init_None_skip:
  assumes "tl_pre bf ies iris blks t None"
  shows "tl_rel bf ies iris blks (SkipEmptyDataBlocksForward bf (on_data f (InitDataBlock bf t))) None"
    "tl_rel bf ies iris blks (SkipEmptyDataBlocksBackward bf (on_data f (InitDataBlock bf t))) None"
proof -
  have r: "tl_rel bf ies iris blks (on_data f (InitDataBlock bf t)) None" "\<not> it_Valid (tl_index (on_data f (InitDataBlock bf t)))"
    using pre_Init_None [OF assms] by simp_all
  show "tl_rel bf ies iris blks (SkipEmptyDataBlocksForward bf (on_data f (InitDataBlock bf t))) None"
    "tl_rel bf ies iris blks (SkipEmptyDataBlocksBackward bf (on_data f (InitDataBlock bf t))) None"
    using skip_None [OF r] r(1) by simp_all
qed

text \<open>Moving the index, opening the block there and going to its first or last entry.\<close>

lemma enter_block:
  assumes pre: "tl_pre bf ies iris blks t (Some b)" and f: "\<And>it c. cursor (fst (blks ! b)) (snd (blks ! b)) it c \<Longrightarrow>
      cursor (fst (blks ! b)) (snd (blks ! b)) (f it) c'"
  shows "tl_pre bf ies iris blks (on_data f (InitDataBlock bf t)) (Some b)" "data_at ies blks (on_data f (InitDataBlock bf t)) b c'"
proof -
  obtain c where c: "tl_pre bf ies iris blks (InitDataBlock bf t) (Some b)" "data_at ies blks (InitDataBlock bf t) b c"
    using pre_Init_Some [OF pre] by blast
  show "tl_pre bf ies iris blks (on_data f (InitDataBlock bf t)) (Some b)" "data_at ies blks (on_data f (InitDataBlock bf t)) b c'"
    using pre_on_data [OF c f] by auto
qed

lemma pre_block:
  assumes "tl_pre bf ies iris blks t d" "b < length blks"
  shows "fst (blks ! b) \<noteq> []" "length ies = length blks"
  using assms by (auto simp: tl_pre_def tl_layout_def)

lemma next_block:
  assumes pre: "tl_pre bf ies iris blks t (Some b)"
  shows "tl_rel bf ies iris blks (SkipEmptyDataBlocksForward bf (on_data Iter_SeekToFirst (InitDataBlock bf (on_index Iter_Next t))))
    (if Suc b < length blks then Some (block_off (map fst blks) (Suc b)) else None)"
proof -
  have b: "b < length blks" "length ies = length blks" using pre by (auto simp: tl_pre_def tl_layout_def at_entry_def)
  have p: "tl_pre bf ies iris blks (on_index Iter_Next t) (next_pos (length ies) b)"
    by (rule pre_on_index [OF pre]) (rule cursor_Next)
  show ?thesis
  proof (cases "Suc b < length blks")
    case True
    then have p1: "tl_pre bf ies iris blks (on_index Iter_Next t) (Some (Suc b))" using p b by (simp add: next_pos_def)
    have f: "cursor (fst (blks ! Suc b)) (snd (blks ! Suc b)) it c \<Longrightarrow>
        cursor (fst (blks ! Suc b)) (snd (blks ! Suc b)) (Iter_SeekToFirst it) (Some 0)" for it c
      using cursor_SeekToFirst [of "fst (blks ! Suc b)" _ it c] pre_block(1) [OF pre True] by (simp add: first_pos_def)
    note e = enter_block [OF p1 f]
    show ?thesis using rel_intro [OF e] skip_done(1) [OF e(2)] True by simp
  next
    case False
    then have p1: "tl_pre bf ies iris blks (on_index Iter_Next t) None" using p b by (simp add: next_pos_def)
    show ?thesis using Init_None_skip(1) [OF p1] False by simp
  qed
qed

lemma prev_block:
  assumes pre: "tl_pre bf ies iris blks t (Some b)"
  shows "tl_rel bf ies iris blks (SkipEmptyDataBlocksBackward bf (on_data Iter_SeekToLast (InitDataBlock bf (on_index Iter_Prev t))))
    (if b = 0 then None else Some (block_off (map fst blks) b - 1))"
proof -
  have b: "b < length blks" "length ies = length blks" using pre by (auto simp: tl_pre_def tl_layout_def at_entry_def)
  have p: "tl_pre bf ies iris blks (on_index Iter_Prev t) (prev_pos b)"
    by (rule pre_on_index [OF pre]) (rule cursor_Prev)
  show ?thesis
  proof (cases b)
    case (Suc k)
    then have p1: "tl_pre bf ies iris blks (on_index Iter_Prev t) (Some k)" using p by (simp add: prev_pos_def)
    have k: "k < length blks" and ne: "fst (blks ! k) \<noteq> []" using b Suc pre_block(1) [OF pre, of k] by auto
    have f: "cursor (fst (blks ! k)) (snd (blks ! k)) it c \<Longrightarrow>
        cursor (fst (blks ! k)) (snd (blks ! k)) (Iter_SeekToLast it) (Some (length (fst (blks ! k)) - 1))" for it c
      using cursor_SeekToLast [of "fst (blks ! k)" _ it c] ne by (simp add: last_pos_def)
    note e = enter_block [OF p1 f]
    have "block_off (map fst blks) k + (length (fst (blks ! k)) - 1) = block_off (map fst blks) b - 1"
      using ne k Suc by (simp add: block_off_Suc flip: length_greater_0_conv)
    then show ?thesis using rel_intro [OF e] skip_done(2) [OF e(2)] Suc by simp
  next
    case 0
    then have p1: "tl_pre bf ies iris blks (on_index Iter_Prev t) None" using p by (simp add: prev_pos_def)
    show ?thesis using Init_None_skip(2) [OF p1] 0 by simp
  qed
qed

lemma rel_pre: "tl_rel bf ies iris blks t c \<Longrightarrow> \<exists>d. tl_pre bf ies iris blks t d"
  by (cases c) (auto simp: tl_rel.simps)

lemma tl_rel_SeekToFirst:
  assumes "tl_rel bf ies iris blks t c"
  shows "tl_rel bf ies iris blks (tl_SeekToFirst bf t) (first_pos (length (tl_kvs blks)))"
proof -
  obtain d where pre: "tl_pre bf ies iris blks t d" using rel_pre [OF assms] by blast
  have p: "tl_pre bf ies iris blks (on_index Iter_SeekToFirst t) (first_pos (length ies))"
    by (rule pre_on_index [OF pre]) (rule cursor_SeekToFirst)
  have l: "length ies = length blks" using pre by (simp add: tl_pre_def tl_layout_def)
  show ?thesis
  proof (cases "blks = []")
    case True
    then have "tl_pre bf ies iris blks (on_index Iter_SeekToFirst t) None" using p l by (simp add: first_pos_def)
    then show ?thesis using Init_None_skip(1) True by (auto simp: tl_SeekToFirst_def first_pos_def tl_kvs_def)
  next
    case False
    then have p1: "tl_pre bf ies iris blks (on_index Iter_SeekToFirst t) (Some 0)" and z: "0 < length blks"
      using p l by (simp_all add: first_pos_def)
    have ne: "fst (blks ! 0) \<noteq> []" using pre_block(1) [OF pre z] .
    have f: "cursor (fst (blks ! 0)) (snd (blks ! 0)) it c \<Longrightarrow> cursor (fst (blks ! 0)) (snd (blks ! 0)) (Iter_SeekToFirst it) (Some 0)" for it c
      using cursor_SeekToFirst [of "fst (blks ! 0)" _ it c] ne by (simp add: first_pos_def)
    note e = enter_block [OF p1 f]
    have "tl_kvs blks \<noteq> []" using ne z by (auto simp: tl_kvs_def intro!: bexI [of _ "blks ! 0"])
    then show ?thesis using rel_intro [OF e] skip_done(1) [OF e(2)] by (simp add: tl_SeekToFirst_def first_pos_def)
  qed
qed

lemma length_tl_kvs: "length (tl_kvs blks) = length (concat (map fst blks))"
  by (simp add: tl_kvs_def)

lemma tl_rel_SeekToLast:
  assumes "tl_rel bf ies iris blks t c"
  shows "tl_rel bf ies iris blks (tl_SeekToLast bf t) (last_pos (length (tl_kvs blks)))"
proof -
  obtain d where pre: "tl_pre bf ies iris blks t d" using rel_pre [OF assms] by blast
  have p: "tl_pre bf ies iris blks (on_index Iter_SeekToLast t) (last_pos (length ies))"
    by (rule pre_on_index [OF pre]) (rule cursor_SeekToLast)
  have l: "length ies = length blks" using pre by (simp add: tl_pre_def tl_layout_def)
  show ?thesis
  proof (cases "blks = []")
    case True
    then have "tl_pre bf ies iris blks (on_index Iter_SeekToLast t) None" using p l by (simp add: last_pos_def)
    then show ?thesis using Init_None_skip(2) True by (auto simp: tl_SeekToLast_def last_pos_def tl_kvs_def)
  next
    case False
    then obtain k where k2: "length blks = Suc k" by (cases blks) auto
    then have k: "k < length blks" by simp
    have p1: "tl_pre bf ies iris blks (on_index Iter_SeekToLast t) (Some k)" using p l k2 by (simp add: last_pos_def)
    have ne: "fst (blks ! k) \<noteq> []" using pre_block(1) [OF pre k] .
    have f: "cursor (fst (blks ! k)) (snd (blks ! k)) it c \<Longrightarrow>
        cursor (fst (blks ! k)) (snd (blks ! k)) (Iter_SeekToLast it) (Some (length (fst (blks ! k)) - 1))" for it c
      using cursor_SeekToLast [of "fst (blks ! k)" _ it c] ne by (simp add: last_pos_def)
    note e = enter_block [OF p1 f]
    have "length (tl_kvs blks) = block_off (map fst blks) k + length (fst (blks ! k))"
      using block_off_Suc [of k "map fst blks"] block_off_all [of "map fst blks" "Suc k"] k2 by (simp add: length_tl_kvs)
    moreover obtain m where "length (fst (blks ! k)) = Suc m" using ne by (cases "fst (blks ! k)") auto
    ultimately have "last_pos (length (tl_kvs blks)) = Some (block_off (map fst blks) k + (length (fst (blks ! k)) - 1))"
      by (simp add: last_pos_def)
    then show ?thesis using rel_intro [OF e] skip_done(2) [OF e(2)] by (simp add: tl_SeekToLast_def)
  qed
qed

lemma data_at_bound: "data_at ies blks t b (Some i) \<Longrightarrow> b < length blks \<and> i < length (fst (blks ! b))"
  by (auto simp: data_at_def at_entry_def)

lemma tl_rel_Next:
  assumes "tl_rel bf ies iris blks t (Some n)"
  shows "tl_rel bf ies iris blks (tl_Next bf t) (next_pos (length (tl_kvs blks)) n)"
proof -
  obtain b i where r: "tl_pre bf ies iris blks t (Some b)" "data_at ies blks t b (Some i)" "n = block_off (map fst blks) b + i"
    using assms by (rule rel_SomeE)
  let ?es = "fst (blks ! b)" and ?ess = "map fst blks"
  have b: "b < length blks" "i < length ?es" using data_at_bound [OF r(2)] by auto
  have le: "block_off ?ess b + length ?es \<le> length (concat ?ess)" using block_off_le [of b ?ess] b by simp
  note d = pre_on_data [OF r(1,2), of Iter_Next "next_pos (length ?es) i"]
  have d: "tl_pre bf ies iris blks (on_data Iter_Next t) (Some b)" "data_at ies blks (on_data Iter_Next t) b (next_pos (length ?es) i)"
    using d cursor_Next by auto
  show ?thesis
  proof (cases "Suc i < length ?es")
    case True
    then have e: "data_at ies blks (on_data Iter_Next t) b (Some (Suc i))" using d by (simp add: next_pos_def)
    have "Suc n < length (concat ?ess)" using True r(3) le by simp
    then show ?thesis using rel_intro [OF d(1) e] skip_done(1) [OF e] r(3) by (simp add: tl_Next_def next_pos_def length_tl_kvs)
  next
    case False
    then have e: "data_at ies blks (on_data Iter_Next t) b None" and s: "Suc n = block_off ?ess (Suc b)"
      using d b r(3) by (simp_all add: next_pos_def block_off_Suc)
    have iv: "it_Valid (tl_index (on_data Iter_Next t))" using d(1) cursor_Valid [of ies iris _ "Some b"] by (auto simp: tl_pre_def simp del: cursor.simps)
    have "tl_Next bf t = SkipEmptyDataBlocksForward bf (on_data Iter_SeekToFirst (InitDataBlock bf (on_index Iter_Next (on_data Iter_Next t))))"
      using data_at_Valid [OF e] iv by (simp add: tl_Next_def SkipEmptyDataBlocksForward.simps [of bf "on_data Iter_Next t"])
    moreover
    have "Suc b < length blks \<longleftrightarrow> Suc n < length (concat ?ess)"
    proof
      assume "Suc b < length blks"
      then show "Suc n < length (concat ?ess)"
        using block_off_le [of "Suc b" ?ess] pre_block(1) [OF r(1), of "Suc b"] s by (simp flip: length_greater_0_conv)
    next
      assume "Suc n < length (concat ?ess)"
      then show "Suc b < length blks" using s block_off_all [of ?ess "Suc b"] by (cases "Suc b < length blks") simp_all
    qed
    then have "next_pos (length (tl_kvs blks)) n = (if Suc b < length blks then Some (block_off ?ess (Suc b)) else None)"
      using s by (simp add: next_pos_def length_tl_kvs)
    ultimately show ?thesis using next_block [OF d(1)] by (simp only:)
  qed
qed

lemma tl_rel_Prev:
  assumes "tl_rel bf ies iris blks t (Some n)"
  shows "tl_rel bf ies iris blks (tl_Prev bf t) (prev_pos n)"
proof -
  obtain b i where r: "tl_pre bf ies iris blks t (Some b)" "data_at ies blks t b (Some i)" "n = block_off (map fst blks) b + i"
    using assms by (rule rel_SomeE)
  let ?es = "fst (blks ! b)" and ?ess = "map fst blks"
  have d: "tl_pre bf ies iris blks (on_data Iter_Prev t) (Some b)" "data_at ies blks (on_data Iter_Prev t) b (prev_pos i)"
    using pre_on_data [OF r(1,2), of Iter_Prev "prev_pos i"] cursor_Prev by auto
  show ?thesis
  proof (cases i)
    case (Suc j)
    then have e: "data_at ies blks (on_data Iter_Prev t) b (Some j)" using d by (simp add: prev_pos_def)
    show ?thesis using rel_intro [OF d(1) e] skip_done(2) [OF e] r(3) Suc by (simp add: tl_Prev_def prev_pos_def)
  next
    case 0
    then have e: "data_at ies blks (on_data Iter_Prev t) b None" using d by (simp add: prev_pos_def)
    have iv: "it_Valid (tl_index (on_data Iter_Prev t))" using d(1) cursor_Valid [of ies iris _ "Some b"] by (auto simp: tl_pre_def simp del: cursor.simps)
    have "tl_Prev bf t = SkipEmptyDataBlocksBackward bf (on_data Iter_SeekToLast (InitDataBlock bf (on_index Iter_Prev (on_data Iter_Prev t))))"
      using data_at_Valid [OF e] iv by (simp add: tl_Prev_def SkipEmptyDataBlocksBackward.simps [of bf "on_data Iter_Prev t"])
    moreover
    have "b = 0 \<longleftrightarrow> n = 0"
    proof (cases b)
      case (Suc k)
      then have "k < length blks" using data_at_bound [OF r(2)] by simp
      then show ?thesis using pre_block(1) [OF r(1), of k] Suc r(3) by (simp add: block_off_Suc flip: length_greater_0_conv)
    qed (use r(3) 0 in simp)
    then have "prev_pos n = (if b = 0 then None else Some (block_off ?ess b - 1))" using r(3) 0 by (simp add: prev_pos_def)
    ultimately show ?thesis using prev_block [OF d(1)] by (simp only:)
  qed
qed

definition tl_kv :: "TwoLevelIterator \<Rightarrow> string \<times> string" where
  "tl_kv t = (tl_key t, tl_value t)"

lemma tl_rel_at:
  assumes "tl_rel bf ies iris blks t (Some n)"
  shows "n < length (tl_kvs blks) \<and> tl_kv t = tl_kvs blks ! n"
proof -
  obtain b i where r: "data_at ies blks t b (Some i)" "n = block_off (map fst blks) b + i" using assms by (rule rel_SomeE)
  have b: "b < length blks" "i < length (fst (blks ! b))" using data_at_bound [OF r(1)] by auto
  have n: "n < length (concat (map fst blks))" using block_off_le [of b "map fst blks"] b r(2) by simp
  have "concat (map fst blks) ! n = fst (blks ! b) ! i" using concat_nth_block [of b "map fst blks" i] b r(2) by simp
  moreover have "tl_kv t = entry_kv (fst (blks ! b) ! i)"
    using r(1) by (auto simp: data_at_def at_entry_def tl_kv_def tl_key_def tl_value_def entry_kv_def)
  ultimately show ?thesis using n by (simp add: tl_kvs_def)
qed

lemma tl_rel_Valid: "tl_rel bf ies iris blks t c \<Longrightarrow> tl_Valid t \<longleftrightarrow> c \<noteq> None"
  by (cases c) (auto dest: data_at_Valid simp: tl_Valid_def tl_rel.simps)

lemma tl_rel_status: "tl_rel bf ies iris blks t c \<Longrightarrow> tl_status t = OK"
  by (cases c)
    (auto simp: tl_rel.simps tl_status_def tl_pre_def built_def dest!: cursor_built dest: data_at_status simp del: cursor.simps split: option.split)

interpretation tl: kv_iterator tl_Valid tl_kv "tl_SeekToFirst bf" "tl_SeekToLast bf" "tl_Next bf" "tl_Prev bf"
  "tl_rel bf ies iris blks" "tl_kvs blks" for bf ies iris blks
  by unfold_locales (auto simp: tl_rel_Valid tl_rel_SeekToFirst tl_rel_SeekToLast tl_rel_Next tl_rel_Prev dest: tl_rel_at)

section \<open>Seeking\<close>

lemma split_at_append: "i < length B \<Longrightarrow> B @ C = take i B @ B ! i # drop (Suc i) B @ C"
proof -
  assume "i < length B"
  then have "B @ C = (take i B @ B ! i # drop (Suc i) B) @ C" by (rule arg_cong [OF id_take_nth_drop, of _ _ "\<lambda>x. x @ C"])
  then show ?thesis by (simp only: append_assoc append_Cons)
qed

definition tl_keys :: "(entry list \<times> nat list) list \<Rightarrow> string list list" where
  "tl_keys blks = map (map e_key \<circ> fst) blks"

lemma tl_keys_concat: "map fst (tl_kvs blks) = concat (tl_keys blks)"
  by (simp add: tl_kvs_def tl_keys_def map_concat comp_def entry_kv_def)

lemma tl_keys_off: "block_off (tl_keys blks) b = block_off (map fst blks) b"
  by (simp add: block_off_def tl_keys_def length_concat take_map comp_def)

definition separated :: "(string \<Rightarrow> string \<Rightarrow> int) \<Rightarrow> (string \<Rightarrow> bool) \<Rightarrow> entry list \<Rightarrow> (entry list \<times> nat list) list \<Rightarrow> bool" where
  "separated cmp valid ies blks \<longleftrightarrow>
     sorted_keys cmp valid (map e_key ies) \<and> sorted_keys cmp valid (concat (tl_keys blks)) \<and>
     (\<forall>b < length blks. \<forall>k \<in> set (tl_keys blks ! b). cmp k (e_key (ies ! b)) \<le> 0) \<and>
     (\<forall>b. Suc b < length blks \<longrightarrow> (\<forall>k \<in> set (tl_keys blks ! Suc b). cmp (e_key (ies ! b)) k < 0))"

context key_comparator
begin

lemma separated_before:
  assumes s: "separated Compare valid ies blks" and l: "length ies = length blks" and t: "valid t" and b: "b \<le> length blks"
    and less: "\<forall>k \<in> set (take b (map e_key ies)). Compare k t < 0"
  shows "\<forall>k \<in> set (concat (take b (tl_keys blks))). Compare k t < 0"
proof
  fix k assume "k \<in> set (concat (take b (tl_keys blks)))"
  then obtain ys where "ys \<in> set (take b (tl_keys blks))" "k \<in> set ys" by auto
  then obtain j where j: "j < b" "j < length blks" "k \<in> set (tl_keys blks ! j)"
    by (auto simp: in_set_conv_nth [of ys] tl_keys_def)
  have "e_key (ies ! j) \<in> set (take b (map e_key ies))" using j l by (auto simp: in_set_conv_nth)
  then have "Compare (e_key (ies ! j)) t < 0" using less by blast
  moreover have "Compare k (e_key (ies ! j)) \<le> 0" using s j by (simp add: separated_def)
  moreover have "valid k" using s j
    by (auto simp: separated_def sorted_keys_def list_all_iff tl_keys_def)
  moreover have "valid (e_key (ies ! j))" using s j l by (simp add: separated_def sorted_keys_def list_all_length)
  ultimately show "Compare k t < 0" using cmp_le_less_trans t by blast
qed

lemma tl_rel_Seek:
  assumes rel: "tl_rel bf ies iris blks t c" and s: "separated Compare valid ies blks" and v: "valid x"
  shows "tl_rel bf ies iris blks (tl_Seek Compare bf x t) (first_ge Compare (map fst (tl_kvs blks)) x)"
proof -
  obtain d where pre: "tl_pre bf ies iris blks t d" using rel_pre [OF rel] by blast
  have l: "length ies = length blks" using pre by (simp add: tl_pre_def tl_layout_def)
  have si: "sorted_keys Compare valid (map e_key ies)" using s by (simp add: separated_def)
  have p: "tl_pre bf ies iris blks (on_index (Iter_Seek Compare x) t) (first_ge Compare (map e_key ies) x)"
    by (rule pre_on_index [OF pre]) (rule cursor_Seek [OF _ si v])
  show ?thesis
  proof (cases "first_ge Compare (map e_key ies) x")
    case None
    then have "\<forall>k \<in> set (concat (take (length blks) (tl_keys blks))). Compare k x < 0"
      by (intro separated_before [OF s l v order_refl]) (simp add: first_ge_None l [symmetric])
    moreover have "take (length blks) (tl_keys blks) = tl_keys blks" by (simp add: tl_keys_def)
    ultimately have "first_ge Compare (map fst (tl_kvs blks)) x = None" by (simp only: first_ge_None tl_keys_concat)
    then show ?thesis using Init_None_skip(1) [OF p [unfolded None]] by (simp only: tl_Seek_def)
  next
    case (Some b)
    then have b: "b < length blks" "\<forall>k \<in> set (take b (map e_key ies)). Compare k x < 0" "\<not> Compare (e_key (ies ! b)) x < 0"
      using l by (auto simp: first_ge_Some)
    let ?A = "concat (take b (tl_keys blks))" and ?B = "map e_key (fst (blks ! b))"
    have bk: "tl_keys blks ! b = ?B" "b < length (tl_keys blks)" using b by (simp_all add: tl_keys_def)
    have ks: "concat (tl_keys blks) = ?A @ ?B @ concat (drop (Suc b) (tl_keys blks))" using concat_split_at [OF bk(2)] unfolding bk(1) .
    have A: "\<forall>k \<in> set ?A. Compare k x < 0" using separated_before [OF s l v _ b(2)] b(1) by simp
    have lA: "length ?A = block_off (map fst blks) b" by (simp only: tl_keys_off [symmetric]) (simp only: block_off_def)
    have so: "sorted_keys Compare valid (?A @ ?B @ concat (drop (Suc b) (tl_keys blks)))"
      using s unfolding ks [symmetric] separated_def by blast
    then have sB: "sorted_keys Compare valid ?B" by (simp add: sorted_keys_def sorted_wrt_append)
    let ?t = "on_data (Iter_Seek Compare x) (InitDataBlock bf (on_index (Iter_Seek Compare x) t))"
    have f: "cursor (fst (blks ! b)) (snd (blks ! b)) it c \<Longrightarrow>
        cursor (fst (blks ! b)) (snd (blks ! b)) (Iter_Seek Compare x it) (first_ge Compare ?B x)" for it c
      by (rule cursor_Seek [OF _ sB v])
    have e: "tl_pre bf ies iris blks ?t (Some b)" "data_at ies blks ?t b (first_ge Compare ?B x)"
      by (rule enter_block [OF p [unfolded Some] f], assumption)+
    show ?thesis
    proof (cases "first_ge Compare ?B x")
      case (Some i)
      then have i: "i < length ?B" "\<forall>k \<in> set (take i ?B). Compare k x < 0" "\<not> Compare (?B ! i) x < 0" by (auto simp: first_ge_Some)
      have "concat (tl_keys blks) = (?A @ take i ?B) @ ?B ! i # (drop (Suc i) ?B @ concat (drop (Suc b) (tl_keys blks)))"
        unfolding ks split_at_append [OF i(1), of "concat (drop (Suc b) (tl_keys blks))"] by (simp only: append_assoc append_Cons)
      then have "first_ge Compare (concat (tl_keys blks)) x = Some (length (?A @ take i ?B))"
        using first_ge_split [of "?A @ take i ?B" Compare x "?B ! i"] A i by auto
      then have "first_ge Compare (map fst (tl_kvs blks)) x = Some (block_off (map fst blks) b + i)" using lA i by (simp add: tl_keys_concat)
      then show ?thesis using rel_intro [OF e(1), of i] e(2) skip_done(1) [of ies blks ?t b i] Some by (simp add: tl_Seek_def)
    next
      case None
      then have B: "\<forall>k \<in> set ?B. Compare k x < 0" by (simp add: first_ge_None)
      have iv: "it_Valid (tl_index ?t)" using e(1) cursor_Valid [of ies iris _ "Some b"] by (auto simp: tl_pre_def simp del: cursor.simps)
      have "tl_Seek Compare bf x t = SkipEmptyDataBlocksForward bf (on_data Iter_SeekToFirst (InitDataBlock bf (on_index Iter_Next ?t)))"
        using data_at_Valid [OF e(2)] None iv by (simp add: tl_Seek_def SkipEmptyDataBlocksForward.simps [of bf ?t])
      moreover
      have "first_ge Compare (concat (tl_keys blks)) x = (if Suc b < length blks then Some (block_off (map fst blks) (Suc b)) else None)"
      proof (cases "Suc b < length blks")
        case True
        then obtain y ys where y: "tl_keys blks ! Suc b = y # ys"
          using pre_block(1) [OF pre True] by (cases "fst (blks ! Suc b)") (auto simp: tl_keys_def)
        have d1: "concat (drop (Suc b) (tl_keys blks)) = y # ys @ concat (drop (Suc (Suc b)) (tl_keys blks))"
          using y True by (subst Cons_nth_drop_Suc [symmetric]) (simp_all add: tl_keys_def)
        have "concat (tl_keys blks) = (?A @ ?B) @ y # (ys @ concat (drop (Suc (Suc b)) (tl_keys blks)))" unfolding ks d1 by simp
        moreover have "\<not> Compare y x < 0"
        proof
          assume "Compare y x < 0"
          moreover have "Compare (e_key (ies ! b)) y < 0" using s True y by (auto simp: separated_def)
          moreover have "valid y" "valid (e_key (ies ! b))" 
            using so d1 si b(1) l by (simp_all add: sorted_keys_def list_all_length [of _ "map e_key ies"])
          ultimately have "Compare (e_key (ies ! b)) x < 0" using cmp_trans v by blast
          then show False using b(3) by simp
        qed
        ultimately have "first_ge Compare (concat (tl_keys blks)) x = Some (length (?A @ ?B))"
          using first_ge_split [of "?A @ ?B" Compare x y] A B by auto
        then show ?thesis using True lA b by (simp add: block_off_Suc)
      next
        case False
        then have "drop (Suc b) (tl_keys blks) = []" by (simp add: tl_keys_def)
        then have "\<forall>k \<in> set (concat (tl_keys blks)). Compare k x < 0" unfolding ks using A B by auto
        then show ?thesis using False by (simp add: first_ge_None)
      qed
      ultimately show ?thesis using next_block [OF e(1)] by (simp only: tl_keys_concat)
    qed
  qed
qed

end

end
