(* ===== verification/Table.thy ===== *)
theory Table
  imports Table_Builder Two_Level_Iterator
begin

text \<open>
  \<^verbatim>\<open>src/leveldb/table/table.cc\<close>: opening a table file, its iterator and point lookups.  The table has
  no block cache (\<^verbatim>\<open>options.block_cache == nullptr\<close>), so that every block is read from the file.
  A table that \<open>Table_Builder\<close> finished is read back entry by entry, and a lookup of a key that
  was added finds it: the index routes it to its block and no filter hides it.
\<close>

section \<open>Tables\<close>

record Table =
  t_options :: Options
  t_file :: rafile
  t_metaindex_handle :: BlockHandle
  t_index_block :: Block
  t_filter :: "FilterBlockReader option"

definition it_Seek :: "(string \<Rightarrow> string \<Rightarrow> int) \<Rightarrow> string \<Rightarrow> Iterator \<Rightarrow> Iterator" where
  "it_Seek cmp target = it_move (Iter_Seek cmp target)"

definition t_ReadFilter :: "codecs \<Rightarrow> string \<Rightarrow> Table \<Rightarrow> Table" where
  "t_ReadFilter cd filter_handle_value t =
     (case BlockHandle_DecodeFrom filter_handle_value of
        Inl s \<Rightarrow> t
      | Inr (filter_handle, v) \<Rightarrow>
          (case ReadBlock cd (t_file t) (opt_paranoid_checks (t_options t)) filter_handle of
             Inl s \<Rightarrow> t
           | Inr block \<Rightarrow> t\<lparr>t_filter := Some (FilterBlockReader_new block)\<rparr>))"

definition t_ReadMeta :: "codecs \<Rightarrow> Footer \<Rightarrow> Table \<Rightarrow> Table" where
  "t_ReadMeta cd footer t =
     (case opt_filter_policy (t_options t) of
        None \<Rightarrow> t
      | Some fp \<Rightarrow>
          (case ReadBlock cd (t_file t) (opt_paranoid_checks (t_options t)) (metaindex_handle footer) of
             Inl s \<Rightarrow> t
           | Inr contents \<Rightarrow>
               let key = filter_key (t_options t);
                   iter = it_Seek bytewise_Compare key (Block_NewIterator (Block_new contents))
               in if it_Valid iter \<and> Slice_eq (it_key iter) key then t_ReadFilter cd (it_value iter) t else t))"

definition Table_Open :: "codecs \<Rightarrow> Options \<Rightarrow> rafile \<Rightarrow> nat \<Rightarrow> Status + Table" where
  "Table_Open cd options file file_size =
     (if file_size < kEncodedLength then Inl (Corruption ''file is too short to be an sstable'')
      else case ra_Read file (file_size - kEncodedLength) kEncodedLength of
        Inl s \<Rightarrow> Inl s
      | Inr footer_input \<Rightarrow>
          (case Footer_DecodeFrom footer_input of
             Inl s \<Rightarrow> Inl s
           | Inr (footer, rest') \<Rightarrow>
               (case ReadBlock cd file (opt_paranoid_checks options) (index_handle footer) of
                  Inl s \<Rightarrow> Inl s
                | Inr index_block_contents \<Rightarrow>
                    Inr (t_ReadMeta cd footer
                      \<lparr>t_options = options, t_file = file, t_metaindex_handle = metaindex_handle footer,
                       t_index_block = Block_new index_block_contents, t_filter = None\<rparr>))))"

definition BlockReader :: "codecs \<Rightarrow> Table \<Rightarrow> bool \<Rightarrow> string \<Rightarrow> Iterator" where
  "BlockReader cd t verify_checksums index_value =
     (case BlockHandle_DecodeFrom index_value of
        Inl s \<Rightarrow> EmptyIterator s
      | Inr (handle, input) \<Rightarrow>
          (case ReadBlock cd (t_file t) verify_checksums handle of
             Inl s \<Rightarrow> EmptyIterator s
           | Inr contents \<Rightarrow> Block_NewIterator (Block_new contents)))"

definition Table_NewIterator :: "Table \<Rightarrow> TwoLevelIterator" where
  "Table_NewIterator t = NewTwoLevelIterator (Block_NewIterator (t_index_block t))"

text \<open>The second component is the call of \<^verbatim>\<open>handle_result\<close>, if there is one.\<close>

definition InternalGet :: "codecs \<Rightarrow> Table \<Rightarrow> bool \<Rightarrow> string \<Rightarrow> Status \<times> (string \<times> string) option" where
  "InternalGet cd t verify_checksums k =
     (let cmp = cmp_Compare (opt_comparator (t_options t));
          iiter = it_Seek cmp k (Block_NewIterator (t_index_block t))
      in if it_Valid iiter then
           let handle_value = it_value iiter;
               hidden = (case t_filter t of
                           None \<Rightarrow> False
                         | Some fr \<Rightarrow>
                             (case BlockHandle_DecodeFrom handle_value of
                                Inl s \<Rightarrow> False
                              | Inr (handle, v) \<Rightarrow>
                                  (case opt_filter_policy (t_options t) of
                                     None \<Rightarrow> False
                                   | Some fp \<Rightarrow> \<not> fr_KeyMayMatch (fp_KeyMayMatch fp) fr (unat (bh_offset handle)) k)))
           in if hidden then (it_status iiter, None)
              else let block_iter = it_Seek cmp k (BlockReader cd t verify_checksums (it_value iiter));
                       call = (if it_Valid block_iter then Some (it_key block_iter, it_value block_iter) else None);
                       s = it_status block_iter
                   in (if Status_ok s then it_status iiter else s, call)
         else (it_status iiter, None))"

definition ApproximateOffsetOf :: "Table \<Rightarrow> string \<Rightarrow> u64" where
  "ApproximateOffsetOf t key =
     (let index_iter = it_Seek (cmp_Compare (opt_comparator (t_options t))) key (Block_NewIterator (t_index_block t))
      in if it_Valid index_iter then
           (case BlockHandle_DecodeFrom (it_value index_iter) of
              Inr (handle, input) \<Rightarrow> bh_offset handle
            | Inl s \<Rightarrow> bh_offset (t_metaindex_handle t))
         else bh_offset (t_metaindex_handle t))"

section \<open>Opening a finished table\<close>

definition plain_file :: "string \<Rightarrow> rafile" where
  "plain_file data = \<lparr>ra_data = data, ra_status = (\<lambda>_ _. OK)\<rparr>"

lemma plain_file_simps [simp]: "ra_data (plain_file d) = d" "ra_status (plain_file d) = (\<lambda>_ _. OK)"
  by (simp_all add: plain_file_def)

text \<open>A stored block is read and iterated over.\<close>

lemma read_stored_entries:
  assumes "stored_entries cd data h es ris" "codec_ok cd" "length data < 2 ^ 32"
  shows "\<exists>raw it. ReadBlock cd (plain_file data) v h = Inr raw \<and> Block_NewIterator (Block_new raw) = BlockIterator it \<and> cursor es ris it None"
proof -
  obtain b where b: "bb_rep b es ris" "stored cd data h (fst (bb_Finish b))" using assms(1) by (auto simp: stored_entries_def)
  have "ReadBlock cd (plain_file data) v h = Inr (fst (bb_Finish b))" "length (fst (bb_Finish b)) < 2 ^ 32"
    using ReadBlock_stored [OF b(2) assms(2,3), of "plain_file data"] by simp_all
  then show ?thesis using bb_Finish_built [OF b(1)] by blast
qed

lemma BlockHandle_EncodeTo_inject [simp]: "BlockHandle_EncodeTo h [] = BlockHandle_EncodeTo h' [] \<longleftrightarrow> h = h'"
  by (metis BlockHandle_roundtrip' Inr_inject prod.inject)

lemma index_values_distinct:
  assumes "\<forall>i < length ies. e_value (ies ! i) = BlockHandle_EncodeTo (fst (fl ! i)) []" "length ies = length fl"
    and "sorted_wrt (<) (map (unat \<circ> bh_offset \<circ> fst) fl)"
  shows "distinct (map e_value ies)"
proof -
  have "e_value (ies ! i) \<noteq> e_value (ies ! j)" if "i < j" "j < length ies" for i j
  proof -
    have "unat (bh_offset (fst (fl ! i))) < unat (bh_offset (fst (fl ! j)))"
      using sorted_wrt_nth_less [OF assms(3), of i j] that assms(2) by simp
    then show ?thesis using assms(1) that by auto
  qed
  then show ?thesis by (auto simp: distinct_conv_nth) (metis linorder_neqE_nat)
qed

lemma BlockReader_layout:
  assumes tf: "table_file cd opt data fl ies iris" and ok: "codec_ok cd" and f: "t_file t = plain_file data"
  shows "tl_layout (BlockReader cd t v) ies iris (map snd fl)"
proof -
  have len: "length data < 2 ^ 32" and l: "length ies = length fl"
    and val: "\<forall>i < length ies. e_value (ies ! i) = BlockHandle_EncodeTo (fst (fl ! i)) []"
    and st: "\<forall>(h, es, ris) \<in> set fl. es \<noteq> [] \<and> stored_entries cd data h es ris"
    and so: "sorted_wrt (<) (map (unat \<circ> bh_offset \<circ> fst) fl)"
    using tf by (auto simp: table_file_def)
  have "fst (snd (fl ! b)) \<noteq> [] \<and> (\<exists>it. BlockReader cd t v (e_value (ies ! b)) = BlockIterator it \<and>
      cursor (fst (snd (fl ! b))) (snd (snd (fl ! b))) it None)" if b: "b < length fl" for b
  proof -
    obtain h es ris where e: "fl ! b = (h, es, ris)" by (cases "fl ! b")
    have s: "es \<noteq> []" "stored_entries cd data h es ris" using st b e nth_mem [OF b] by (auto simp del: nth_mem)
    obtain raw it where "ReadBlock cd (plain_file data) v h = Inr raw" "Block_NewIterator (Block_new raw) = BlockIterator it" "cursor es ris it None"
      using read_stored_entries [OF s(2) ok len] by blast
    then show ?thesis using s(1) e val b l by (simp add: BlockReader_def f del: cursor.simps)
  qed
  then show ?thesis using l index_values_distinct [OF val l so] by (simp add: tl_layout_def del: cursor.simps)
qed

definition filter_contents :: "FilterPolicy \<Rightarrow> flushed \<Rightarrow> nat \<Rightarrow> string" where
  "filter_contents fp fl off =
     fst (fb_Finish (fp_CreateFilter fp) (fb_run (fp_CreateFilter fp) (fl_hist fl @ [(off, [])]) FilterBlockBuilder_new))"

lemma ReadMeta_frame: "t_options (t_ReadMeta cd f t) = t_options t" "t_file (t_ReadMeta cd f t) = t_file t"
  "t_index_block (t_ReadMeta cd f t) = t_index_block t" "t_metaindex_handle (t_ReadMeta cd f t) = t_metaindex_handle t"
  by (simp_all add: t_ReadMeta_def t_ReadFilter_def Let_def split: option.split sum.split)

lemma Table_Open_ok:
  assumes tf: "table_file cd opt data fl ies iris" and ok: "codec_ok cd" and pol: "opt_filter_policy ropt = None \<or> opt_filter_policy ropt = opt_filter_policy opt"
  shows "\<exists>t ii. Table_Open cd ropt (plain_file data) (length data) = Inr t \<and> t_options t = ropt \<and> t_file t = plain_file data \<and>
    Block_NewIterator (t_index_block t) = BlockIterator ii \<and> cursor ies iris ii None \<and>
    (case opt_filter_policy ropt of None \<Rightarrow> t_filter t = None
     | Some fp \<Rightarrow> \<exists>off. t_filter t = Some (FilterBlockReader_new (filter_contents fp fl off)) \<and> length (filter_contents fp fl off) < 2 ^ 32 \<and>
         (\<forall>x \<in> set fl. unat (bh_offset (fst x)) < off))"
proof -
  obtain D mh ih fh mes mris off where d: "data = D @ Footer_EncodeTo \<lparr>metaindex_handle = mh, index_handle = ih\<rparr> []"
    and ix: "stored_entries cd data ih ies iris" and me: "stored_entries cd data mh mes mris"
    and mkv: "map entry_kv mes = (case opt_filter_policy opt of None \<Rightarrow> [] | Some fp \<Rightarrow> [(filter_key opt, BlockHandle_EncodeTo fh [])])"
    and fi: "\<And>fp. opt_filter_policy opt = Some fp \<Longrightarrow> stored cd data fh (filter_contents fp fl off)"
    and offs: "\<forall>x \<in> set fl. unat (bh_offset (fst x)) < off" and len: "length data < 2 ^ 32"
    using tf unfolding table_file_def filter_contents_def by blast
  let ?foot = "\<lparr>metaindex_handle = mh, index_handle = ih\<rparr>"
  obtain raw ii where i: "ReadBlock cd (plain_file data) (opt_paranoid_checks ropt) ih = Inr raw" "Block_NewIterator (Block_new raw) = BlockIterator ii"
    "cursor ies iris ii None" using read_stored_entries [OF ix ok len] by blast
  obtain mraw mi where m: "ReadBlock cd (plain_file data) (opt_paranoid_checks ropt) mh = Inr mraw"
    "Block_NewIterator (Block_new mraw) = BlockIterator mi" "cursor mes mris mi None" using read_stored_entries [OF me ok len] by blast
  let ?t0 = "\<lparr>t_options = ropt, t_file = plain_file data, t_metaindex_handle = mh, t_index_block = Block_new raw, t_filter = None\<rparr>"
  have open': "Table_Open cd ropt (plain_file data) (length data) = Inr (t_ReadMeta cd ?foot ?t0)"
    using i(1) Footer_roundtrip [of ?foot "[]"] by (simp add: Table_Open_def ra_Read_def d length_Footer)
  have "case opt_filter_policy ropt of None \<Rightarrow> t_filter (t_ReadMeta cd ?foot ?t0) = None
     | Some fp \<Rightarrow> \<exists>off. t_filter (t_ReadMeta cd ?foot ?t0) = Some (FilterBlockReader_new (filter_contents fp fl off)) \<and>
         length (filter_contents fp fl off) < 2 ^ 32 \<and> (\<forall>x \<in> set fl. unat (bh_offset (fst x)) < off)"
  proof (cases "opt_filter_policy ropt")
    case None
    then show ?thesis by (simp add: t_ReadMeta_def)
  next
    case (Some fp)
    then have fo: "opt_filter_policy opt = Some fp" "filter_key opt = filter_key ropt" using pol by (auto simp: filter_key_def)
    obtain e where e: "mes = [e]" "e_key e = filter_key ropt" "e_value e = BlockHandle_EncodeTo fh []"
      using mkv fo by (cases mes) (auto simp: entry_kv_def)
    have "sorted_keys bytewise_Compare (\<lambda>_. True) (map e_key mes)" "first_ge bytewise_Compare (map e_key mes) (filter_key ropt) = Some 0"
      using e by (simp_all add: sorted_keys_def first_ge_Some)
    then have c: "cursor mes mris (Iter_Seek bytewise_Compare (filter_key ropt) mi) (Some 0)"
      using bytewise.cursor_Seek [OF m(3), of "filter_key ropt"] by (simp del: cursor.simps)
    have s: "it_Valid (it_Seek bytewise_Compare (filter_key ropt) (BlockIterator mi))"
      "it_key (it_Seek bytewise_Compare (filter_key ropt) (BlockIterator mi)) = filter_key ropt"
      "it_value (it_Seek bytewise_Compare (filter_key ropt) (BlockIterator mi)) = BlockHandle_EncodeTo fh []"
      using cursor_Valid [OF c] c e by (simp_all add: it_Seek_def at_entry_def)
    have f: "ReadBlock cd (plain_file data) (opt_paranoid_checks ropt) fh = Inr (filter_contents fp fl off)" "length (filter_contents fp fl off) < 2 ^ 32"
      using ReadBlock_stored [OF fi [OF fo(1)] ok len, of "plain_file data"] by simp_all
    show ?thesis using Some s m(1,2) f offs by (auto simp: t_ReadMeta_def t_ReadFilter_def)
  qed
  then show ?thesis using open' i(2,3) by (intro exI [of _ "t_ReadMeta cd ?foot ?t0"] exI [of _ ii]) (simp add: ReadMeta_frame del: cursor.simps)
qed

lemma Table_iterator_rel:
  assumes tf: "table_file cd opt data fl ies iris" and ok: "codec_ok cd" and f: "t_file t = plain_file data"
    and i: "Block_NewIterator (t_index_block t) = BlockIterator ii" "cursor ies iris ii None"
  shows "tl_rel (BlockReader cd t v) ies iris (map snd fl) (Table_NewIterator t) None"
  using BlockReader_layout [OF tf ok f] i
  by (auto simp: tl_rel.simps tl_pre_def Table_NewIterator_def NewTwoLevelIterator_def simp del: cursor.simps intro!: exI [of _ None])

section \<open>Lookups\<close>

lemma fl_block:
  assumes "e \<in> set (fl_entries fl)"
  obtains b where "b < length fl" "e \<in> set (fst (snd (fl ! b)))"
  using assms by (auto simp: fl_entries_def in_set_conv_nth [of _ fl])

lemma fl_block_take_drop:
  assumes "b < length fl" "e \<in> set (fst (snd (fl ! b)))"
  shows "b \<le> j \<Longrightarrow> e \<in> set (fl_entries (take (Suc j) fl))" "j < b \<Longrightarrow> e \<in> set (fl_entries (drop (Suc j) fl))"
proof -
  assume "b \<le> j"
  then have "fl ! b \<in> set (take (Suc j) fl)" using assms(1) by (auto simp: in_set_conv_nth)
  then show "e \<in> set (fl_entries (take (Suc j) fl))" using assms(2) by (auto simp: fl_entries_def)
next
  assume "j < b"
  then have "fl ! b \<in> set (drop (Suc j) fl)" using assms(1) by (auto simp: in_set_conv_nth intro!: exI [of _ "b - Suc j"])
  then show "e \<in> set (fl_entries (drop (Suc j) fl))" using assms(2) by (auto simp: fl_entries_def)
qed

context key_comparator
begin

lemma first_ge_key:
  assumes "sorted_keys Compare valid ks" "i < length ks"
  shows "first_ge Compare ks (ks ! i) = Some i"
proof -
  have v: "valid (ks ! i)" using assms by (simp add: sorted_keys_def list_all_length)
  have "Compare k (ks ! i) < 0" if "k \<in> set (take i ks)" for k
    using that assms sorted_wrt_nth_less [of "\<lambda>a b. Compare a b < 0" ks _ i] by (auto simp: in_set_conv_nth sorted_keys_def)
  then show ?thesis using assms(2) cmp_eq [OF v v] by (simp add: first_ge_Some)
qed

lemma index_routes:
  assumes sep: "tb_sep Compare valid fl ies []" and l: "length ies = length fl" and b: "b < length fl" "e \<in> set (fst (snd (fl ! b)))"
  shows "first_ge Compare (map e_key ies) (e_key e) = Some b"
proof -
  have eL: "e \<in> set (fl_entries fl)" using fl_block_take_drop(1) [OF b, of "length fl"] b(1) by simp
  have v: "valid (e_key e)" "valid (e_key (ies ! b))" using sep eL b l by (auto simp: tb_sep_def sorted_keys_def list_all_iff list_all_length)
  have "Compare (e_key (ies ! j)) (e_key e) < 0" if "j < b" for j
    using sep fl_block_take_drop(2) [OF b that] that b l by (simp add: tb_sep_def)
  moreover have "Compare (e_key e) (e_key (ies ! b)) \<le> 0"
    using sep fl_block_take_drop(1) [OF b, of b] b l by (simp add: tb_sep_def)
  ultimately show ?thesis using b l cmp_swap [OF v(2,1)] by (auto simp: first_ge_Some in_set_conv_nth)
qed

lemma block_keys_sorted:
  assumes "tb_sep Compare valid fl ies []" "b < length fl"
  shows "sorted_keys Compare valid (map e_key (fst (snd (fl ! b))))"
proof -
  have "fl_entries fl = fl_entries (take b fl) @ fst (snd (fl ! b)) @ fl_entries (drop (Suc b) fl)"
    using concat_split_at [of b "map (fst \<circ> snd) fl"] assms(2) by (simp add: fl_entries_def take_map drop_map)
  then show ?thesis using assms(1) by (simp add: tb_sep_def sorted_keys_def sorted_wrt_append)
qed

lemma index_keys_sorted:
  assumes sep: "tb_sep Compare valid fl ies []" and l: "length ies = length fl" and ne: "\<forall>x \<in> set fl. fst (snd x) \<noteq> []"
  shows "sorted_keys Compare valid (map e_key ies)"
proof -
  have "Compare (e_key (ies ! i)) (e_key (ies ! j)) < 0" if ij: "i < j" "j < length ies" for i j
  proof -
    have "fst (snd (fl ! j)) \<noteq> []" using ne ij l nth_mem [of j fl] by (auto simp del: nth_mem)
    then obtain x where x: "x \<in> set (fst (snd (fl ! j)))" by (cases "fst (snd (fl ! j))") auto
    have j: "j < length fl" using ij l by simp
    have "x \<in> set (fl_entries fl)" using fl_block_take_drop(1) [OF j x, of "length fl"] j by simp
    then have "valid (e_key x)" "valid (e_key (ies ! i))" "valid (e_key (ies ! j))"
      using sep ij by (auto simp: tb_sep_def sorted_keys_def list_all_iff list_all_length)
    moreover have "Compare (e_key (ies ! i)) (e_key x) < 0" "Compare (e_key x) (e_key (ies ! j)) \<le> 0"
      using sep ij fl_block_take_drop(2) [OF j x ij(1)] fl_block_take_drop(1) [OF j x order_refl] by (auto simp: tb_sep_def)
    ultimately show ?thesis using cmp_less_le_trans by blast
  qed
  then show ?thesis using sep by (auto simp: sorted_keys_def tb_sep_def sorted_wrt_iff_nth_less)
qed

lemma table_separated:
  assumes sep: "tb_sep Compare valid fl ies []" and l: "length ies = length fl" and ne: "\<forall>x \<in> set fl. fst (snd x) \<noteq> []"
  shows "separated Compare valid ies (map snd fl)"
proof -
  have "concat (tl_keys (map snd fl)) = map e_key (fl_entries fl)"
    by (simp add: tl_keys_def fl_entries_def map_concat comp_def)
  then have "sorted_keys Compare valid (concat (tl_keys (map snd fl)))" using sep by (simp add: tb_sep_def)
  moreover have "Compare k (e_key (ies ! b)) \<le> 0" if "b < length fl" "k \<in> set (tl_keys (map snd fl) ! b)" for b k
    using that sep l fl_block_take_drop(1) [of b fl _ b] by (auto simp: tl_keys_def tb_sep_def)
  moreover have "Compare (e_key (ies ! b)) k < 0" if "Suc b < length fl" "k \<in> set (tl_keys (map snd fl) ! Suc b)" for b k
    using that sep l fl_block_take_drop(2) [of "Suc b" fl _ b] by (auto simp: tl_keys_def tb_sep_def)
  ultimately show ?thesis using index_keys_sorted [OF assms] by (simp add: separated_def)
qed

end

text \<open>The filter block that a table was finished with admits every key of a block.\<close>

definition filter_for :: "Options \<Rightarrow> flushed \<Rightarrow> Table \<Rightarrow> bool" where
  "filter_for opt fl t \<longleftrightarrow>
     (case opt_filter_policy opt of
        None \<Rightarrow> t_filter t = None
      | Some fp \<Rightarrow> \<exists>off. t_filter t = Some (FilterBlockReader_new (filter_contents fp fl off)) \<and>
          length (filter_contents fp fl off) < 2 ^ 32 \<and> (\<forall>x \<in> set fl. unat (bh_offset (fst x)) < off))"

definition policy_ok :: "Options \<Rightarrow> bool" where
  "policy_ok opt \<longleftrightarrow> (case opt_filter_policy opt of None \<Rightarrow> True | Some fp \<Rightarrow> filter_policy (fp_CreateFilter fp) (fp_KeyMayMatch fp))"

lemma filter_admits:
  assumes fil: "filter_for (t_options t) fl t" "policy_ok (t_options t)" and so: "sorted_wrt (<) (map (unat \<circ> bh_offset \<circ> fst) fl)"
    and b: "(h, es, ris) \<in> set fl" "e \<in> set es"
    and fp: "opt_filter_policy (t_options t) = Some fp" and fr: "t_filter t = Some fr"
  shows "fr_KeyMayMatch (fp_KeyMayMatch fp) fr (unat (bh_offset h)) (e_key e)"
proof -
  obtain off where off: "filter_policy (fp_CreateFilter fp) (fp_KeyMayMatch fp)" "fr = FilterBlockReader_new (filter_contents fp fl off)"
    "length (filter_contents fp fl off) < 2 ^ 32" "\<forall>x \<in> set fl. unat (bh_offset (fst x)) < off"
    using fil fp fr by (auto simp: filter_for_def policy_ok_def)
  have "map fst (fl_hist fl) = map (unat \<circ> bh_offset \<circ> fst) fl" by (auto simp: fl_hist_def)
  then have sorted: "sorted (map fst (fl_hist fl @ [(off, [])]))"
    using so off(4) by (auto simp: sorted_append strict_sorted_imp_sorted less_imp_le)
  have "(unat (bh_offset h), map e_key es) \<in> set (fl_hist fl @ [(off, [])])" using b by (force simp: fl_hist_def)
  moreover have "e_key e \<in> set (map e_key es)" using b by auto
  ultimately show ?thesis
    unfolding off(2) by (rule filter_policy.filter_block_match [OF off(1) sorted _ _ filter_contents_def off(3)])
qed

lemma InternalGet_steps:
  assumes "it_Seek (cmp_Compare (opt_comparator (t_options t))) k (Block_NewIterator (t_index_block t)) = ii"
    and "it_Valid ii" "it_status ii = OK" "it_value ii = BlockHandle_EncodeTo h []"
    and "it_Seek (cmp_Compare (opt_comparator (t_options t))) k (BlockReader cd t v (BlockHandle_EncodeTo h [])) = bi"
    and "it_Valid bi" "it_status bi = OK"
    and "\<And>fp fr. opt_filter_policy (t_options t) = Some fp \<Longrightarrow> t_filter t = Some fr \<Longrightarrow> fr_KeyMayMatch (fp_KeyMayMatch fp) fr (unat (bh_offset h)) k"
  shows "InternalGet cd t v k = (OK, Some (it_key bi, it_value bi))"
  unfolding InternalGet_def Let_def assms(1) using assms(2-8)
  by (cases "t_filter t"; cases "opt_filter_policy (t_options t)") simp_all

lemma it_Seek_at:
  assumes "cursor es ris (Iter_Seek cmp k it) (Some i)"
  shows "it_Valid (it_Seek cmp k (BlockIterator it))" "it_key (it_Seek cmp k (BlockIterator it)) = e_key (es ! i)"
    "it_value (it_Seek cmp k (BlockIterator it)) = e_value (es ! i)" "it_status (it_Seek cmp k (BlockIterator it)) = OK"
  using cursor_Valid [OF assms] assms by (simp_all add: it_Seek_def at_entry_def built_def)

context key_comparator
begin

lemma InternalGet_found:
  assumes tf: "table_file cd opt data fl ies iris" and sep: "tb_sep Compare valid fl ies []" and ok: "codec_ok cd"
    and t: "t_file t = plain_file data" "cmp_Compare (opt_comparator (t_options t)) = Compare"
    and ix: "Block_NewIterator (t_index_block t) = BlockIterator ii" "cursor ies iris ii None"
    and fil: "filter_for (t_options t) fl t" "policy_ok (t_options t)"
    and kv: "(k, val) \<in> set (map entry_kv (fl_entries fl))"
  shows "InternalGet cd t v k = (OK, Some (k, val))"
proof -
  obtain e where e: "e \<in> set (fl_entries fl)" "e_key e = k" "e_value e = val" using kv by (auto simp: entry_kv_def)
  obtain b where b: "b < length fl" "e \<in> set (fst (snd (fl ! b)))" using fl_block [OF e(1)] .
  obtain h es ris where fb: "fl ! b = (h, es, ris)" by (cases "fl ! b")
  obtain i where i: "i < length es" "es ! i = e" using b(2) fb by (auto simp: in_set_conv_nth)
  have l: "length ies = length fl" and val': "e_value (ies ! b) = BlockHandle_EncodeTo h []" and ne: "\<forall>x \<in> set fl. fst (snd x) \<noteq> []"
    and so: "sorted_wrt (<) (map (unat \<circ> bh_offset \<circ> fst) fl)" using tf b fb by (auto simp: table_file_def)
  have vk: "valid k" using sep e by (auto simp: tb_sep_def sorted_keys_def list_all_iff)
  have c: "cursor ies iris (Iter_Seek Compare k ii) (Some b)"
    using cursor_Seek [OF ix(2) index_keys_sorted [OF sep l ne] vk] index_routes [OF sep l b] e(2) by (simp del: cursor.simps)
  obtain it where it: "BlockReader cd t v (BlockHandle_EncodeTo h []) = BlockIterator it" "cursor es ris it None"
    using BlockReader_layout [OF tf ok t(1), of v] b fb l val' by (auto simp: tl_layout_def simp del: cursor.simps)
  have sb: "sorted_keys Compare valid (map e_key es)" using block_keys_sorted [OF sep b(1)] fb by simp
  have cb: "cursor es ris (Iter_Seek Compare k it) (Some i)"
    using cursor_Seek [OF it(2) sb vk] first_ge_key [OF sb, of i] i e(2) by (simp del: cursor.simps)
  have mem: "(h, es, ris) \<in> set fl" "e \<in> set es" using nth_mem [OF b(1)] nth_mem [OF i(1)] fb i(2) by (simp_all del: nth_mem)
  have "InternalGet cd t v k = (OK, Some (it_key (it_Seek Compare k (BlockIterator it)), it_value (it_Seek Compare k (BlockIterator it))))"
    by (rule InternalGet_steps [OF refl, where h = h]) (use it_Seek_at [OF c] it_Seek_at [OF cb] filter_admits [OF fil so mem] val' e(2) it(1) in \<open>simp_all add: t(2) ix(1)\<close>)
  then show ?thesis using it_Seek_at [OF cb] i e by simp
qed

text \<open>Everything about a table that was built from sorted pairs and opened again.\<close>

lemma built_table:
  assumes cmp: "uses_comparator Compare FindShortestSeparator FindShortSuccessor opt" and cd: "codec_ok cd"
    and f: "wf_data f = []" "wf_space f < 2 ^ 32" and i: "1 \<le> opt_block_restart_interval opt"
    and kvs: "sorted_keys Compare valid (map fst kvs)"
    and fin: "tb_Finish cd (tb_Adds cd kvs (TableBuilder_new opt f)) = (OK, tb)"
    and pol: "opt_filter_policy ropt = None \<or> opt_filter_policy ropt = opt_filter_policy opt"
  obtains fl ies iris t ii where "table_file cd opt (wf_data (tb_file tb)) fl ies iris" "tb_sep Compare valid fl ies []"
    "map entry_kv (fl_entries fl) = kvs" "Table_Open cd ropt (plain_file (wf_data (tb_file tb))) (tb_FileSize tb) = Inr t"
    "t_options t = ropt" "t_file t = plain_file (wf_data (tb_file tb))"
    "Block_NewIterator (t_index_block t) = BlockIterator ii" "cursor ies iris ii None" "filter_for ropt fl t"
    "tb_FileSize tb = length (wf_data (tb_file tb))"
proof -
  let ?new = "TableBuilder_new opt f" and ?tb = "tb_Adds cd kvs (TableBuilder_new opt f)"
  have o: "tb_options ?new = opt" by (simp add: TableBuilder_new_def)
  have sep0: "tb_sep Compare valid [] [] []" by (simp add: tb_sep_def sorted_keys_def)
  obtain fl ies iris es ris where a: "tb_inv cd ?tb fl ies iris es ris" "tb_sep Compare valid fl ies es"
    "map entry_kv (fl_entries fl @ es) = kvs" "tb_options ?tb = opt"
    using tb_inv_Adds [OF tb_inv_new [OF f i] sep0, where cd = cd and kvs = kvs, unfolded o, OF cmp] kvs tb_Finish_ok [OF fin] by fastforce
  obtain fl' ies' iris' where b: "table_file cd opt (wf_data (tb_file tb)) fl' ies' iris'" "tb_sep Compare valid fl' ies' []"
    "map entry_kv (fl_entries fl') = kvs" "tb_FileSize tb = length (wf_data (tb_file tb))"
    using tb_Finish_file [OF a(1,2) _ _ fin] a(3,4) cmp i by auto
  obtain t ii where c: "Table_Open cd ropt (plain_file (wf_data (tb_file tb))) (tb_FileSize tb) = Inr t" "t_options t = ropt"
    "t_file t = plain_file (wf_data (tb_file tb))" "Block_NewIterator (t_index_block t) = BlockIterator ii" "cursor ies' iris' ii None"
    "filter_for ropt fl' t"
    using Table_Open_ok [OF b(1) cd pol] unfolding b(4) filter_for_def by blast
  show ?thesis by (rule that [OF b(1-3) c b(4)])
qed

lemma table_iterates:
  assumes "uses_comparator Compare FindShortestSeparator FindShortSuccessor opt" "codec_ok cd" "wf_data f = []" "wf_space f < 2 ^ 32"
    "1 \<le> opt_block_restart_interval opt" "sorted_keys Compare valid (map fst kvs)"
    "tb_Finish cd (tb_Adds cd kvs (TableBuilder_new opt f)) = (OK, tb)"
    "opt_filter_policy ropt = None \<or> opt_filter_policy ropt = opt_filter_policy opt"
  shows "\<exists>t it. Table_Open cd ropt (plain_file (wf_data (tb_file tb))) (tb_FileSize tb) = Inr t \<and>
     tb_FileSize tb = length (wf_data (tb_file tb)) \<and>
     iterate tl_Valid tl_kv (tl_Next (BlockReader cd t v)) (length kvs) (tl_SeekToFirst (BlockReader cd t v) (Table_NewIterator t)) = (kvs, it) \<and>
     \<not> tl_Valid it \<and> tl_status it = OK \<and>
     (\<forall>x. valid x \<longrightarrow> (case first_ge Compare (map fst kvs) x of
        None \<Rightarrow> \<not> tl_Valid (tl_Seek Compare (BlockReader cd t v) x (Table_NewIterator t))
      | Some n \<Rightarrow> tl_Valid (tl_Seek Compare (BlockReader cd t v) x (Table_NewIterator t)) \<and>
                   tl_kv (tl_Seek Compare (BlockReader cd t v) x (Table_NewIterator t)) = kvs ! n))"
proof -
  obtain fl ies iris t ii where b: "table_file cd opt (wf_data (tb_file tb)) fl ies iris" "tb_sep Compare valid fl ies []"
    "map entry_kv (fl_entries fl) = kvs" "Table_Open cd ropt (plain_file (wf_data (tb_file tb))) (tb_FileSize tb) = Inr t"
    "t_options t = ropt" "t_file t = plain_file (wf_data (tb_file tb))"
    "Block_NewIterator (t_index_block t) = BlockIterator ii" "cursor ies iris ii None" "filter_for ropt fl t"
    "tb_FileSize tb = length (wf_data (tb_file tb))"
    by (rule built_table [OF assms])
  have rel: "tl_rel (BlockReader cd t v) ies iris (map snd fl) (Table_NewIterator t) None" by (rule Table_iterator_rel [OF b(1) assms(2) b(6-8)])
  have k: "tl_kvs (map snd fl) = kvs" using b(3) by (simp add: tl_kvs_def fl_entries_def comp_def)
  obtain it where it: "iterate tl_Valid tl_kv (tl_Next (BlockReader cd t v)) (length kvs) (tl_SeekToFirst (BlockReader cd t v) (Table_NewIterator t)) = (kvs, it)"
    "tl_rel (BlockReader cd t v) ies iris (map snd fl) it None" using tl.iterate_all [OF rel, of "length kvs"] k by auto
  have "separated Compare valid ies (map snd fl)"
    by (rule table_separated [OF b(2)]) (use b(1) in \<open>auto simp: table_file_def\<close>)
  note sk = tl_rel_Seek [OF rel this, unfolded k]
  have kv: "tl_kv (tl_Seek Compare (BlockReader cd t v) x (Table_NewIterator t)) = kvs ! n" if "valid x" "first_ge Compare (map fst kvs) x = Some n" for x n
    using tl_rel_at [OF sk [OF that(1), unfolded that(2)]] k by simp
  show ?thesis
    using b(4,10) it(1) tl_rel_Valid [OF it(2)] tl_rel_status [OF it(2)] tl_rel_Valid [OF sk] kv
    by (intro exI [of _ t] exI [of _ it]) (auto split: option.split)
qed

end

section \<open>Properties\<close>

text \<open>
  C6: A table that is built from pairs in strictly increasing key order, with any comparator that keeps its contract, any
  block size, restart interval and compression and with or without a filter policy, and that is finished without error,
  opens again at the size that the builder reports; scanning it from the first entry returns exactly the pairs, in order,
  with status OK; and seeking puts the iterator on the first pair whose key is not smaller, or off the end.
\<close>

theorem table_scan:
  assumes "key_comparator cmp sep succ valid" "uses_comparator cmp sep succ opt" "codec_ok cd" "wf_data f = []" "wf_space f < 2 ^ 32"
    "1 \<le> opt_block_restart_interval opt" "sorted_keys cmp valid (map fst kvs)"
    "tb_Finish cd (tb_Adds cd kvs (TableBuilder_new opt f)) = (OK, tb)"
    "opt_filter_policy ropt = None \<or> opt_filter_policy ropt = opt_filter_policy opt"
  shows "\<exists>t it. Table_Open cd ropt (plain_file (wf_data (tb_file tb))) (tb_FileSize tb) = Inr t \<and>
     iterate tl_Valid tl_kv (tl_Next (BlockReader cd t v)) (length kvs) (tl_SeekToFirst (BlockReader cd t v) (Table_NewIterator t)) = (kvs, it) \<and>
     \<not> tl_Valid it \<and> tl_status it = OK \<and>
     (\<forall>x. valid x \<longrightarrow> (case first_ge cmp (map fst kvs) x of
        None \<Rightarrow> \<not> tl_Valid (tl_Seek cmp (BlockReader cd t v) x (Table_NewIterator t))
      | Some n \<Rightarrow> tl_Valid (tl_Seek cmp (BlockReader cd t v) x (Table_NewIterator t)) \<and>
                   tl_kv (tl_Seek cmp (BlockReader cd t v) x (Table_NewIterator t)) = kvs ! n))"
  using key_comparator.table_iterates [OF assms] by blast

text \<open>
  C5: Looking up any key that was added to such a table calls back with exactly that key and its value, and returns OK: the
  index block routes the lookup to the block that holds the key and the filter block does not hide it, provided that the
  filter policy has no false negatives.
\<close>

theorem table_get:
  assumes "key_comparator cmp sep succ valid" "uses_comparator cmp sep succ opt" "codec_ok cd" "wf_data f = []" "wf_space f < 2 ^ 32"
    "1 \<le> opt_block_restart_interval opt" "sorted_keys cmp valid (map fst kvs)"
    "tb_Finish cd (tb_Adds cd kvs (TableBuilder_new opt f)) = (OK, tb)"
    "opt_filter_policy ropt = None \<or> opt_filter_policy ropt = opt_filter_policy opt"
    "cmp_Compare (opt_comparator ropt) = cmp" "policy_ok ropt" "(k, val) \<in> set kvs"
  shows "\<exists>t. Table_Open cd ropt (plain_file (wf_data (tb_file tb))) (tb_FileSize tb) = Inr t \<and> InternalGet cd t v k = (OK, Some (k, val))"
proof -
  obtain fl ies iris t ii where b: "table_file cd opt (wf_data (tb_file tb)) fl ies iris" "tb_sep cmp valid fl ies []"
    "map entry_kv (fl_entries fl) = kvs" "Table_Open cd ropt (plain_file (wf_data (tb_file tb))) (tb_FileSize tb) = Inr t"
    "t_options t = ropt" "t_file t = plain_file (wf_data (tb_file tb))"
    "Block_NewIterator (t_index_block t) = BlockIterator ii" "cursor ies iris ii None" "filter_for ropt fl t"
    by (rule key_comparator.built_table [OF assms(1-9)])
  have "InternalGet cd t v k = (OK, Some (k, val))"
    by (rule key_comparator.InternalGet_found [OF assms(1) b(1,2) assms(3) b(6) _ b(7,8)]) (use b assms in simp_all)
  then show ?thesis using b(4) by blast
qed

text \<open>The bytewise comparator, and libraries that compress nothing, satisfy the hypotheses.\<close>

definition no_codecs :: codecs where
  "no_codecs = \<lparr>Snappy_Compress = (\<lambda>_. None), Snappy_GetUncompressedLength = (\<lambda>_. None), Snappy_Uncompress = (\<lambda>_. None),
     Zstd_Compress = (\<lambda>_. None), Zstd_GetUncompressedLength = (\<lambda>_. None), Zstd_Uncompress = (\<lambda>_. None)\<rparr>"

definition bytewise_comparator :: Comparator where
  "bytewise_comparator = \<lparr>cmp_addr = 1, cmp_Compare = bytewise_Compare, cmp_FindShortestSeparator = bytewise_FindShortestSeparator,
     cmp_FindShortSuccessor = bytewise_FindShortSuccessor\<rparr>"

definition example_options :: Options where
  "example_options = \<lparr>opt_comparator = bytewise_comparator, opt_create_if_missing = True, opt_error_if_exists = False,
     opt_paranoid_checks = True, opt_write_buffer_size = 1000, opt_max_open_files = 10, opt_block_size = 100, opt_block_restart_interval = 1,
     opt_max_file_size = 1000, opt_compression = kSnappyCompression, opt_zstd_compression_level = 1, opt_reuse_logs = False,
     opt_filter_policy = None\<rparr>"

definition example_file :: wfile where
  "example_file = \<lparr>wf_data = [], wf_space = 1000\<rparr>"

definition example_key :: "char \<Rightarrow> string" where
  "example_key c = AppendInternalKey [] \<lparr>user_key = [c], sequence = 7, vtype = kTypeValue\<rparr>"

definition example_kvs :: "(string \<times> string) list" where
  "example_kvs = [(example_key CHR ''a'', ''1''), (example_key CHR ''b'', ''2'')]"

definition example_table :: TableBuilder where
  "example_table = snd (tb_Finish no_codecs (tb_Adds no_codecs example_kvs (TableBuilder_new example_options example_file)))"

lemma example_codec_ok: "codec_ok no_codecs"
  by (simp add: codec_ok_def no_codecs_def)

lemma WriteRawBlock_fits:
  assumes "length c + 5 \<le> wf_space (tb_file tb)"
  shows "WriteRawBlock c type tb = (\<lparr>bh_offset = of_nat (tb_offset tb), bh_size = of_nat (length c)\<rparr>,
    tb\<lparr>tb_file := \<lparr>wf_data = wf_data (tb_file tb) @ c @ block_trailer type c, wf_space = wf_space (tb_file tb) - (length c + 5)\<rparr>,
       tb_status := OK, tb_offset := tb_offset tb + (length c + 5)\<rparr>)"
proof -
  obtain h tb' where w: "WriteRawBlock c type tb = (h, tb')" by fastforce
  have "tb_ok tb'" using w assms by (auto simp: WriteRawBlock_def Let_def wf_Append_def tb_ok_def split: if_splits)
  from WriteRawBlock_ok [OF w this] show ?thesis by (simp add: w)
qed

lemma example_Finish: "tb_Finish no_codecs (tb_Adds no_codecs example_kvs (TableBuilder_new example_options example_file)) = (OK, example_table)"
proof -
  let ?a = "example_key CHR ''a''" and ?b = "example_key CHR ''b''"
  let ?d = "bb_Add ?b ''2'' (bb_Add ?a ''1'' (BlockBuilder_new 1))"
  let ?h = "\<lparr>bh_offset = 0, bh_size = 38\<rparr>"
  let ?x = "bb_Add ''c'' (BlockHandle_EncodeTo ?h []) (BlockBuilder_new 1)"
  have succ: "bytewise_FindShortSuccessor ?b = ''c''" by code_simp
  have cb: "compress_block no_codecs kSnappyCompression raw = (raw, kNoCompression)" for raw by (simp add: compress_block_def no_codecs_def)
  have blocks: "length (fst (bb_Finish ?d)) = 38" "length (fst (bb_Finish ?x)) = 14" "length (fst (bb_Finish (BlockBuilder_new 1))) = 8"
    "bb_CurrentSizeEstimate (bb_Add ?a ''1'' (BlockBuilder_new 1)) = 21" "bb_CurrentSizeEstimate ?d = 38"
    "bb_empty ?d = False"
    by code_simp+
  have wb: "WriteBlock no_codecs b tb = (\<lparr>bh_offset = of_nat (tb_offset tb), bh_size = of_nat n\<rparr>, bb_Reset (snd (bb_Finish b)),
      tb\<lparr>tb_file := \<lparr>wf_data = wf_data (tb_file tb) @ fst (bb_Finish b) @ block_trailer kNoCompression (fst (bb_Finish b)),
                    wf_space = wf_space (tb_file tb) - (n + 5)\<rparr>, tb_status := OK, tb_offset := tb_offset tb + (n + 5)\<rparr>)"
    if "length (fst (bb_Finish b)) = n" "opt_compression (tb_options tb) = kSnappyCompression" "n + 5 \<le> wf_space (tb_file tb)" for b n tb
    using that by (simp add: WriteBlock_def cb WriteRawBlock_fits case_prod_beta)
  have "fst (tb_Finish no_codecs (tb_Adds no_codecs example_kvs (TableBuilder_new example_options example_file))) = OK"
    by (simp add: tb_Finish_def tb_Adds_def example_kvs_def TableBuilder_new_def example_options_def example_file_def tb_Add_def tb_ok_def
        tb_Flush_def bytewise_comparator_def Let_def write_filter_def write_metaindex_def write_index_def write_footer_def
        add_index_entry_def succ blocks [simplified] wb [OF blocks(1), simplified] wb [OF blocks(2), simplified] wb [OF blocks(3), simplified]
        wf_Append_def length_Footer kEncodedLength_def kMaxEncodedLength_def)
  then show ?thesis by (simp add: example_table_def prod_eq_iff)
qed

lemma example_hyps:
  "uses_comparator bytewise_Compare bytewise_FindShortestSeparator bytewise_FindShortSuccessor example_options"
  "wf_data example_file = []" "wf_space example_file < 2 ^ 32" "1 \<le> opt_block_restart_interval example_options"
  "sorted_keys bytewise_Compare (\<lambda>_. True) (map fst example_kvs)" "cmp_Compare (opt_comparator example_options) = bytewise_Compare"
  "policy_ok example_options"
  by (simp_all add: uses_comparator_def example_options_def bytewise_comparator_def example_file_def example_kvs_def sorted_keys_def policy_ok_def
      example_key_def AppendInternalKey_def PutFixed64_def)

theorem table_scan_witness:
  "\<exists>t it. Table_Open no_codecs example_options (plain_file (wf_data (tb_file example_table))) (tb_FileSize example_table) = Inr t \<and>
     iterate tl_Valid tl_kv (tl_Next (BlockReader no_codecs t True)) (length example_kvs)
       (tl_SeekToFirst (BlockReader no_codecs t True) (Table_NewIterator t)) = (example_kvs, it) \<and> \<not> tl_Valid it \<and> tl_status it = OK"
  using table_scan [OF bytewise.key_comparator_axioms example_hyps(1) example_codec_ok example_hyps(2-5) example_Finish disjI2 [OF refl], of True] by blast

theorem table_get_witness:
  "\<exists>t. Table_Open no_codecs example_options (plain_file (wf_data (tb_file example_table))) (tb_FileSize example_table) = Inr t \<and>
     InternalGet no_codecs t True (example_key CHR ''b'') = (OK, Some (example_key CHR ''b'', ''2''))"
  using table_get [OF bytewise.key_comparator_axioms example_hyps(1) example_codec_ok example_hyps(2-5) example_Finish disjI2 [OF refl] example_hyps(6,7), of "example_key CHR ''b''" "''2''" True]
  by (simp add: example_kvs_def)

end
