(* ===== verification/Write_Batch.thy ===== *)
theory Write_Batch
  imports Dbformat
begin

text \<open>
  \<^verbatim>\<open>src/leveldb/db/write_batch.cc\<close>.  A batch is its \<^verbatim>\<open>rep_\<close> string: eight bytes of sequence
  number, four bytes of count, and the records.  \<^verbatim>\<open>Iterate\<close> calls a handler for every record;
  the model returns the calls it makes, in order, with the final status, so that each
  handler of the source (the memtable inserter, the printer of the dump code) is a function
  over the list of calls.  Handlers are called before a later record is found corrupt, and
  the model keeps those calls.
\<close>

section \<open>The batch\<close>

datatype batch_op = BPut (op_key: string) (op_value: string) | BDelete (op_key: string)

definition kHeader :: nat where
  "kHeader = 12"

definition WriteBatch_Clear :: string where
  "WriteBatch_Clear = replicate kHeader (chr8 0)"

definition ApproximateSize :: "string \<Rightarrow> nat" where
  "ApproximateSize rep = length rep"

definition Count :: "string \<Rightarrow> int" where
  "Count rep = sint (DecodeFixed32 (drop 8 rep))"

definition overwrite :: "string \<Rightarrow> nat \<Rightarrow> string \<Rightarrow> string" where
  "overwrite rep pos s = take pos rep @ s @ drop (pos + length s) rep"

definition SetCount :: "string \<Rightarrow> int \<Rightarrow> string" where
  "SetCount rep n = overwrite rep 8 (EncodeFixed32 (of_int n))"

definition Sequence :: "string \<Rightarrow> SequenceNumber" where
  "Sequence rep = DecodeFixed64 rep"

definition SetSequence :: "string \<Rightarrow> SequenceNumber \<Rightarrow> string" where
  "SetSequence rep seq = overwrite rep 0 (EncodeFixed64 seq)"

definition tag_char :: "ValueType \<Rightarrow> char" where
  "tag_char t = char_of (ValueType_num t)"

definition WriteBatch_Put :: "string \<Rightarrow> string \<Rightarrow> string \<Rightarrow> string" where
  "WriteBatch_Put rep key value =
     (let rep1 = SetCount rep (Count rep + 1) @ [tag_char kTypeValue]
      in PutLengthPrefixedSlice (PutLengthPrefixedSlice rep1 key) value)"

definition WriteBatch_Delete :: "string \<Rightarrow> string \<Rightarrow> string" where
  "WriteBatch_Delete rep key =
     PutLengthPrefixedSlice (SetCount rep (Count rep + 1) @ [tag_char kTypeDeletion]) key"

definition WriteBatch_Append :: "string \<Rightarrow> string \<Rightarrow> string" where
  "WriteBatch_Append dst src = SetCount dst (Count dst + Count src) @ drop kHeader src"

definition SetContents :: "string \<Rightarrow> string" where
  "SetContents contents = contents"

section \<open>Iteration\<close>

function Iterate_loop :: "string \<Rightarrow> batch_op list \<Rightarrow> int \<Rightarrow> (batch_op list \<times> Status) + (batch_op list \<times> int)" where
  "Iterate_loop [] done found = Inr (done, found)"
| "Iterate_loop (tag # input) done found =
     (if tag = tag_char kTypeValue then
        case GetLengthPrefixedSlice input of
          None \<Rightarrow> Inl (done, Corruption ''bad WriteBatch Put'')
        | Some (key, input1) \<Rightarrow>
            (case GetLengthPrefixedSlice input1 of
               None \<Rightarrow> Inl (done, Corruption ''bad WriteBatch Put'')
             | Some (value, input2) \<Rightarrow> Iterate_loop input2 (done @ [BPut key value]) (found + 1))
      else if tag = tag_char kTypeDeletion then
        case GetLengthPrefixedSlice input of
          None \<Rightarrow> Inl (done, Corruption ''bad WriteBatch Delete'')
        | Some (key, input1) \<Rightarrow> Iterate_loop input1 (done @ [BDelete key]) (found + 1)
      else Inl (done, Corruption ''unknown WriteBatch tag''))"
  by pat_completeness auto
termination
  by (relation "measure (\<lambda>(input, done, found). length input)")
    (auto dest!: GetLengthPrefixedSlice_shorter)

definition Iterate :: "string \<Rightarrow> batch_op list \<times> Status" where
  "Iterate rep =
     (if length rep < kHeader then ([], Corruption ''malformed WriteBatch (too small)'')
      else case Iterate_loop (drop kHeader rep) [] 0 of
             Inl r \<Rightarrow> r
           | Inr (ops, found) \<Rightarrow>
               if found \<noteq> Count rep then (ops, Corruption ''WriteBatch has wrong count'') else (ops, OK))"

section \<open>Inserting into a memtable\<close>

text \<open>
  \<^verbatim>\<open>MemTableInserter\<close> calls \<^verbatim>\<open>mem_->Add\<close> once per record with consecutive sequence numbers; \<open>add\<close>
  is \<^verbatim>\<open>MemTable::Add\<close> on the caller's memtable.
\<close>

fun MemTableInserter ::
  "(SequenceNumber \<Rightarrow> ValueType \<Rightarrow> string \<Rightarrow> string \<Rightarrow> 'm \<Rightarrow> 'm) \<Rightarrow> batch_op list \<Rightarrow> SequenceNumber \<Rightarrow> 'm \<Rightarrow> 'm" where
  "MemTableInserter add [] seq m = m"
| "MemTableInserter add (BPut k v # ops) seq m = MemTableInserter add ops (seq + 1) (add seq kTypeValue k v m)"
| "MemTableInserter add (BDelete k # ops) seq m = MemTableInserter add ops (seq + 1) (add seq kTypeDeletion k [] m)"

definition InsertInto ::
  "(SequenceNumber \<Rightarrow> ValueType \<Rightarrow> string \<Rightarrow> string \<Rightarrow> 'm \<Rightarrow> 'm) \<Rightarrow> string \<Rightarrow> 'm \<Rightarrow> Status \<times> 'm" where
  "InsertInto add rep m =
     (let (ops, s) = Iterate rep in (s, MemTableInserter add ops (Sequence rep) m))"

section \<open>What the operations write\<close>

fun encode_op :: "batch_op \<Rightarrow> string" where
  "encode_op (BPut k v) = tag_char kTypeValue # PutLengthPrefixedSlice [] k @ PutLengthPrefixedSlice [] v"
| "encode_op (BDelete k) = tag_char kTypeDeletion # PutLengthPrefixedSlice [] k"

definition batch_apply :: "batch_op \<Rightarrow> string \<Rightarrow> string" where
  "batch_apply p rep = (case p of BPut k v \<Rightarrow> WriteBatch_Put rep k v | BDelete k \<Rightarrow> WriteBatch_Delete rep k)"

text \<open>A batch with a given sequence number and given records.\<close>

definition batch_rep :: "SequenceNumber \<Rightarrow> batch_op list \<Rightarrow> string" where
  "batch_rep seq ops = EncodeFixed64 seq @ EncodeFixed32 (of_nat (length ops)) @ concat (map encode_op ops)"

fun op_ok :: "batch_op \<Rightarrow> bool" where
  "op_ok (BPut k v) \<longleftrightarrow> length k < 2 ^ 32 \<and> length v < 2 ^ 32"
| "op_ok (BDelete k) \<longleftrightarrow> length k < 2 ^ 32"

definition batch_ok :: "batch_op list \<Rightarrow> bool" where
  "batch_ok ops \<longleftrightarrow> list_all op_ok ops \<and> length ops < 2 ^ 31"

lemma PutLengthPrefixedSlice_append: "PutLengthPrefixedSlice d s = d @ PutLengthPrefixedSlice [] s"
  by (simp add: PutLengthPrefixedSlice_def PutVarint32_def)

lemma tag_char_neq [simp]: "tag_char kTypeDeletion \<noteq> tag_char kTypeValue"
  by (simp add: tag_char_def ValueType_num_def)

lemma Iterate_loop_encoded:
  assumes "list_all op_ok ops"
  shows "Iterate_loop (concat (map encode_op ops) @ rest) done found
     = Iterate_loop rest (done @ ops) (found + int (length ops))"
  using assms
proof (induction ops arbitrary: "done" found)
  case (Cons p ops)
  then show ?case
    by (cases p) (simp_all add: GetLengthPrefixedSlice_Put algebra_simps)
qed simp

lemma Count_batch_rep:
  assumes "length ops < 2 ^ 31"
  shows "Count (batch_rep seq ops) = int (length ops)"
proof -
  have "sint (word_of_nat (length ops) :: u32) = int (length ops)"
    using assms by (simp add: signed_of_nat signed_take_bit_int_eq_self)
  then show ?thesis by (simp add: Count_def batch_rep_def)
qed

lemma Iterate_batch_rep: "batch_ok ops \<Longrightarrow> Iterate (batch_rep seq ops) = (ops, OK)"
  using Iterate_loop_encoded [of ops "[]" "[]" 0] Count_batch_rep [of ops seq]
  by (simp add: Iterate_def batch_ok_def) (simp add: batch_rep_def kHeader_def)

lemma SetCount_batch_rep:
  "SetCount (EncodeFixed64 seq @ EncodeFixed32 c @ s) n = EncodeFixed64 seq @ EncodeFixed32 (of_int n) @ s"
  by (simp add: SetCount_def overwrite_def)

lemma batch_apply_rep:
  assumes "length ops < 2 ^ 31"
  shows "batch_apply p (batch_rep seq ops) = batch_rep seq (ops @ [p])"
proof -
  have c: "Count (EncodeFixed64 seq @ EncodeFixed32 (word_of_nat (length ops)) @ concat (map encode_op ops)) = int (length ops)"
    using Count_batch_rep [OF assms, of seq] by (simp add: batch_rep_def)
  show ?thesis
    by (cases p)
      (simp_all add: batch_apply_def WriteBatch_Put_def WriteBatch_Delete_def Let_def batch_rep_def c SetCount_batch_rep
        PutLengthPrefixedSlice_append [of "_ @ _"] PutLengthPrefixedSlice_append [of "_ # _"] add.commute)
qed

lemma batch_build:
  assumes "length (ops @ ops') \<le> 2 ^ 31"
  shows "fold batch_apply ops' (batch_rep seq ops) = batch_rep seq (ops @ ops')"
  using assms
proof (induction ops' arbitrary: ops)
  case (Cons p ops')
  then show ?case using Cons.IH [of "ops @ [p]"] by (simp add: batch_apply_rep)
qed simp

lemma Clear_batch_rep: "SetSequence WriteBatch_Clear seq = batch_rep seq []"
  by (simp add: SetSequence_def WriteBatch_Clear_def kHeader_def overwrite_def batch_rep_def EncodeFixed32_def byte32_def
      numeral_eq_Suc)

lemma Sequence_batch_rep: "Sequence (batch_rep seq ops) = seq"
  by (simp add: Sequence_def batch_rep_def)

section \<open>Properties\<close>

text \<open>
  C36: iterating over a batch that was built by \<^verbatim>\<open>Put\<close> and \<^verbatim>\<open>Delete\<close> calls from a cleared one calls
  the handler with exactly these operations in order and returns OK, and the sequence number
  set on the batch is the one read back.
\<close>

theorem write_batch_roundtrip:
  assumes "batch_ok ops"
  shows "Iterate (fold batch_apply ops (SetSequence WriteBatch_Clear seq)) = (ops, OK)
    \<and> Sequence (fold batch_apply ops (SetSequence WriteBatch_Clear seq)) = seq"
  using assms batch_build [of "[]" ops seq]
  by (simp add: Clear_batch_rep Iterate_batch_rep Sequence_batch_rep batch_ok_def)

theorem write_batch_roundtrip_witness:
  "Iterate (fold batch_apply [BPut ''Key1'' ''Value1'', BDelete ''Key2''] (SetSequence WriteBatch_Clear 7))
     = ([BPut ''Key1'' ''Value1'', BDelete ''Key2''], OK)
   \<and> Sequence (fold batch_apply [BPut ''Key1'' ''Value1'', BDelete ''Key2''] (SetSequence WriteBatch_Clear 7)) = 7"
  by (rule write_batch_roundtrip) (simp add: batch_ok_def)

text \<open>
  C37: appending one batch to another makes a batch with the records of both, in order, and
  the sequence number of the first.
\<close>

theorem write_batch_append:
  assumes "batch_ok (xs @ ys)"
  shows "Iterate (WriteBatch_Append (batch_rep s xs) (batch_rep t ys)) = (xs @ ys, OK)
    \<and> Sequence (WriteBatch_Append (batch_rep s xs) (batch_rep t ys)) = s"
proof -
  have "length xs < 2 ^ 31" "length ys < 2 ^ 31" using assms by (auto simp: batch_ok_def)
  then have "WriteBatch_Append (batch_rep s xs) (batch_rep t ys) = batch_rep s (xs @ ys)"
    using Count_batch_rep [of xs s] Count_batch_rep [of ys t]
    by (simp add: WriteBatch_Append_def kHeader_def) (simp add: batch_rep_def SetCount_batch_rep)
  then show ?thesis using assms by (simp add: Iterate_batch_rep Sequence_batch_rep)
qed

theorem write_batch_append_witness:
  "Iterate (WriteBatch_Append (batch_rep 3 [BDelete ''a'']) (batch_rep 9 [BPut ''b'' ''c''])) = ([BDelete ''a''] @ [BPut ''b'' ''c''], OK)
   \<and> Sequence (WriteBatch_Append (batch_rep 3 [BDelete ''a'']) (batch_rep 9 [BPut ''b'' ''c''])) = 3"
  by (rule write_batch_append) (simp add: batch_ok_def)

end
