(* ===== verification/Version_Edit.thy ===== *)
theory Version_Edit
  imports Dbformat "HOL-Library.Product_Lexorder"
begin

text \<open>
  \<^verbatim>\<open>src/leveldb/db/version_edit.h\<close> and \<^verbatim>\<open>version_edit.cc\<close>: the records of a descriptor log.  An
  internal key is its encoded string; the ordered set of deleted files is its sorted list.
  Decoding mutates the edit even when it fails, so that \<open>VersionEdit_DecodeFrom\<close> returns the
  edit together with the status.
\<close>

section \<open>The edit\<close>

record FileMetaData =
  fm_refs :: int
  fm_allowed_seeks :: int
  fm_number :: u64
  fm_file_size :: u64
  fm_smallest :: string
  fm_largest :: string

record VersionEdit =
  ve_comparator :: string
  ve_log_number :: u64
  ve_prev_log_number :: u64
  ve_next_file_number :: u64
  ve_last_sequence :: SequenceNumber
  ve_has_comparator :: bool
  ve_has_log_number :: bool
  ve_has_prev_log_number :: bool
  ve_has_next_file_number :: bool
  ve_has_last_sequence :: bool
  ve_compact_pointers :: "(int \<times> string) list"
  ve_deleted_files :: "(int \<times> u64) list"
  ve_new_files :: "(int \<times> FileMetaData) list"

definition VersionEdit_Clear :: VersionEdit where
  "VersionEdit_Clear =
     \<lparr>ve_comparator = [], ve_log_number = 0, ve_prev_log_number = 0, ve_next_file_number = 0, ve_last_sequence = 0,
      ve_has_comparator = False, ve_has_log_number = False, ve_has_prev_log_number = False,
      ve_has_next_file_number = False, ve_has_last_sequence = False,
      ve_compact_pointers = [], ve_deleted_files = [], ve_new_files = []\<rparr>"

definition SetComparatorName :: "string \<Rightarrow> VersionEdit \<Rightarrow> VersionEdit" where
  "SetComparatorName name e = e\<lparr>ve_has_comparator := True, ve_comparator := name\<rparr>"

definition SetLogNumber :: "u64 \<Rightarrow> VersionEdit \<Rightarrow> VersionEdit" where
  "SetLogNumber num e = e\<lparr>ve_has_log_number := True, ve_log_number := num\<rparr>"

definition SetPrevLogNumber :: "u64 \<Rightarrow> VersionEdit \<Rightarrow> VersionEdit" where
  "SetPrevLogNumber num e = e\<lparr>ve_has_prev_log_number := True, ve_prev_log_number := num\<rparr>"

definition SetNextFile :: "u64 \<Rightarrow> VersionEdit \<Rightarrow> VersionEdit" where
  "SetNextFile num e = e\<lparr>ve_has_next_file_number := True, ve_next_file_number := num\<rparr>"

definition SetLastSequence :: "SequenceNumber \<Rightarrow> VersionEdit \<Rightarrow> VersionEdit" where
  "SetLastSequence seq e = e\<lparr>ve_has_last_sequence := True, ve_last_sequence := seq\<rparr>"

definition SetCompactPointer :: "int \<Rightarrow> string \<Rightarrow> VersionEdit \<Rightarrow> VersionEdit" where
  "SetCompactPointer level key e = e\<lparr>ve_compact_pointers := ve_compact_pointers e @ [(level, key)]\<rparr>"

definition FileMetaData_new :: "u64 \<Rightarrow> u64 \<Rightarrow> string \<Rightarrow> string \<Rightarrow> FileMetaData" where
  "FileMetaData_new number file_size smallest largest =
     \<lparr>fm_refs = 0, fm_allowed_seeks = 2 ^ 30, fm_number = number, fm_file_size = file_size,
      fm_smallest = smallest, fm_largest = largest\<rparr>"

definition AddFile :: "int \<Rightarrow> u64 \<Rightarrow> u64 \<Rightarrow> string \<Rightarrow> string \<Rightarrow> VersionEdit \<Rightarrow> VersionEdit" where
  "AddFile level number file_size smallest largest e =
     e\<lparr>ve_new_files := ve_new_files e @ [(level, FileMetaData_new number file_size smallest largest)]\<rparr>"

definition RemoveFile_ve :: "int \<Rightarrow> u64 \<Rightarrow> VersionEdit \<Rightarrow> VersionEdit" where
  "RemoveFile_ve level number e = e\<lparr>ve_deleted_files := insort_insert (level, number) (ve_deleted_files e)\<rparr>"

section \<open>Encoding\<close>

datatype Tag = kComparator | kLogNumber | kNextFileNumber | kLastSequence | kCompactPointer | kDeletedFile | kNewFile | kPrevLogNumber

definition Tag_num :: "Tag \<Rightarrow> u32" where
  "Tag_num t = (case t of kComparator \<Rightarrow> 1 | kLogNumber \<Rightarrow> 2 | kNextFileNumber \<Rightarrow> 3 | kLastSequence \<Rightarrow> 4
     | kCompactPointer \<Rightarrow> 5 | kDeletedFile \<Rightarrow> 6 | kNewFile \<Rightarrow> 7 | kPrevLogNumber \<Rightarrow> 9)"

definition kNumLevels :: nat where
  "kNumLevels = 7"

definition put_compact_pointer :: "int \<times> string \<Rightarrow> string \<Rightarrow> string" where
  "put_compact_pointer p dst =
     PutLengthPrefixedSlice (PutVarint32 (PutVarint32 dst (Tag_num kCompactPointer)) (of_int (fst p))) (snd p)"

definition put_deleted_file :: "int \<times> u64 \<Rightarrow> string \<Rightarrow> string" where
  "put_deleted_file p dst = PutVarint64 (PutVarint32 (PutVarint32 dst (Tag_num kDeletedFile)) (of_int (fst p))) (snd p)"

definition put_new_file :: "int \<times> FileMetaData \<Rightarrow> string \<Rightarrow> string" where
  "put_new_file p dst =
     (let f = snd p;
          d1 = PutVarint32 (PutVarint32 dst (Tag_num kNewFile)) (of_int (fst p));
          d2 = PutVarint64 (PutVarint64 d1 (fm_number f)) (fm_file_size f)
      in PutLengthPrefixedSlice (PutLengthPrefixedSlice d2 (fm_smallest f)) (fm_largest f))"

definition VersionEdit_EncodeTo :: "VersionEdit \<Rightarrow> string \<Rightarrow> string" where
  "VersionEdit_EncodeTo e dst =
     (let d1 = (if ve_has_comparator e then PutLengthPrefixedSlice (PutVarint32 dst (Tag_num kComparator)) (ve_comparator e) else dst);
          d2 = (if ve_has_log_number e then PutVarint64 (PutVarint32 d1 (Tag_num kLogNumber)) (ve_log_number e) else d1);
          d3 = (if ve_has_prev_log_number e then PutVarint64 (PutVarint32 d2 (Tag_num kPrevLogNumber)) (ve_prev_log_number e) else d2);
          d4 = (if ve_has_next_file_number e then PutVarint64 (PutVarint32 d3 (Tag_num kNextFileNumber)) (ve_next_file_number e) else d3);
          d5 = (if ve_has_last_sequence e then PutVarint64 (PutVarint32 d4 (Tag_num kLastSequence)) (ve_last_sequence e) else d4);
          d6 = fold put_compact_pointer (ve_compact_pointers e) d5;
          d7 = fold put_deleted_file (ve_deleted_files e) d6
      in fold put_new_file (ve_new_files e) d7)"

section \<open>Decoding\<close>

definition GetInternalKey :: "string \<Rightarrow> (string \<times> string) option" where
  "GetInternalKey input =
     (case GetLengthPrefixedSlice input of
        Some (str, rest') \<Rightarrow> if str \<noteq> [] then Some (str, rest') else None
      | None \<Rightarrow> None)"

definition GetLevel :: "string \<Rightarrow> (int \<times> string) option" where
  "GetLevel input =
     (case GetVarint32 input of
        Some (v, rest') \<Rightarrow> if unat v < kNumLevels then Some (uint v, rest') else None
      | None \<Rightarrow> None)"

text \<open>One turn of the loop: the message of a failure, or the remaining input and the edit.\<close>

definition decode_number :: "string \<Rightarrow> string \<Rightarrow> (u64 \<Rightarrow> VersionEdit) \<Rightarrow> string + (string \<times> VersionEdit)" where
  "decode_number msg input upd =
     (case GetVarint64 input of Some (n, input1) \<Rightarrow> Inr (input1, upd n) | None \<Rightarrow> Inl msg)"

definition decode_new_file :: "string \<Rightarrow> VersionEdit \<Rightarrow> string + (string \<times> VersionEdit)" where
  "decode_new_file input e =
     (case GetLevel input of
        None \<Rightarrow> Inl ''new-file entry''
      | Some (level, i1) \<Rightarrow>
     (case GetVarint64 i1 of
        None \<Rightarrow> Inl ''new-file entry''
      | Some (number, i2) \<Rightarrow>
     (case GetVarint64 i2 of
        None \<Rightarrow> Inl ''new-file entry''
      | Some (file_size, i3) \<Rightarrow>
     (case GetInternalKey i3 of
        None \<Rightarrow> Inl ''new-file entry''
      | Some (smallest, i4) \<Rightarrow>
     (case GetInternalKey i4 of
        None \<Rightarrow> Inl ''new-file entry''
      | Some (largest, i5) \<Rightarrow> Inr (i5, AddFile level number file_size smallest largest e))))))"

definition decode_field :: "u32 \<Rightarrow> string \<Rightarrow> VersionEdit \<Rightarrow> string + (string \<times> VersionEdit)" where
  "decode_field tag input e =
     (if tag = Tag_num kComparator then
        (case GetLengthPrefixedSlice input of
           Some (str, input1) \<Rightarrow> Inr (input1, SetComparatorName str e)
         | None \<Rightarrow> Inl ''comparator name'')
      else if tag = Tag_num kLogNumber then decode_number ''log number'' input (\<lambda>n. SetLogNumber n e)
      else if tag = Tag_num kPrevLogNumber then decode_number ''previous log number'' input (\<lambda>n. SetPrevLogNumber n e)
      else if tag = Tag_num kNextFileNumber then decode_number ''next file number'' input (\<lambda>n. SetNextFile n e)
      else if tag = Tag_num kLastSequence then decode_number ''last sequence number'' input (\<lambda>n. SetLastSequence n e)
      else if tag = Tag_num kCompactPointer then
        (case GetLevel input of
           Some (level, input1) \<Rightarrow>
             (case GetInternalKey input1 of
                Some (key, input2) \<Rightarrow> Inr (input2, SetCompactPointer level key e)
              | None \<Rightarrow> Inl ''compaction pointer'')
         | None \<Rightarrow> Inl ''compaction pointer'')
      else if tag = Tag_num kDeletedFile then
        (case GetLevel input of
           Some (level, input1) \<Rightarrow> decode_number ''deleted file'' input1 (\<lambda>n. RemoveFile_ve level n e)
         | None \<Rightarrow> Inl ''deleted file'')
      else if tag = Tag_num kNewFile then decode_new_file input e
      else Inl ''unknown tag'')"

lemma GetVarint64Ptr_loop_shorter: "GetVarint64Ptr_loop s r p = Some (v, q) \<Longrightarrow> length q < length p"
proof (induction s r p rule: GetVarint64Ptr_loop.induct)
  case (1 s r p)
  then show ?case
    by (subst (asm) GetVarint64Ptr_loop.simps) (fastforce simp: Let_def split: list.splits if_splits)
qed

lemma Get_shorter:
  "GetVarint64 p = Some (v, q) \<Longrightarrow> length q < length p"
  "GetLevel p = Some (l, q) \<Longrightarrow> length q < length p"
  "GetInternalKey p = Some (k, q) \<Longrightarrow> length q < length p"
  by (auto simp: GetVarint64_def GetVarint64Ptr_def GetLevel_def GetInternalKey_def split: option.splits if_splits
      dest: GetVarint64Ptr_loop_shorter GetVarint32_shorter GetLengthPrefixedSlice_shorter)

lemma decode_field_shorter: "decode_field tag p e = Inr (q, e') \<Longrightarrow> length q < length p"
  by (auto simp: decode_field_def decode_number_def decode_new_file_def split: option.splits if_splits
      dest!: Get_shorter GetLengthPrefixedSlice_shorter)

function DecodeFrom_loop :: "string \<Rightarrow> VersionEdit \<Rightarrow> string option \<times> VersionEdit" where
  "DecodeFrom_loop input e =
     (case GetVarint32 input of
        None \<Rightarrow> (if input \<noteq> [] then Some ''invalid tag'' else None, e)
      | Some (tag, input1) \<Rightarrow>
          (case decode_field tag input1 e of
             Inl msg \<Rightarrow> (Some msg, e)
           | Inr (input2, e') \<Rightarrow> DecodeFrom_loop input2 e'))"
  by pat_completeness auto
termination
  by (relation "measure (\<lambda>(input, e). length input)") (auto dest!: GetVarint32_shorter decode_field_shorter)

declare DecodeFrom_loop.simps [simp del]

definition VersionEdit_DecodeFrom :: "string \<Rightarrow> Status \<times> VersionEdit" where
  "VersionEdit_DecodeFrom src =
     (let (msg, e) = DecodeFrom_loop src VersionEdit_Clear
      in (case msg of Some m \<Rightarrow> mk_Status kCorruption ''VersionEdit'' m | None \<Rightarrow> OK, e))"

section \<open>Printing\<close>

definition print_compact_pointer :: "int \<times> string \<Rightarrow> string \<Rightarrow> string" where
  "print_compact_pointer p r =
     AppendNumberTo (r @ CHR 0x0A # ''  CompactPointer: '') (of_int (fst p)) @ '' '' @ InternalKey_DebugString (snd p)"

definition print_deleted_file :: "int \<times> u64 \<Rightarrow> string \<Rightarrow> string" where
  "print_deleted_file p r =
     AppendNumberTo (AppendNumberTo (r @ CHR 0x0A # ''  RemoveFile: '') (of_int (fst p)) @ '' '') (snd p)"

definition print_new_file :: "int \<times> FileMetaData \<Rightarrow> string \<Rightarrow> string" where
  "print_new_file p r =
     (let f = snd p;
          r1 = AppendNumberTo (r @ CHR 0x0A # ''  AddFile: '') (of_int (fst p)) @ '' '';
          r2 = AppendNumberTo r1 (fm_number f) @ '' '';
          r3 = AppendNumberTo r2 (fm_file_size f) @ '' ''
      in r3 @ InternalKey_DebugString (fm_smallest f) @ '' .. '' @ InternalKey_DebugString (fm_largest f))"

definition VersionEdit_DebugString :: "VersionEdit \<Rightarrow> string" where
  "VersionEdit_DebugString e =
     (let r0 = ''VersionEdit {'';
          r1 = (if ve_has_comparator e then r0 @ CHR 0x0A # ''  Comparator: '' @ ve_comparator e else r0);
          r2 = (if ve_has_log_number e then AppendNumberTo (r1 @ CHR 0x0A # ''  LogNumber: '') (ve_log_number e) else r1);
          r3 = (if ve_has_prev_log_number e then AppendNumberTo (r2 @ CHR 0x0A # ''  PrevLogNumber: '') (ve_prev_log_number e) else r2);
          r4 = (if ve_has_next_file_number e then AppendNumberTo (r3 @ CHR 0x0A # ''  NextFile: '') (ve_next_file_number e) else r3);
          r5 = (if ve_has_last_sequence e then AppendNumberTo (r4 @ CHR 0x0A # ''  LastSeq: '') (ve_last_sequence e) else r4);
          r6 = fold print_compact_pointer (ve_compact_pointers e) r5;
          r7 = fold print_deleted_file (ve_deleted_files e) r6;
          r8 = fold print_new_file (ve_new_files e) r7
      in r8 @ [CHR 0x0A, CHR 0x7D, CHR 0x0A])"

section \<open>Decoding what was encoded\<close>

text \<open>Edits that the setters build: unset fields hold their cleared values.\<close>

definition key_fits :: "string \<Rightarrow> bool" where
  "key_fits k \<longleftrightarrow> k \<noteq> [] \<and> length k < 2 ^ 32"

definition level_ok :: "int \<Rightarrow> bool" where
  "level_ok l \<longleftrightarrow> 0 \<le> l \<and> l < int kNumLevels"

definition file_fits :: "FileMetaData \<Rightarrow> bool" where
  "file_fits f \<longleftrightarrow> fm_refs f = 0 \<and> fm_allowed_seeks f = 2 ^ 30 \<and> key_fits (fm_smallest f) \<and> key_fits (fm_largest f)"

definition edit_ok :: "VersionEdit \<Rightarrow> bool" where
  "edit_ok e \<longleftrightarrow>
     length (ve_comparator e) < 2 ^ 32 \<and>
     (ve_has_comparator e \<or> ve_comparator e = []) \<and> (ve_has_log_number e \<or> ve_log_number e = 0) \<and>
     (ve_has_prev_log_number e \<or> ve_prev_log_number e = 0) \<and> (ve_has_next_file_number e \<or> ve_next_file_number e = 0) \<and>
     (ve_has_last_sequence e \<or> ve_last_sequence e = 0) \<and>
     list_all (\<lambda>(l, k). level_ok l \<and> key_fits k) (ve_compact_pointers e) \<and>
     sorted (ve_deleted_files e) \<and> distinct (ve_deleted_files e) \<and> list_all (level_ok \<circ> fst) (ve_deleted_files e) \<and>
     list_all (\<lambda>(l, f). level_ok l \<and> file_fits f) (ve_new_files e)"

lemma set_insort_insert: "set (insort_insert x xs) = insert x (set xs)"
  by (auto simp: insort_insert_key_def set_insort_key)

lemma edit_ok_ops:
  "edit_ok VersionEdit_Clear"
  "edit_ok e \<Longrightarrow> length name < 2 ^ 32 \<Longrightarrow> edit_ok (SetComparatorName name e)"
  "edit_ok e \<Longrightarrow> edit_ok (SetLogNumber n e)" "edit_ok e \<Longrightarrow> edit_ok (SetPrevLogNumber n e)"
  "edit_ok e \<Longrightarrow> edit_ok (SetNextFile n e)" "edit_ok e \<Longrightarrow> edit_ok (SetLastSequence q e)"
  "edit_ok e \<Longrightarrow> level_ok l \<Longrightarrow> key_fits k \<Longrightarrow> edit_ok (SetCompactPointer l k e)"
  "edit_ok e \<Longrightarrow> level_ok l \<Longrightarrow> key_fits a \<Longrightarrow> key_fits b \<Longrightarrow> edit_ok (AddFile l n z a b e)"
  "edit_ok e \<Longrightarrow> level_ok l \<Longrightarrow> edit_ok (RemoveFile_ve l n e)"
  by (simp_all add: edit_ok_def VersionEdit_Clear_def SetComparatorName_def SetLogNumber_def SetPrevLogNumber_def SetNextFile_def
      SetLastSequence_def SetCompactPointer_def AddFile_def FileMetaData_new_def file_fits_def RemoveFile_ve_def
      sorted_insort_insert distinct_insort_insert list_all_iff set_insort_insert)

lemma GetLevel_Put: "level_ok l \<Longrightarrow> GetLevel (EncodeVarint32 (of_int l) @ s) = Some (l, s)"
proof -
  assume l: "level_ok l"
  then have "uint (word_of_int l :: u32) = l" by (simp add: level_ok_def kNumLevels_def uint_word_of_int_eq take_bit_int_eq_self)
  moreover from this have "unat (word_of_int l :: u32) < kNumLevels" using l by (simp add: level_ok_def nat_less_iff flip: nat_uint_eq)
  ultimately show ?thesis by (simp add: GetLevel_def)
qed

lemma GetInternalKey_Put: "key_fits k \<Longrightarrow> GetInternalKey (PutLengthPrefixedSlice [] k @ s) = Some (k, s)"
  by (simp add: GetInternalKey_def GetLengthPrefixedSlice_Put key_fits_def)

lemma GetVarint64_Enc: "GetVarint64 (EncodeVarint64 n @ s) = Some (n, s)"
  using GetVarint64_Put [of n s] by (simp add: PutVarint64_def)

lemma Put_append:
  "PutLengthPrefixedSlice d k = d @ PutLengthPrefixedSlice [] k"
  by (simp add: PutLengthPrefixedSlice_def PutVarint32_def)

lemma DecodeFrom_loop_field:
  "decode_field t i e = Inr (i', e') \<Longrightarrow> DecodeFrom_loop (EncodeVarint32 t @ i) e = DecodeFrom_loop i' e'"
  by (simp add: DecodeFrom_loop.simps [of "_ @ _"])

lemma Tag_num_simps [simp]: "Tag_num kComparator = 1" "Tag_num kLogNumber = 2" "Tag_num kNextFileNumber = 3" "Tag_num kLastSequence = 4"
  "Tag_num kCompactPointer = 5" "Tag_num kDeletedFile = 6" "Tag_num kNewFile = 7" "Tag_num kPrevLogNumber = 9"
  by (simp_all add: Tag_num_def)

lemmas decode_simps = decode_field_def decode_number_def decode_new_file_def GetLevel_Put GetInternalKey_Put GetVarint64_Enc
  GetLengthPrefixedSlice_Put

text \<open>Each field that is written is decoded to the call that sets it.\<close>

lemma decode_compact_pointers:
  "list_all (\<lambda>(l, k). level_ok l \<and> key_fits k) ps \<Longrightarrow>
   \<exists>x. (\<forall>d. fold put_compact_pointer ps d = d @ x) \<and>
     (\<forall>s e. DecodeFrom_loop (x @ s) e = DecodeFrom_loop s (e\<lparr>ve_compact_pointers := ve_compact_pointers e @ ps\<rparr>))"
proof (induction ps)
  case (Cons p ps)
  obtain x where x: "\<And>d. fold put_compact_pointer ps d = d @ x"
    "\<And>s e. DecodeFrom_loop (x @ s) e = DecodeFrom_loop s (e\<lparr>ve_compact_pointers := ve_compact_pointers e @ ps\<rparr>)" using Cons by auto
  obtain l k where p: "p = (l, k)" "level_ok l" "key_fits k" using Cons.prems by (cases p) auto
  have "DecodeFrom_loop (EncodeVarint32 5 @ EncodeVarint32 (of_int l) @ PutLengthPrefixedSlice [] k @ s) e =
      DecodeFrom_loop s (SetCompactPointer l k e)" for s e
    by (rule DecodeFrom_loop_field) (simp add: decode_simps p)
  then show ?case using x
    by (intro exI [of _ "EncodeVarint32 5 @ EncodeVarint32 (of_int l) @ PutLengthPrefixedSlice [] k @ x"])
      (simp add: p put_compact_pointer_def [of "(l, k)"] PutVarint32_def Put_append [of "_ @ _"] SetCompactPointer_def)
qed simp

lemma decode_new_files:
  "list_all (\<lambda>(l, f). level_ok l \<and> file_fits f) fs \<Longrightarrow>
   \<exists>x. (\<forall>d. fold put_new_file fs d = d @ x) \<and>
     (\<forall>s e. DecodeFrom_loop (x @ s) e = DecodeFrom_loop s (e\<lparr>ve_new_files := ve_new_files e @ fs\<rparr>))"
proof (induction fs)
  case (Cons p fs)
  obtain x where x: "\<And>d. fold put_new_file fs d = d @ x"
    "\<And>s e. DecodeFrom_loop (x @ s) e = DecodeFrom_loop s (e\<lparr>ve_new_files := ve_new_files e @ fs\<rparr>)" using Cons by auto
  obtain l f where p: "p = (l, f)" "level_ok l" "file_fits f" using Cons.prems by (cases p) auto
  let ?x = "EncodeVarint32 7 @ EncodeVarint32 (of_int l) @ EncodeVarint64 (fm_number f) @ EncodeVarint64 (fm_file_size f) @
    PutLengthPrefixedSlice [] (fm_smallest f) @ PutLengthPrefixedSlice [] (fm_largest f)"
  have "DecodeFrom_loop (?x @ s) e = DecodeFrom_loop s (AddFile l (fm_number f) (fm_file_size f) (fm_smallest f) (fm_largest f) e)" for s e
    unfolding append_assoc by (rule DecodeFrom_loop_field) (use p in \<open>simp add: decode_simps file_fits_def\<close>)
  moreover have "FileMetaData_new (fm_number f) (fm_file_size f) (fm_smallest f) (fm_largest f) = f"
    using p(3) by (simp add: FileMetaData_new_def file_fits_def)
  ultimately show ?case using x
    by (intro exI [of _ "?x @ x"])
      (simp add: p put_new_file_def [of "(l, f)"] Let_def PutVarint32_def PutVarint64_def Put_append [of "_ @ _"] AddFile_def)
qed simp

lemma decode_deleted_files:
  "list_all (level_ok \<circ> fst) ds \<Longrightarrow>
   \<exists>x. (\<forall>d. fold put_deleted_file ds d = d @ x) \<and>
     (\<forall>s e. DecodeFrom_loop (x @ s) e = DecodeFrom_loop s (e\<lparr>ve_deleted_files := fold insort_insert ds (ve_deleted_files e)\<rparr>))"
proof (induction ds)
  case (Cons p ds)
  obtain x where x: "\<And>d. fold put_deleted_file ds d = d @ x"
    "\<And>s e. DecodeFrom_loop (x @ s) e = DecodeFrom_loop s (e\<lparr>ve_deleted_files := fold insort_insert ds (ve_deleted_files e)\<rparr>)" using Cons by auto
  obtain l n where p: "p = (l, n)" "level_ok l" using Cons.prems by (cases p) auto
  have "DecodeFrom_loop (EncodeVarint32 6 @ EncodeVarint32 (of_int l) @ EncodeVarint64 n @ s) e =
      DecodeFrom_loop s (RemoveFile_ve l n e)" for s e
    by (rule DecodeFrom_loop_field) (simp add: decode_simps p)
  then show ?case using x
    by (intro exI [of _ "EncodeVarint32 6 @ EncodeVarint32 (of_int l) @ EncodeVarint64 n @ x"])
      (simp add: p put_deleted_file_def [of "(l, n)"] PutVarint32_def PutVarint64_def RemoveFile_ve_def)
qed simp

lemma fold_insort_insert_sorted:
  "sorted (xs @ ys) \<Longrightarrow> distinct (xs @ ys) \<Longrightarrow> fold insort_insert ys xs = xs @ ys"
proof (induction ys arbitrary: xs)
  case (Cons y ys)
  have "insort_insert y xs = xs @ [y]"
    using Cons.prems by (induction xs) (auto simp: insort_insert_key_def insort_is_Cons)
  then show ?case using Cons.IH [of "xs @ [y]"] Cons.prems by simp
qed simp

lemma DecodeFrom_loop_Nil: "DecodeFrom_loop [] e = (None, e)"
proof -
  have "GetVarint32 [] = None" by code_simp
  then show ?thesis by (simp add: DecodeFrom_loop.simps)
qed

lemma decode_numbers:
  "DecodeFrom_loop ((if b then EncodeVarint32 2 @ EncodeVarint64 m else []) @ s) e = DecodeFrom_loop s (if b then SetLogNumber m e else e)"
  "DecodeFrom_loop ((if b then EncodeVarint32 9 @ EncodeVarint64 m else []) @ s) e = DecodeFrom_loop s (if b then SetPrevLogNumber m e else e)"
  "DecodeFrom_loop ((if b then EncodeVarint32 3 @ EncodeVarint64 m else []) @ s) e = DecodeFrom_loop s (if b then SetNextFile m e else e)"
  "DecodeFrom_loop ((if b then EncodeVarint32 4 @ EncodeVarint64 m else []) @ s) e = DecodeFrom_loop s (if b then SetLastSequence m e else e)"
  by (cases b; simp; rule DecodeFrom_loop_field; simp add: decode_simps)+

lemma DecodeFrom_EncodeTo:
  assumes "edit_ok e"
  shows "DecodeFrom_loop (VersionEdit_EncodeTo e []) VersionEdit_Clear = (None, e)"
proof -
  obtain x where x: "\<And>d. fold put_compact_pointer (ve_compact_pointers e) d = d @ x"
    "\<And>s e'. DecodeFrom_loop (x @ s) e' = DecodeFrom_loop s (e'\<lparr>ve_compact_pointers := ve_compact_pointers e' @ ve_compact_pointers e\<rparr>)"
    using decode_compact_pointers [of "ve_compact_pointers e"] assms by (auto simp: edit_ok_def)
  obtain y where y: "\<And>d. fold put_deleted_file (ve_deleted_files e) d = d @ y"
    "\<And>s e'. DecodeFrom_loop (y @ s) e' = DecodeFrom_loop s (e'\<lparr>ve_deleted_files := fold insort_insert (ve_deleted_files e) (ve_deleted_files e')\<rparr>)"
    using decode_deleted_files [of "ve_deleted_files e"] assms by (auto simp: edit_ok_def)
  obtain z where z: "\<And>d. fold put_new_file (ve_new_files e) d = d @ z"
    "\<And>s e'. DecodeFrom_loop (z @ s) e' = DecodeFrom_loop s (e'\<lparr>ve_new_files := ve_new_files e' @ ve_new_files e\<rparr>)"
    using decode_new_files [of "ve_new_files e"] assms by (auto simp: edit_ok_def)
  have f: "DecodeFrom_loop ((if ve_has_comparator e then EncodeVarint32 1 @ PutLengthPrefixedSlice [] (ve_comparator e) else []) @ s) e' =
      DecodeFrom_loop s (if ve_has_comparator e then SetComparatorName (ve_comparator e) e' else e')" for s e'
    using assms by (cases "ve_has_comparator e"; simp; intro DecodeFrom_loop_field) (simp add: decode_simps edit_ok_def)
  have d: "VersionEdit_EncodeTo e [] = (if ve_has_comparator e then EncodeVarint32 1 @ PutLengthPrefixedSlice [] (ve_comparator e) else []) @
      (if ve_has_log_number e then EncodeVarint32 2 @ EncodeVarint64 (ve_log_number e) else []) @
      (if ve_has_prev_log_number e then EncodeVarint32 9 @ EncodeVarint64 (ve_prev_log_number e) else []) @
      (if ve_has_next_file_number e then EncodeVarint32 3 @ EncodeVarint64 (ve_next_file_number e) else []) @
      (if ve_has_last_sequence e then EncodeVarint32 4 @ EncodeVarint64 (ve_last_sequence e) else []) @ x @ y @ z @ []"
    by (simp add: VersionEdit_EncodeTo_def Let_def PutVarint32_def PutVarint64_def Put_append [of "EncodeVarint32 _"] x(1) y(1) z(1))
  have del: "fold insort_insert (ve_deleted_files e) [] = ve_deleted_files e"
    using fold_insort_insert_sorted [of "[]" "ve_deleted_files e"] assms by (simp add: edit_ok_def)
  show ?thesis
    unfolding d f decode_numbers x(2) y(2) z(2) DecodeFrom_loop_Nil
    by (intro prod_eqI VersionEdit.equality) (use assms del in \<open>auto simp: edit_ok_def VersionEdit_Clear_def SetComparatorName_def
      SetLogNumber_def SetPrevLogNumber_def SetNextFile_def SetLastSequence_def\<close>)
qed

lemma decode_field_ok:
  assumes "edit_ok e" "decode_field t i e = Inr (i', e')"
  shows "edit_ok e'"
proof -
  have lv: "GetLevel p = Some (l, q) \<Longrightarrow> level_ok l" for p l q
    by (auto simp: GetLevel_def level_ok_def split: option.splits if_splits) (simp flip: nat_uint_eq)
  have w: "unat (n :: u32) < 2 ^ 32" for n using unsigned_less [of n] by simp
  have fits: "GetLengthPrefixedSlice p = Some (k, q) \<Longrightarrow> length k < 2 ^ 32" for p k q
    using w by (auto simp: GetLengthPrefixedSlice_def split: option.splits if_splits)
  have ik: "GetInternalKey p = Some (k, q) \<Longrightarrow> key_fits k" for p k q
    using fits by (auto simp: GetInternalKey_def key_fits_def split: option.splits if_splits)
  show ?thesis using assms
    by (auto simp: decode_field_def decode_number_def decode_new_file_def split: option.splits if_splits
        intro!: edit_ok_ops intro: lv ik dest: fits [simplified]) (rule lv ik, assumption)+
qed

lemma DecodeFrom_loop_ok: "edit_ok e \<Longrightarrow> edit_ok (snd (DecodeFrom_loop i e))"
proof (induction i e rule: DecodeFrom_loop.induct)
  case (1 input e)
  show ?case
    by (subst DecodeFrom_loop.simps) (use 1 in \<open>auto split: option.split sum.split dest: decode_field_ok\<close>)
qed

section \<open>Properties\<close>

inductive built_edit :: "VersionEdit \<Rightarrow> bool" where
  "built_edit VersionEdit_Clear"
| "built_edit e \<Longrightarrow> length name < 2 ^ 32 \<Longrightarrow> built_edit (SetComparatorName name e)"
| "built_edit e \<Longrightarrow> built_edit (SetLogNumber n e)"
| "built_edit e \<Longrightarrow> built_edit (SetPrevLogNumber n e)"
| "built_edit e \<Longrightarrow> built_edit (SetNextFile n e)"
| "built_edit e \<Longrightarrow> built_edit (SetLastSequence q e)"
| "built_edit e \<Longrightarrow> level_ok l \<Longrightarrow> key_fits k \<Longrightarrow> built_edit (SetCompactPointer l k e)"
| "built_edit e \<Longrightarrow> level_ok l \<Longrightarrow> key_fits a \<Longrightarrow> key_fits b \<Longrightarrow> built_edit (AddFile l n z a b e)"
| "built_edit e \<Longrightarrow> level_ok l \<Longrightarrow> built_edit (RemoveFile_ve l n e)"

lemma built_edit_ok: "built_edit e \<Longrightarrow> edit_ok e"
  by (induction rule: built_edit.induct) (auto intro: edit_ok_ops)

text \<open>
  C17: every edit that any sequence of calls of the setters builds from a cleared one, with levels in range and keys that are
  not empty, is decoded from its encoding exactly, with status OK.
\<close>

theorem version_edit_roundtrip:
  assumes "built_edit e"
  shows "VersionEdit_DecodeFrom (VersionEdit_EncodeTo e []) = (OK, e)"
  using DecodeFrom_EncodeTo [OF built_edit_ok [OF assms]] by (simp add: VersionEdit_DecodeFrom_def)

theorem version_edit_roundtrip_witness:
  "VersionEdit_DecodeFrom (VersionEdit_EncodeTo (AddFile 3 7 100 ''a'' ''b'' (RemoveFile_ve 2 5 (SetLogNumber 9 VersionEdit_Clear))) []) =
     (OK, AddFile 3 7 100 ''a'' ''b'' (RemoveFile_ve 2 5 (SetLogNumber 9 VersionEdit_Clear)))"
  by (rule version_edit_roundtrip) (intro built_edit.intros; simp add: level_ok_def kNumLevels_def key_fits_def)

text \<open>
  C21: whatever bytes are decoded, and whether decoding succeeds or fails halfway, the edit is well formed: its levels are
  between 0 and 6, its keys are not empty, its deleted files are sorted without duplicates, and fields that were not set hold
  their cleared values; so that encoding and decoding it again gives the same edit with status OK.
\<close>

theorem decoded_edit_well_formed:
  "edit_ok (snd (VersionEdit_DecodeFrom src)) \<and>
   VersionEdit_DecodeFrom (VersionEdit_EncodeTo (snd (VersionEdit_DecodeFrom src)) []) = (OK, snd (VersionEdit_DecodeFrom src))"
proof -
  have "edit_ok (snd (VersionEdit_DecodeFrom src))"
    using DecodeFrom_loop_ok [OF edit_ok_ops(1), of src] by (simp add: VersionEdit_DecodeFrom_def case_prod_beta)
  from this DecodeFrom_EncodeTo [OF this] show ?thesis by (simp add: VersionEdit_DecodeFrom_def [of "VersionEdit_EncodeTo _ _"])
qed

end
