(* ===== verification/Filename.thy ===== *)
theory Filename
  imports File_System Logging
begin

text \<open>
  \<^verbatim>\<open>src/leveldb/db/filename.cc\<close>: the names of the files of a database and their parsing.  The
  assertions \<open>number > 0\<close> of the source are hypotheses where a property needs them; the
  name functions themselves are total.  \<^verbatim>\<open>SetCurrentFile\<close> runs on the file system of
  \<open>File_System\<close>: a write fails when the path cannot be written, a rename when the source is
  missing or the target cannot be written.
\<close>

section \<open>Names\<close>

definition pad6 :: "string \<Rightarrow> string" where
  "pad6 s = replicate (6 - length s) (CHR ''0'') @ s"

definition MakeFileName :: "string \<Rightarrow> u64 \<Rightarrow> string \<Rightarrow> string" where
  "MakeFileName dbname number suffix =
     dbname @ ''/'' @ pad6 (nat_to_string (unat number)) @ ''.'' @ suffix"

definition LogFileName :: "string \<Rightarrow> u64 \<Rightarrow> string" where
  "LogFileName dbname number = MakeFileName dbname number ''log''"

definition TableFileName :: "string \<Rightarrow> u64 \<Rightarrow> string" where
  "TableFileName dbname number = MakeFileName dbname number ''ldb''"

definition SSTTableFileName :: "string \<Rightarrow> u64 \<Rightarrow> string" where
  "SSTTableFileName dbname number = MakeFileName dbname number ''sst''"

definition DescriptorFileName :: "string \<Rightarrow> u64 \<Rightarrow> string" where
  "DescriptorFileName dbname number = dbname @ ''/MANIFEST-'' @ pad6 (nat_to_string (unat number))"

definition CurrentFileName :: "string \<Rightarrow> string" where
  "CurrentFileName dbname = dbname @ ''/CURRENT''"

definition LockFileName :: "string \<Rightarrow> string" where
  "LockFileName dbname = dbname @ ''/LOCK''"

definition TempFileName :: "string \<Rightarrow> u64 \<Rightarrow> string" where
  "TempFileName dbname number = MakeFileName dbname number ''dbtmp''"

definition InfoLogFileName :: "string \<Rightarrow> string" where
  "InfoLogFileName dbname = dbname @ ''/LOG''"

definition OldInfoLogFileName :: "string \<Rightarrow> string" where
  "OldInfoLogFileName dbname = dbname @ ''/LOG.old''"

section \<open>Parsing\<close>

datatype FileType =
  kLogFile | kDBLockFile | kTableFile | kDescriptorFile | kCurrentFile | kTempFile | kInfoLogFile

definition ParseFileName :: "string \<Rightarrow> (u64 \<times> FileType) option" where
  "ParseFileName filename =
     (if Slice_eq filename ''CURRENT'' then Some (0, kCurrentFile)
      else if Slice_eq filename ''LOCK'' then Some (0, kDBLockFile)
      else if Slice_eq filename ''LOG'' \<or> Slice_eq filename ''LOG.old'' then Some (0, kInfoLogFile)
      else if starts_with filename ''MANIFEST-'' then
        case ConsumeDecimalNumber (remove_prefix filename (length ''MANIFEST-'')) of
          None \<Rightarrow> None
        | Some (num, rest) \<Rightarrow> if rest \<noteq> [] then None else Some (num, kDescriptorFile)
      else
        case ConsumeDecimalNumber filename of
          None \<Rightarrow> None
        | Some (num, suffix) \<Rightarrow>
            if Slice_eq suffix ''.log'' then Some (num, kLogFile)
            else if Slice_eq suffix ''.sst'' \<or> Slice_eq suffix ''.ldb'' then Some (num, kTableFile)
            else if Slice_eq suffix ''.dbtmp'' then Some (num, kTempFile)
            else None)"

fun rfind :: "string \<Rightarrow> char \<Rightarrow> nat option" where
  "rfind [] c = None"
| "rfind (x # xs) c = (case rfind xs c of Some i \<Rightarrow> Some (Suc i) | None \<Rightarrow> if x = c then Some 0 else None)"

definition GuessType :: "string \<Rightarrow> FileType option" where
  "GuessType fname =
     (let basename = (case rfind fname (CHR ''/'') of None \<Rightarrow> fname | Some pos \<Rightarrow> drop (pos + 1) fname)
      in map_option snd (ParseFileName basename))"

section \<open>The CURRENT file\<close>

definition IOError :: "string \<Rightarrow> Status" where
  "IOError msg = mk_Status kIOError msg []"

definition RemoveFile :: "fs \<Rightarrow> string \<Rightarrow> fs" where
  "RemoveFile w f = w\<lparr>files := (files w)(f := None)\<rparr>"

definition WriteStringToFileSync :: "string \<Rightarrow> string \<Rightarrow> fs \<Rightarrow> Status \<times> fs" where
  "WriteStringToFileSync data fname w =
     (if writable w fname then (OK, write_file w fname data) else (IOError fname, w))"

definition RenameFile :: "string \<Rightarrow> string \<Rightarrow> fs \<Rightarrow> Status \<times> fs" where
  "RenameFile from to w =
     (case files w from of
        Some c \<Rightarrow> if writable w to then (OK, write_file (RemoveFile w from) to c) else (IOError from, w)
      | None \<Rightarrow> (IOError from, w))"

definition SetCurrentFile :: "string \<Rightarrow> u64 \<Rightarrow> fs \<Rightarrow> Status \<times> fs" where
  "SetCurrentFile dbname descriptor_number w =
     (let contents = remove_prefix (DescriptorFileName dbname descriptor_number) (length dbname + 1);
          tmp = TempFileName dbname descriptor_number;
          (s1, w1) = WriteStringToFileSync (contents @ [CHR 0x0A]) tmp w;
          (s2, w2) = (if Status_ok s1 then RenameFile tmp (CurrentFileName dbname) w1 else (s1, w1))
      in if \<not> Status_ok s2 then (s2, RemoveFile w2 tmp) else (s2, w2))"

section \<open>Lemmas\<close>

lemma decimal_val_zeros: "decimal_val 0 (replicate k (CHR ''0'') @ s) = decimal_val 0 s"
  by (induction k) (simp_all add: digit_val_def)

lemma pad6_digits: "list_all is_digit_char (pad6 (nat_to_string n))" "pad6 (nat_to_string n) \<noteq> []"
  "decimal_val 0 (pad6 (nat_to_string n)) = n"
  using nat_to_string_digits [of n]
  by (auto simp: pad6_def decimal_val_zeros list_all_iff is_digit_char_def)

lemma consume_pad6:
  "rest = [] \<or> \<not> is_digit_char (hd rest) \<Longrightarrow>
   ConsumeDecimalNumber (pad6 (nat_to_string (unat n)) @ rest) = Some (n, rest)"
  using ConsumeDecimalNumber_digits [OF pad6_digits(1,2), of rest "unat n"] unsigned_less [of n]
  by (simp add: pad6_digits(3))

text \<open>A name that starts with a digit is none of the fixed names.\<close>

lemma ParseFileName_numbered:
  assumes "is_digit_char (hd f)"
  shows "ParseFileName f =
     (case ConsumeDecimalNumber f of
        None \<Rightarrow> None
      | Some (num, suffix) \<Rightarrow>
          if suffix = ''.log'' then Some (num, kLogFile)
          else if suffix = ''.sst'' \<or> suffix = ''.ldb'' then Some (num, kTableFile)
          else if suffix = ''.dbtmp'' then Some (num, kTempFile)
          else None)"
proof -
  have "hd f \<noteq> CHR ''C''" "hd f \<noteq> CHR ''L''" "hd f \<noteq> CHR ''M''"
    using assms by (auto simp: is_digit_char_def)
  then have "f \<noteq> ''CURRENT''" "f \<noteq> ''LOCK''" "f \<noteq> ''LOG''" "f \<noteq> ''LOG.old''" "\<not> starts_with f ''MANIFEST-''"
    by (auto simp: starts_with_iff)
  then show ?thesis by (simp add: ParseFileName_def split: option.split)
qed

lemma hd_pad6: "is_digit_char (hd (pad6 (nat_to_string n) @ s))"
  using pad6_digits(1,2) [of n] by (cases "pad6 (nat_to_string n)") auto

lemma rfind_none: "c \<notin> set xs \<Longrightarrow> rfind xs c = None"
  by (induction xs) auto

lemma rfind_append: "c \<notin> set ys \<Longrightarrow> rfind (xs @ c # ys) c = Some (length xs)"
  by (induction xs) (auto simp: rfind_none)

lemma GuessType_path: "CHR ''/'' \<notin> set base \<Longrightarrow> GuessType (dir @ ''/'' @ base) = map_option snd (ParseFileName base)"
  by (simp add: GuessType_def rfind_append)

lemma pad6_no_slash: "CHR ''/'' \<notin> set (pad6 (nat_to_string n))"
proof
  assume "CHR ''/'' \<in> set (pad6 (nat_to_string n))"
  then have "is_digit_char (CHR ''/'')" using pad6_digits(1) by (auto simp: list_all_iff)
  then show False by (simp add: is_digit_char_def)
qed

lemma MakeFileName_parses:
  "ParseFileName (pad6 (nat_to_string (unat n)) @ CHR ''.'' # suffix) =
     (if suffix = ''log'' then Some (n, kLogFile)
      else if suffix = ''sst'' \<or> suffix = ''ldb'' then Some (n, kTableFile)
      else if suffix = ''dbtmp'' then Some (n, kTempFile) else None)"
  using ParseFileName_numbered [OF hd_pad6, of "unat n" "CHR ''.'' # suffix"] consume_pad6 [of "CHR ''.'' # suffix" n]
  by (simp add: is_digit_char_def)

lemma Descriptor_parses: "ParseFileName (''MANIFEST-'' @ pad6 (nat_to_string (unat n))) = Some (n, kDescriptorFile)"
  using consume_pad6 [of "[]" n] by (simp add: ParseFileName_def starts_with_iff remove_prefix_def)

lemma fixed_names_parse:
  "ParseFileName ''CURRENT'' = Some (0, kCurrentFile)" "ParseFileName ''LOCK'' = Some (0, kDBLockFile)"
  "ParseFileName ''LOG'' = Some (0, kInfoLogFile)" "ParseFileName ''LOG.old'' = Some (0, kInfoLogFile)"
  by (simp_all add: ParseFileName_def)

lemma GuessType_table [simp]: "GuessType (TableFileName dbname n) = Some kTableFile"
  using GuessType_path [of "pad6 (nat_to_string (unat n)) @ ''.ldb''" dbname]
  by (simp add: TableFileName_def MakeFileName_def pad6_no_slash MakeFileName_parses)

section \<open>Properties\<close>

text \<open>
  C34: every name that the database makes is recognised: stripped of the directory it parses
  to the kind of file it was made for and, where it has one, to its number, for every 64-bit
  number including those of more than six digits.
\<close>

theorem file_names_parse:
  "map (\<lambda>f. ParseFileName (drop (length dbname + 1) f))
     [LogFileName dbname n, TableFileName dbname n, SSTTableFileName dbname n, DescriptorFileName dbname n,
      TempFileName dbname n, CurrentFileName dbname, LockFileName dbname, InfoLogFileName dbname, OldInfoLogFileName dbname]
   = [Some (n, kLogFile), Some (n, kTableFile), Some (n, kTableFile), Some (n, kDescriptorFile),
      Some (n, kTempFile), Some (0, kCurrentFile), Some (0, kDBLockFile), Some (0, kInfoLogFile), Some (0, kInfoLogFile)]"
  using Descriptor_parses [of n]
  by (simp add: LogFileName_def TableFileName_def SSTTableFileName_def DescriptorFileName_def TempFileName_def
      MakeFileName_def MakeFileName_parses CurrentFileName_def LockFileName_def InfoLogFileName_def
      OldInfoLogFileName_def fixed_names_parse)



end
