(* ===== verification/Dumpfile.thy ===== *)
theory Dumpfile
  imports Table Log_Reader Write_Batch Version_Edit Filename
begin

text \<open>
  \<^verbatim>\<open>src/leveldb/db/dumpfile.cc\<close>.  The result of a dump is the list of the strings that are appended
  to the destination, in order; the statuses of the appends are ignored by the source.  Reads
  of an existing file succeed.  The loop over a table ends for every file: the iterator moves
  on or becomes invalid.
\<close>

section \<open>Scanning a table\<close>

definition data_measure :: "TwoLevelIterator \<Rightarrow> nat" where
  "data_measure t = (case tl_data t of None \<Rightarrow> 0 | Some d \<Rightarrow> forward_measure d)"

lemma SkipForward_progress:
  "SkipEmptyDataBlocksForward bf t = t \<or>
   forward_measure (tl_index (SkipEmptyDataBlocksForward bf t)) = forward_measure (tl_index t) \<and> data_measure (SkipEmptyDataBlocksForward bf t) = 0 \<or>
   forward_measure (tl_index (SkipEmptyDataBlocksForward bf t)) < forward_measure (tl_index t)"
proof (induction bf t rule: SkipEmptyDataBlocksForward.induct)
  case (1 bf t)
  let ?t = "on_data Iter_SeekToFirst (InitDataBlock bf (on_index Iter_Next t))"
  consider "tl_Valid t" | "\<not> tl_Valid t" "\<not> it_Valid (tl_index t)" | "\<not> tl_Valid t" "it_Valid (tl_index t)" by blast
  then show ?case
  proof cases
    case 3
    then have "forward_measure (tl_index ?t) < forward_measure (tl_index t)" by (simp add: forward_progress)
    moreover have "SkipEmptyDataBlocksForward bf t = SkipEmptyDataBlocksForward bf ?t"
      using 3 by (subst SkipEmptyDataBlocksForward.simps) simp
    ultimately show ?thesis using 1 [OF 3(1)] 3(2) by auto
  qed (simp_all add: SkipEmptyDataBlocksForward.simps [of bf t] data_measure_def SetDataIterator_def SaveError_def Let_def split: option.split)
qed

lemma tl_Next_progress:
  "tl_Valid t \<Longrightarrow> (tl_Next bf t, t) \<in> inv_image (less_than <*lex*> less_than) (\<lambda>t. (forward_measure (tl_index t), data_measure t))"
proof -
  assume v: "tl_Valid t"
  then obtain d where d: "tl_data t = Some d" "it_Valid d" by (auto simp: tl_Valid_def split: option.splits)
  have "data_measure (on_data Iter_Next t) < data_measure t"
    using d forward_progress [OF d(2)] by (simp add: data_measure_def on_data_def)
  then show ?thesis using SkipForward_progress [of bf "on_data Iter_Next t"] by (auto simp: tl_Next_def)
qed

function scan_loop :: "(string \<Rightarrow> Iterator) \<Rightarrow> TwoLevelIterator \<Rightarrow> (string \<times> string) list \<times> TwoLevelIterator" where
  "scan_loop bf t =
     (if tl_Valid t then let (kvs, t') = scan_loop bf (tl_Next bf t) in ((tl_key t, tl_value t) # kvs, t') else ([], t))"
  by pat_completeness auto
termination
  by (relation "inv_image (inv_image (less_than <*lex*> less_than) (\<lambda>t. (forward_measure (tl_index t), data_measure t))) snd")
    (use tl_Next_progress in auto)

declare scan_loop.simps [simp del]

lemma scan_loop_iterate:
  "iterate tl_Valid tl_kv (tl_Next bf) n t = (kvs, t') \<Longrightarrow> \<not> tl_Valid t' \<Longrightarrow> scan_loop bf t = (kvs, t')"
proof (induction n arbitrary: t kvs)
  case 0
  then show ?case by (simp add: scan_loop.simps)
next
  case (Suc n)
  then show ?case by (cases "tl_Valid t") (auto simp: scan_loop.simps [of bf t] scan_loop.simps [of bf t'] tl_kv_def split: prod.splits)
qed

section \<open>Dumping tables\<close>

text \<open>\<^verbatim>\<open>Options()\<close>: the default values of \<^verbatim>\<open>include/leveldb/options.h\<close>.\<close>

definition Options_default :: Options where
  "Options_default =
     \<lparr>opt_comparator = bytewise_comparator, opt_create_if_missing = False, opt_error_if_exists = False,
      opt_paranoid_checks = False, opt_write_buffer_size = 4 * 1024 * 1024, opt_max_open_files = 1000,
      opt_block_size = 4 * 1024, opt_block_restart_interval = 16, opt_max_file_size = 2 * 1024 * 1024,
      opt_compression = kSnappyCompression, opt_zstd_compression_level = 1, opt_reuse_logs = False,
      opt_filter_policy = None\<rparr>"

definition PosixError :: "string \<Rightarrow> Status" where
  "PosixError fname = NotFound fname ''No such file or directory''"

definition GetFileSize :: "fs \<Rightarrow> string \<Rightarrow> Status + nat" where
  "GetFileSize w fname = (case files w fname of None \<Rightarrow> Inl (PosixError fname) | Some c \<Rightarrow> Inr (length c))"

definition NewRandomAccessFile :: "fs \<Rightarrow> string \<Rightarrow> Status + rafile" where
  "NewRandomAccessFile w fname = (case files w fname of None \<Rightarrow> Inl (PosixError fname) | Some c \<Rightarrow> Inr (plain_file c))"

definition NewSequentialFile :: "fs \<Rightarrow> string \<Rightarrow> Status + seqfile" where
  "NewSequentialFile w fname =
     (case files w fname of None \<Rightarrow> Inl (PosixError fname) | Some c \<Rightarrow> Inr \<lparr>sf_data = c, sf_status = []\<rparr>)"

definition dump_entry :: "string \<times> string \<Rightarrow> string" where
  "dump_entry kv =
     (case ParseInternalKey (fst kv) of
        None \<Rightarrow>
          AppendEscapedStringTo (AppendEscapedStringTo (''badkey '' @ [CHR 0x27]) (fst kv) @ CHR 0x27 # '' => '' @ [CHR 0x27]) (snd kv)
            @ [CHR 0x27, CHR 0x0A]
      | Some key \<Rightarrow>
          let r1 = AppendEscapedStringTo [CHR 0x27] (user_key key) @ CHR 0x27 # '' @ '';
              r2 = AppendNumberTo r1 (sequence key) @ '' : '';
              r3 = r2 @ (case vtype key of kTypeDeletion \<Rightarrow> ''del'' | kTypeValue \<Rightarrow> ''val'')
          in AppendEscapedStringTo (r3 @ '' => '' @ [CHR 0x27]) (snd kv) @ [CHR 0x27, CHR 0x0A])"

definition DumpTable :: "codecs \<Rightarrow> fs \<Rightarrow> string \<Rightarrow> Status \<times> string list" where
  "DumpTable cd w fname =
     (case GetFileSize w fname of
        Inl s \<Rightarrow> (s, [])
      | Inr file_size \<Rightarrow>
     (case NewRandomAccessFile w fname of
        Inl s \<Rightarrow> (s, [])
      | Inr file \<Rightarrow>
     (case Table_Open cd Options_default file file_size of
        Inl s \<Rightarrow> (s, [])
      | Inr table \<Rightarrow>
          let bf = BlockReader cd table False;
              (kvs, iter) = scan_loop bf (tl_SeekToFirst bf (Table_NewIterator table));
              s = tl_status iter
          in (OK, map dump_entry kvs @
                  (if \<not> Status_ok s then [''iterator error: '' @ Status_ToString s @ [CHR 0x0A]] else [])))))"

section \<open>Dumping logs\<close>

definition report_line :: "u64 \<times> Status \<Rightarrow> string" where
  "report_line r = AppendNumberTo ''corruption: '' (fst r) @ '' bytes; '' @ Status_ToString (snd r) @ [CHR 0x0A]"

text \<open>The reporter prints while a record is being read, before the record itself is printed.\<close>

definition new_reports :: "Reader \<Rightarrow> Reader \<Rightarrow> string list" where
  "new_reports r r' = map report_line (drop (length (reports r)) (reports r'))"

function print_records :: "(u64 \<Rightarrow> string \<Rightarrow> string list) \<Rightarrow> Reader \<Rightarrow> string list" where
  "print_records func r =
     (case ReadRecord r of
        (None, r') \<Rightarrow> new_reports r r'
      | (Some record', r') \<Rightarrow> new_reports r r' @ func (LastRecordOffset r') record' @ print_records func r')"
  by pat_completeness auto
termination
  by (relation "measure (pending \<circ> snd)") (auto dest: ReadRecord_pending [OF sym])

declare print_records.simps [simp del]

definition PrintLogContents :: "fs \<Rightarrow> string \<Rightarrow> (u64 \<Rightarrow> string \<Rightarrow> string list) \<Rightarrow> Status \<times> string list" where
  "PrintLogContents w fname func =
     (case NewSequentialFile w fname of
        Inl s \<Rightarrow> (s, [])
      | Inr file \<Rightarrow> (OK, print_records func (Reader_new file True True 0)))"

definition WriteBatchItemPrinter :: "batch_op \<Rightarrow> string" where
  "WriteBatchItemPrinter p =
     (case p of
        BPut key val \<Rightarrow>
          AppendEscapedStringTo (AppendEscapedStringTo (''  put '' @ [CHR 0x27]) key @ CHR 0x27 # '' '' @ [CHR 0x27]) val @ [CHR 0x27, CHR 0x0A]
      | BDelete key \<Rightarrow> AppendEscapedStringTo (''  del '' @ [CHR 0x27]) key @ [CHR 0x27, CHR 0x0A])"

definition WriteBatchPrinter :: "u64 \<Rightarrow> string \<Rightarrow> string list" where
  "WriteBatchPrinter pos record' =
     (let r = AppendNumberTo ''--- offset '' pos @ ''; ''
      in if length record' < 12
         then [AppendNumberTo (r @ ''log record length '') (of_nat (length record')) @ '' is too small'' @ [CHR 0x0A]]
         else let batch = SetContents record';
                  (ops, s) = Iterate batch
              in [AppendNumberTo (r @ ''sequence '') (Sequence batch) @ [CHR 0x0A]] @ map WriteBatchItemPrinter ops @
                 (if \<not> Status_ok s then [''  error: '' @ Status_ToString s @ [CHR 0x0A]] else []))"

definition DumpLog :: "fs \<Rightarrow> string \<Rightarrow> Status \<times> string list" where
  "DumpLog w fname = PrintLogContents w fname WriteBatchPrinter"

definition VersionEditPrinter :: "u64 \<Rightarrow> string \<Rightarrow> string list" where
  "VersionEditPrinter pos record' =
     (let r = AppendNumberTo ''--- offset '' pos @ ''; '';
          (s, edit) = VersionEdit_DecodeFrom record'
      in [if \<not> Status_ok s then r @ Status_ToString s @ [CHR 0x0A] else r @ VersionEdit_DebugString edit])"

definition DumpDescriptor :: "fs \<Rightarrow> string \<Rightarrow> Status \<times> string list" where
  "DumpDescriptor w fname = PrintLogContents w fname VersionEditPrinter"

definition DumpFile :: "codecs \<Rightarrow> fs \<Rightarrow> string \<Rightarrow> Status \<times> string list" where
  "DumpFile cd w fname =
     (case GuessType fname of
        None \<Rightarrow> (InvalidArgument (fname @ '': unknown file type''), [])
      | Some ftype \<Rightarrow>
          if ftype = kLogFile then DumpLog w fname
          else if ftype = kDescriptorFile then DumpDescriptor w fname
          else if ftype = kTableFile then DumpTable cd w fname
          else (InvalidArgument (fname @ '': not a dump-able file type''), []))"

section \<open>Dumping what was built\<close>

lemma DumpTable_built:
  assumes "key_comparator cmp sep succ valid" "uses_comparator cmp sep succ opt" "codec_ok cd" "wf_data f = []" "wf_space f < 2 ^ 32"
    "1 \<le> opt_block_restart_interval opt" "sorted_keys cmp valid (map fst kvs)"
    "tb_Finish cd (tb_Adds cd kvs (TableBuilder_new opt f)) = (OK, tb)" and w: "files w fname = Some (wf_data (tb_file tb))"
  shows "DumpTable cd w fname = (OK, map dump_entry kvs)"
proof -
  obtain t it where t: "Table_Open cd Options_default (plain_file (wf_data (tb_file tb))) (length (wf_data (tb_file tb))) = Inr t"
     "iterate tl_Valid tl_kv (tl_Next (BlockReader cd t False)) (length kvs) (tl_SeekToFirst (BlockReader cd t False) (Table_NewIterator t)) = (kvs, it)"
     "\<not> tl_Valid it" "tl_status it = OK"
    using key_comparator.table_iterates [OF assms(1-8), of Options_default False] by (auto simp: Options_default_def)
  show ?thesis
    using scan_loop_iterate [OF t(2,3)] t(1,4) w
    by (simp add: DumpTable_def GetFileSize_def NewRandomAccessFile_def Let_def)
qed

end
