(* ===== verification/Db_Dumper.thy ===== *)
theory Db_Dumper
  imports Dumpfile
begin

text \<open>
  \<^verbatim>\<open>src/bloom_hierarchy/dbRecord.hpp\<close>, \<^verbatim>\<open>dbDumper.hpp\<close> and \<^verbatim>\<open>dbDumper.cpp\<close>: the records of an SSTable,
  recovered from the text that \<^verbatim>\<open>leveldb::DumpFile\<close> prints.  Positions are \<^verbatim>\<open>size_t\<close> values that
  wrap; \<^verbatim>\<open>substr\<close> may raise \<^verbatim>\<open>std::out_of_range\<close>, which leaves \<^verbatim>\<open>dumpSSTable\<close>, a \<^verbatim>\<open>noexcept\<close>
  function, by terminating the program: \<^term>\<open>None\<close>.
\<close>

section \<open>Records\<close>

record DBRecord =
  keyData :: string
  valData :: string

definition DBRecord_new :: "string \<Rightarrow> string \<Rightarrow> DBRecord" where
  "DBRecord_new keyString valString = \<lparr>keyData = keyString, valData = valString\<rparr>"

definition DBRecord_default :: DBRecord where
  "DBRecord_default = DBRecord_new ''key'' ''val''"

definition getKey :: "DBRecord \<Rightarrow> string" where
  "getKey r = keyData r"

definition getVal :: "DBRecord \<Rightarrow> string" where
  "getVal r = valData r"

definition getKeySize :: "DBRecord \<Rightarrow> nat" where
  "getKeySize r = length (getKey r)"

definition getValSize :: "DBRecord \<Rightarrow> nat" where
  "getValSize r = length (getVal r)"

definition getRecordSize :: "DBRecord \<Rightarrow> nat" where
  "getRecordSize r = getKeySize r + getValSize r"

definition DBRecord_copy :: "DBRecord \<Rightarrow> DBRecord" where
  "DBRecord_copy other = DBRecord_new (getKey other) (getVal other)"

definition DBRecord_less :: "DBRecord \<Rightarrow> DBRecord \<Rightarrow> bool" where
  "DBRecord_less a b \<longleftrightarrow> keyData a < getKey b"

definition DBRecord_le :: "DBRecord \<Rightarrow> DBRecord \<Rightarrow> bool" where
  "DBRecord_le a b \<longleftrightarrow> keyData a \<le> getKey b"

definition DBRecord_greater :: "DBRecord \<Rightarrow> DBRecord \<Rightarrow> bool" where
  "DBRecord_greater a b \<longleftrightarrow> keyData a > getKey b"

definition DBRecord_ge :: "DBRecord \<Rightarrow> DBRecord \<Rightarrow> bool" where
  "DBRecord_ge a b \<longleftrightarrow> keyData a < getKey b"

definition DBRecord_eq :: "DBRecord \<Rightarrow> DBRecord \<Rightarrow> bool" where
  "DBRecord_eq a b \<longleftrightarrow> keyData a < getKey b"

section \<open>The buffer\<close>

definition fileFormatStr :: string where
  "fileFormatStr = ''.ldb''"

definition quote :: char where
  "quote = CHR 0x27"

text \<open>
  From \<open>line\<close> and a position, the string up to the next quote and the position of its last
  character: \<^verbatim>\<open>find_first_of\<close> on the rest of the line, and \<^verbatim>\<open>substr\<close>.
\<close>

definition quoted :: "string \<Rightarrow> size_t \<Rightarrow> (string \<times> size_t) option" where
  "quoted line firstPos =
     (case substr line firstPos npos of
        None \<Rightarrow> None
      | Some rest' \<Rightarrow>
          let lastPos = find_first_of rest' quote - 1 + firstPos
          in map_option (\<lambda>s. (s, lastPos)) (substr line firstPos (lastPos - firstPos + 1)))"

definition parse_line :: "string \<Rightarrow> (string \<times> string) option" where
  "parse_line line =
     (let keyFirstPos = find_first_of line quote + 1
      in case quoted line keyFirstPos of
           None \<Rightarrow> None
         | Some (key, keyLastPos) \<Rightarrow>
             (case substr line (keyLastPos + 2) npos of
                None \<Rightarrow> None
              | Some rest' \<Rightarrow>
                  let valFirstPos = find_first_of rest' quote + 1 + keyLastPos + 2
                  in map_option (\<lambda>(val, _). (key, val)) (quoted line valFirstPos)))"

definition dump_Append :: "string \<Rightarrow> DBRecord list \<Rightarrow> DBRecord list option" where
  "dump_Append data fileRecords =
     map_option (\<lambda>(key, val). fileRecords @ [DBRecord_new key val]) (parse_line data)"

definition dump_Close :: Status where
  "dump_Close = OK"

definition dump_Flush :: Status where
  "dump_Flush = OK"

definition dump_Sync :: Status where
  "dump_Sync = OK"

definition getRecords :: "DBRecord list \<Rightarrow> DBRecord list" where
  "getRecords fileRecords = fileRecords"

fun dump_Appends :: "string list \<Rightarrow> DBRecord list \<Rightarrow> DBRecord list option" where
  "dump_Appends [] rs = Some rs"
| "dump_Appends (x # xs) rs = (case dump_Append x rs of None \<Rightarrow> None | Some rs' \<Rightarrow> dump_Appends xs rs')"

text \<open>The records, and what is written to \<^verbatim>\<open>std::cerr\<close>.\<close>

definition dumpSSTable :: "codecs \<Rightarrow> fs \<Rightarrow> string \<Rightarrow> (DBRecord list \<times> string) option" where
  "dumpSSTable cd w ssTablePath =
     (let (status, lines') = DumpFile cd w ssTablePath
      in case dump_Appends lines' [] of
           None \<Rightarrow> None
         | Some buffer' \<Rightarrow>
             Some (if \<not> Status_ok status
                   then ([], ''Cannot dump ssTable: '' @ ssTablePath @ '' status: '' @ Status_ToString status @ [CHR 0x0A])
                   else (getRecords buffer', [])))"

section \<open>Parsing a printed line\<close>

lemma unat_of_nat_size: "n < 2 ^ 64 \<Longrightarrow> unat (of_nat n :: size_t) = n"
  by (rule unat_of_nat_u64)

lemma substr_rest: "n \<le> length s \<Longrightarrow> length s < 2 ^ 64 \<Longrightarrow> substr s (of_nat n) npos = Some (drop n s)"
  using unat_of_nat_size [of n] by (simp add: substr_def npos_def unsigned_minus_1_eq_mask mask_eq_exp_minus_1)

lemma quoted_at:
  assumes l: "line = a @ s @ quote # b" "quote \<notin> set s" "length line < 2 ^ 63"
  shows "quoted line (of_nat (length a)) = Some (s, of_nat (length (a @ s)) - 1)"
proof -
  have r: "substr line (of_nat (length a)) npos = Some (s @ quote # b)" using substr_rest [of "length a" line] l by simp
  have f: "find_first_of (s @ quote # b) quote = of_nat (length s)" using l(2) by (simp add: find_first_of_def find_index_append_notin)
  have n: "unat (of_nat (length s) :: size_t) = length s" "unat (of_nat (length a) :: size_t) = length a"
    using l(1,3) by (simp_all add: unat_of_nat_size)
  have "(of_nat (length s) :: size_t) - 1 + of_nat (length a) - of_nat (length a) + 1 = of_nat (length s)" by simp
  then show ?thesis using r f n l(1) by (simp add: quoted_def Let_def substr_def algebra_simps)
qed

lemma parse_line_quoted:
  assumes l: "line = a @ quote # k @ quote # m @ quote # v @ quote # b"
    and q: "quote \<notin> set a" "quote \<notin> set k" "quote \<notin> set m" "quote \<notin> set v" and n: "length line < 2 ^ 63"
  shows "parse_line line = Some (k, v)"
proof -
  have 1: "find_first_of line quote + 1 = of_nat (length (a @ [quote]))"
    using q(1) by (simp add: l find_first_of_def find_index_append_notin)
  have 2: "quoted line (of_nat (length (a @ [quote]))) = Some (k, of_nat (length (a @ [quote] @ k)) - 1)"
    using quoted_at [of line "a @ [quote]" k] l q(2) n by simp
  have 3: "substr line (of_nat (length (a @ [quote] @ k)) - 1 + 2) npos = Some (m @ quote # v @ quote # b)"
    using substr_rest [of "length (a @ quote # k @ [quote])" line] l n by (simp add: algebra_simps)
  have 4: "find_first_of (m @ quote # v @ quote # b) quote + 1 + (of_nat (length (a @ [quote] @ k)) - 1) + 2 =
      of_nat (length (a @ quote # k @ quote # m @ [quote]))"
    using q(3) by (simp add: find_first_of_def find_index_append_notin algebra_simps)
  have 5: "quoted line (of_nat (length (a @ quote # k @ quote # m @ [quote]))) =
      Some (v, of_nat (length ((a @ quote # k @ quote # m @ [quote]) @ v)) - 1)"
    by (rule quoted_at [where b = b]) (use l q(4) n in simp_all)
  show ?thesis unfolding parse_line_def Let_def 1 2 option.case prod.case 3 4 5 by simp
qed

lemma AppendEscapedStringTo_escape: "AppendEscapedStringTo r s = r @ EscapeString s"
  by (simp add: AppendEscapedStringTo_def EscapeString_def)

lemma digits_no_quote: "quote \<notin> set (nat_to_string n)"
  using nat_to_string_digits [of n] by (auto simp: list_all_iff quote_def is_digit_char_def)

text \<open>A pair of an internal key and a value, and the record that comes out of the printed line.\<close>

definition plain_pair :: "string \<times> string \<Rightarrow> bool" where
  "plain_pair kv \<longleftrightarrow>
     (\<exists>p. ParseInternalKey (fst kv) = Some p \<and> quote \<notin> set (user_key p)) \<and> quote \<notin> set (snd kv) \<and>
     length (dump_entry kv) < 2 ^ 63"

definition dumped_record :: "string \<times> string \<Rightarrow> DBRecord" where
  "dumped_record kv =
     DBRecord_new (case ParseInternalKey (fst kv) of None \<Rightarrow> [] | Some p \<Rightarrow> EscapeString (user_key p)) (EscapeString (snd kv))"

lemma dump_Append_entry:
  assumes "plain_pair kv"
  shows "dump_Append (dump_entry kv) rs = Some (rs @ [dumped_record kv])"
proof -
  obtain p where p: "ParseInternalKey (fst kv) = Some p" "quote \<notin> set (user_key p)" using assms by (auto simp: plain_pair_def)
  let ?m = "'' @ '' @ nat_to_string (unat (sequence p)) @ '' : '' @ (case vtype p of kTypeDeletion \<Rightarrow> ''del'' | kTypeValue \<Rightarrow> ''val'') @ '' => ''"
  have l: "dump_entry kv = [] @ quote # EscapeString (user_key p) @ quote # ?m @ quote # EscapeString (snd kv) @ quote # [CHR 0x0A]"
    by (simp add: dump_entry_def p Let_def AppendEscapedStringTo_escape AppendNumberTo_def quote_def)
  have q: "quote \<notin> set (EscapeString (user_key p))" "quote \<notin> set ?m" "quote \<notin> set (EscapeString (snd kv))"
    using p assms EscapeString_no_quote digits_no_quote by (auto simp: plain_pair_def quote_def split: ValueType.splits)
  have "parse_line (dump_entry kv) = Some (EscapeString (user_key p), EscapeString (snd kv))"
    by (rule parse_line_quoted [OF l]) (use q assms in \<open>simp_all add: plain_pair_def\<close>)
  then show ?thesis by (simp add: dump_Append_def dumped_record_def p)
qed

lemma dump_Appends_entries:
  "list_all plain_pair kvs \<Longrightarrow> dump_Appends (map dump_entry kvs) rs = Some (rs @ map dumped_record kvs)"
  by (induction kvs arbitrary: rs) (simp_all add: dump_Append_entry)

lemma dumpSSTable_built:
  assumes "key_comparator cmp sep succ valid" "uses_comparator cmp sep succ opt" "codec_ok cd" "wf_data f = []" "wf_space f < 2 ^ 32"
    "1 \<le> opt_block_restart_interval opt" "sorted_keys cmp valid (map fst kvs)"
    "tb_Finish cd (tb_Adds cd kvs (TableBuilder_new opt f)) = (OK, tb)"
    "files w (TableFileName dbname n) = Some (wf_data (tb_file tb))" "list_all plain_pair kvs"
  shows "dumpSSTable cd w (TableFileName dbname n) = Some (map dumped_record kvs, [])"
proof -
  have "DumpFile cd w (TableFileName dbname n) = (OK, map dump_entry kvs)"
    using DumpTable_built [OF assms(1-9)] by (simp add: DumpFile_def)
  then show ?thesis using dump_Appends_entries [OF assms(10), of "[]"] by (simp add: dumpSSTable_def getRecords_def)
qed

text \<open>The records of the example table.\<close>

lemma example_plain: "list_all plain_pair example_kvs"
proof -
  have p: "ParseInternalKey (example_key c) = Some \<lparr>user_key = [c], sequence = 7, vtype = kTypeValue\<rparr>" for c
    by (simp add: example_key_def ParseInternalKey_Append kMaxSequenceNumber_def)
  have "length (dump_entry (example_key CHR ''a'', ''1'')) < 100" "length (dump_entry (example_key CHR ''b'', ''2'')) < 100" by code_simp+
  then show ?thesis by (simp add: plain_pair_def example_kvs_def p quote_def)
qed

lemmas example_dump = dumpSSTable_built [OF bytewise.key_comparator_axioms example_hyps(1) example_codec_ok example_hyps(2-5) example_Finish _ example_plain]

section \<open>Properties\<close>

text \<open>
  C13: dumping an SSTable file gives back one record per entry of the table, in key order, with the user key and the value as
  the dump escapes them, for every table that was built from sorted entries with any comparator, block size, compression and
  filter, as long as no key and no value contains a quote; keys and values of printable characters come back unchanged.
\<close>

theorem dump_sstable_records:
  assumes "key_comparator cmp sep succ valid" "uses_comparator cmp sep succ opt" "codec_ok cd" "wf_data f = []" "wf_space f < 2 ^ 32"
    "1 \<le> opt_block_restart_interval opt" "sorted_keys cmp valid (map fst kvs)"
    "tb_Finish cd (tb_Adds cd kvs (TableBuilder_new opt f)) = (OK, tb)"
    "files w (TableFileName dbname n) = Some (wf_data (tb_file tb))" "list_all plain_pair kvs"
  shows "dumpSSTable cd w (TableFileName dbname n) = Some (map dumped_record kvs, []) \<and>
    (\<forall>k q v. list_all printable k \<and> list_all printable v \<and> (q :: SequenceNumber) \<le> kMaxSequenceNumber \<longrightarrow>
       dumped_record (AppendInternalKey [] \<lparr>user_key = k, sequence = q, vtype = kTypeValue\<rparr>, v) = DBRecord_new k v)"
  using dumpSSTable_built [OF assms] by (simp add: dumped_record_def ParseInternalKey_Append EscapeString_printable)

text \<open>A file system that holds the table of the example.\<close>

definition example_fs :: fs where
  "example_fs = \<lparr>files = [TableFileName ''db'' 5 \<mapsto> wf_data (tb_file example_table)], writable = (\<lambda>_. False)\<rparr>"

theorem dump_sstable_records_witness:
  "dumpSSTable no_codecs example_fs (TableFileName ''db'' 5) = Some (map dumped_record example_kvs, [])"
  using dump_sstable_records [OF bytewise.key_comparator_axioms example_hyps(1) example_codec_ok example_hyps(2-5) example_Finish _ example_plain,
    of example_fs "''db''" 5]
  by (simp add: example_fs_def)

end
