(* ===== verification/Db_Operation.thy ===== *)
theory Db_Operation
  imports Bloom_Tree Db_Dumper
begin

text \<open>
  \<^verbatim>\<open>src/bloom_hierarchy/dbOperation.cpp\<close>: creating the filters of a database directory, building the
  hierarchy and searching for a value.  What the code takes from outside is a parameter
  \<open>app_env\<close>: \<^verbatim>\<open>std::hash\<close>, the compression libraries, \<^verbatim>\<open>readdir\<close>, the clock, random numbers, the
  number of processors, and the database engine behind \<^verbatim>\<open>leveldb::DB\<close> (opening a database,
  putting records and closing it changes the file system).  The state holds the file system,
  the contents of the log stream and of \<^verbatim>\<open>std::cout\<close>, and how many clock readings and random
  numbers were taken.  \<^verbatim>\<open>std::cerr\<close> is not modelled.
\<close>

section \<open>Outcomes\<close>

datatype failure = Exception load_error | Terminated | Tree_failure tree_error | Assertion_failed | Exited int

datatype 'a outcome = Returns 'a | Fails failure | Diverges

definition and_then :: "'a outcome \<Rightarrow> ('a \<Rightarrow> 'b outcome) \<Rightarrow> 'b outcome" where
  "and_then x f = (case x of Returns a \<Rightarrow> f a | Fails e \<Rightarrow> Fails e | Diverges \<Rightarrow> Diverges)"

lemma and_then_simps [simp]:
  "and_then (Returns a) f = f a" "and_then (Fails e) f = Fails e" "and_then Diverges f = Diverges"
  by (simp_all add: and_then_def)

lemma and_then_Returns: "and_then x f = Returns b \<longleftrightarrow> (\<exists>a. x = Returns a \<and> f a = Returns b)"
  by (cases x) simp_all

section \<open>Environment and state\<close>

record app_env =
  e_hash :: str_hash
  e_codecs :: codecs
  e_ls :: "fs \<Rightarrow> string \<Rightarrow> string list option"
  e_clock :: "nat \<Rightarrow> int"
  e_random :: "int \<Rightarrow> int \<Rightarrow> nat \<Rightarrow> int"
  e_concurrency :: int
  e_put_all :: "string \<Rightarrow> (string \<times> string) list \<Rightarrow> fs \<Rightarrow> Status \<times> fs"
  e_get :: "string \<Rightarrow> string \<Rightarrow> fs \<Rightarrow> Status \<times> string \<times> fs"
  e_property :: "string \<Rightarrow> string \<Rightarrow> fs \<Rightarrow> Status \<times> string \<times> fs"

record app =
  a_fs :: fs
  a_log :: string
  a_cout :: string
  a_ticks :: nat
  a_draws :: nat

record TestParams =
  tp_dbName :: string
  tp_numRecords :: int
  tp_bloomTreeRatio :: int
  tp_numberOfAttempts :: int
  tp_bloomSize :: nat
  tp_numHashFunctions :: int

record Result =
  dbCreationTime :: int
  itemNumber :: int
  hierarchyFilterNumber :: int
  foundInLeafBloomNoHierarchy :: int
  foundInSSTableNoHierarchy :: int
  foundInLeafBloomWithHierarchy :: int
  foundInSSTableWithHierarchy :: int
  foundInLeafBloom :: int
  foundInSSTable :: int
  tScanningWithoutBloom :: int
  tScanningWithBloom :: int
  tCreatingLeafLevel :: int
  tCreatingHierarchy :: int
  tCreatingBloomExternally :: int
  tCheckingInHierarchy :: int
  accessedBloomFilter :: int
  percentage :: int

definition now :: "app_env \<Rightarrow> app \<Rightarrow> int \<times> app" where
  "now e s = (e_clock e (a_ticks s), s\<lparr>a_ticks := Suc (a_ticks s)\<rparr>)"

definition msec_diff :: "int \<Rightarrow> int \<Rightarrow> int" where
  "msec_diff before after = c_div (after - before) 1000000"

text \<open>The narrowing of a \<^verbatim>\<open>long\<close> to an \<^verbatim>\<open>int\<close>.\<close>

definition int32 :: "int \<Rightarrow> int" where
  "int32 i = signed_take_bit 31 i"

definition log_str :: "string \<Rightarrow> app \<Rightarrow> app" where
  "log_str x s = s\<lparr>a_log := a_log s @ x\<rparr>"

definition cout_str :: "string \<Rightarrow> app \<Rightarrow> app" where
  "cout_str x s = s\<lparr>a_cout := a_cout s @ x\<rparr>"

definition tab :: string where "tab = [CHR 0x09]"

definition nl :: string where "nl = [CHR 0x0A]"

section \<open>Names\<close>

definition letters :: string where
  "letters = ''ABCDEFGHIJKLMNOPQRSTUVWXYZ''"

definition outDir :: string where "outDir = ''../out/''"

definition bloomExt :: string where "bloomExt = ''.bloom''"

definition dataExt :: string where "dataExt = ''.ldb''"

definition dbDir :: string where "dbDir = ''./db/''"

text \<open>\<open>rand i\<close> is the \<open>i\<close>-th result of \<^verbatim>\<open>rand()\<close>.\<close>

definition randomString :: "(nat \<Rightarrow> nat) \<Rightarrow> int \<Rightarrow> string" where
  "randomString rand len = map (\<lambda>i. letters ! (rand i mod length letters)) [0..<nat len]"

definition listFilesWithExtension :: "app_env \<Rightarrow> fs \<Rightarrow> string \<Rightarrow> string \<Rightarrow> string list" where
  "listFilesWithExtension e w directory extension =
     (case e_ls e w directory of
        Some names \<Rightarrow> map (\<lambda>n. directory @ ''/'' @ n) (filter (\<lambda>n. ends_with n extension) names)
      | None \<Rightarrow> [])"

definition transformFileName :: "string \<Rightarrow> string \<Rightarrow> string \<Rightarrow> string" where
  "transformFileName fname from to =
     (case substr fname 0 (of_nat (length fname) - of_nat (length from)) of Some s \<Rightarrow> s @ to | None \<Rightarrow> to)"

definition db_directory :: "string \<Rightarrow> string" where
  "db_directory dbname = outDir @ dbDir @ dbname"

section \<open>Creating and querying a database\<close>

definition created_records :: "app_env \<Rightarrow> int \<Rightarrow> int \<Rightarrow> nat \<Rightarrow> (string \<times> string) list" where
  "created_records e item_number percentageRandom draws =
     (let num = 1; min' = 1; p = c_div item_number 100; max' = p * percentageRandom
      in if percentageRandom = 0
         then map (\<lambda>i. (''Key'' @ to_string i, ''Value'' @ to_string i)) [num..item_number - 1]
         else map (\<lambda>i. (''Key'' @ to_string i, ''Value'' @ to_string (e_random e min' max' (draws + nat (i - num)))))
                [num..item_number - 1])"

definition DbCreation :: "app_env \<Rightarrow> string \<Rightarrow> int \<Rightarrow> int \<Rightarrow> Result \<Rightarrow> app \<Rightarrow> (Result \<times> app) outcome" where
  "DbCreation e dbname item_number percentageRandom res s =
     (let (before, s1) = now e s;
          (status, w) = e_put_all e (dbDir @ dbname) (created_records e item_number percentageRandom (a_draws s1)) (a_fs s1)
      in if \<not> Status_ok status then Fails Assertion_failed
         else
           let s2 = s1\<lparr>a_fs := w, a_draws := a_draws s1 + (if percentageRandom = 0 then 0 else nat (item_number - 1))\<rparr>;
               (after, s3) = now e s2;
               diff = msec_diff before after;
               s4 = log_str (to_string diff @ tab) (cout_str (''DB Creation time (ms)'' @ to_string diff @ nl) s3)
           in Returns (res\<lparr>dbCreationTime := int32 diff\<rparr>, s4))"

definition RetrieveData :: "app_env \<Rightarrow> string \<Rightarrow> string \<Rightarrow> app \<Rightarrow> app outcome" where
  "RetrieveData e dbname key s =
     (let (status, document, w) = e_get e (dbDir @ dbname) key (a_fs s)
      in if \<not> Status_ok status then Fails Assertion_failed
         else
           let (before, s1) = now e (s\<lparr>a_fs := w\<rparr>);
               (after, s2) = now e s1
           in Returns (cout_str (document @ ''Time duration (micro seconds)'' @ to_string (c_div (after - before) 1000) @ nl) s2))"

definition Statistics :: "app_env \<Rightarrow> string \<Rightarrow> app \<Rightarrow> app outcome" where
  "Statistics e dbname s =
     (let (status, propertyValue, w) = e_property e (dbDir @ dbname) ''leveldb.sstables'' (a_fs s)
      in if \<not> Status_ok status then Fails Assertion_failed else Returns (cout_str propertyValue (s\<lparr>a_fs := w\<rparr>)))"

section \<open>Scanning\<close>

definition RetrieveFromSStable :: "app_env \<Rightarrow> fs \<Rightarrow> string \<Rightarrow> string \<Rightarrow> int option" where
  "RetrieveFromSStable e w fname valueToFind =
     (case dumpSSTable (e_codecs e) w fname of
        None \<Rightarrow> None
      | Some (ssTableRecords, err) \<Rightarrow>
          Some (fold (\<lambda>r foundValues. if valData r = valueToFind then foundValues + 1 else foundValues) ssTableRecords 0))"

fun scan_data_files :: "app_env \<Rightarrow> fs \<Rightarrow> string \<Rightarrow> string list \<Rightarrow> int \<Rightarrow> int outcome" where
  "scan_data_files e w v [] found = Returns found"
| "scan_data_files e w v (f # fs) found =
     (case RetrieveFromSStable e w f v of
        None \<Rightarrow> Fails Terminated
      | Some n \<Rightarrow> scan_data_files e w v fs (found + n))"

definition ScanningWithoutBloom :: "app_env \<Rightarrow> string \<Rightarrow> string \<Rightarrow> Result \<Rightarrow> app \<Rightarrow> (Result \<times> app) outcome" where
  "ScanningWithoutBloom e dbname valuetofind res s =
     (let (before, s1) = now e s;
          files' = listFilesWithExtension e (a_fs s1) (db_directory dbname) dataExt
      in and_then (scan_data_files e (a_fs s1) valuetofind files' 0) (\<lambda>found.
           let (after, s2) = now e s1;
               diff = msec_diff before after;
               s3 = cout_str (''Scanning without bloom (ms)'' @ to_string diff @ nl) (log_str (to_string diff @ tab) s2)
           in Returns (res\<lparr>tScanningWithoutBloom := int32 diff\<rparr>, s3)))"

fun scan_bloom_files :: "app_env \<Rightarrow> fs \<Rightarrow> string \<Rightarrow> string list \<Rightarrow> int \<Rightarrow> int \<Rightarrow> (int \<times> int) outcome" where
  "scan_bloom_files e w v [] leaf sst = Returns (leaf, sst)"
| "scan_bloom_files e w v (f # fs) leaf sst =
     (case loadFromFile w f of
        Inl err \<Rightarrow> Fails (Exception err)
      | Inr flt \<Rightarrow>
          if bv_exists (e_hash e) flt v then
            (case RetrieveFromSStable e w (transformFileName f bloomExt dataExt) v of
               None \<Rightarrow> Fails Terminated
             | Some n \<Rightarrow> scan_bloom_files e w v fs (leaf + 1) (sst + n))
          else scan_bloom_files e w v fs leaf sst)"

definition ScanningInBloomFiles :: "app_env \<Rightarrow> string list \<Rightarrow> string \<Rightarrow> Result \<Rightarrow> app \<Rightarrow> (Result \<times> app) outcome" where
  "ScanningInBloomFiles e bloomfiles valuetofind res s =
     and_then (scan_bloom_files e (a_fs s) valuetofind bloomfiles 0 0) (\<lambda>(leaf, sst).
       Returns (res\<lparr>foundInLeafBloom := leaf, foundInSSTable := sst\<rparr>,
                log_str (to_string sst @ tab) (log_str (to_string leaf @ tab) s)))"

definition ScanningInBloomFilesMultiplyValue :: "app_env \<Rightarrow> string list \<Rightarrow> string \<Rightarrow> fs \<Rightarrow> unit outcome" where
  "ScanningInBloomFilesMultiplyValue e bloomfiles valuetofind w =
     and_then (scan_bloom_files e w valuetofind bloomfiles 0 0) (\<lambda>_. Returns ())"

definition ScanningWithBloom :: "app_env \<Rightarrow> string \<Rightarrow> string \<Rightarrow> Result \<Rightarrow> app \<Rightarrow> (Result \<times> app) outcome" where
  "ScanningWithBloom e dbname valuetofind res s =
     (let (before, s1) = now e s;
          files' = listFilesWithExtension e (a_fs s1) (db_directory dbname) bloomExt
      in and_then (ScanningInBloomFiles e files' valuetofind res s1) (\<lambda>(res1, s2).
           let (after, s3) = now e s2;
               diff = msec_diff before after;
               s4 = cout_str (''Scanning with bloom  (ms)'' @ to_string diff @ nl) (log_str (to_string diff @ tab) s3)
           in Returns (res1\<lparr>tScanningWithBloom := int32 diff\<rparr>, s4)))"

section \<open>The hierarchy\<close>

definition CreateHierarchy :: "app_env \<Rightarrow> string \<Rightarrow> bloomTree \<Rightarrow> Result \<Rightarrow> app \<Rightarrow> (bloomTree \<times> Result \<times> app) outcome" where
  "CreateHierarchy e dbname t res s =
     (let (before, s1) = now e s
      in case createTree t of
           None \<Rightarrow> Diverges
         | Some (Inl err) \<Rightarrow> Fails (Tree_failure err)
         | Some (Inr t1) \<Rightarrow>
             let (after, s2) = now e s1;
                 diff = msec_diff before after;
                 s3 = cout_str (''Creating hierarchy  (ms)'' @ to_string diff @ nl) (log_str (to_string diff @ tab) s2)
             in Returns (t1, res\<lparr>tCreatingHierarchy := int32 diff\<rparr>, s3))"

fun add_leaves :: "fs \<Rightarrow> string list \<Rightarrow> bloomTree \<Rightarrow> bloomTree outcome" where
  "add_leaves w [] t = Returns t"
| "add_leaves w (f # fs) t =
     (case loadFromFile w f of
        Inl err \<Rightarrow> Fails (Exception err)
      | Inr flt \<Rightarrow> add_leaves w fs (createLeafLevel flt f t))"

definition CreateLeafHierarchyLevel ::
  "app_env \<Rightarrow> string \<Rightarrow> bloomTree \<Rightarrow> Result \<Rightarrow> app \<Rightarrow> (bloomTree \<times> Result \<times> app) outcome" where
  "CreateLeafHierarchyLevel e dbname t res s =
     (let (before, s1) = now e s;
          files' = listFilesWithExtension e (a_fs s1) (db_directory dbname) bloomExt
      in and_then (add_leaves (a_fs s1) files' t) (\<lambda>t1.
           let (after, s2) = now e s1;
               diff = msec_diff before after;
               s3 = cout_str (''Creating leaf level  (ms)'' @ to_string diff @ nl) (log_str (to_string diff @ tab) s2)
           in Returns (t1, res\<lparr>tCreatingLeafLevel := int32 diff\<rparr>, s3)))"

definition CheckInHierarchy :: "app_env \<Rightarrow> bloomTree \<Rightarrow> string \<Rightarrow> Result \<Rightarrow> app \<Rightarrow> (bloomTree \<times> Result \<times> app) outcome" where
  "CheckInHierarchy e t valuetofind res s =
     (let (before, s1) = now e s
      in case checkExistance (e_hash e) valuetofind t of
           Inl err \<Rightarrow> Fails (Tree_failure err)
         | Inr (bloomFiles, t1) \<Rightarrow>
             and_then (if bloomFiles = [] then Returns (res, cout_str (''Value not found in bloom'' @ nl) s1)
                       else ScanningInBloomFiles e bloomFiles valuetofind res s1) (\<lambda>(res1, s2).
               let c = GetScannedHierarchyFilters t1;
                   s3 = log_str (to_string c @ tab) s2;
                   (after, s4) = now e s3;
                   diff = msec_diff before after;
                   s5 = cout_str (''Checking in hierarchy  (ms)'' @ to_string diff @ nl) (log_str (to_string diff @ tab) s4);
                   s6 = log_str (to_string (int (length bloomFiles)) @ nl) s5
               in Returns (t1, res1\<lparr>tCheckingInHierarchy := int32 diff, hierarchyFilterNumber := c,
                                 accessedBloomFilter := int32 (int (length bloomFiles))\<rparr>, s6)))"

fun create_filters :: "app_env \<Rightarrow> string list \<Rightarrow> fs \<Rightarrow> fs outcome" where
  "create_filters e [] w = Returns w"
| "create_filters e (f # fs) w =
     (let bloom_file = transformFileName f dataExt bloomExt;
          w1 = createFile bloom_file w
      in case dumpSSTable (e_codecs e) w1 f of
           None \<Rightarrow> Fails Terminated
         | Some (ssTableRecords, err) \<Rightarrow>
             let flt = fold (\<lambda>r flt. bv_insert (e_hash e) (valData r) flt) ssTableRecords bloom_value_new
             in create_filters e fs (saveToFile flt bloom_file w1))"

definition CreateBloomValue :: "app_env \<Rightarrow> string \<Rightarrow> Result \<Rightarrow> app \<Rightarrow> (Result \<times> app) outcome" where
  "CreateBloomValue e dbname res s =
     (let (before, s1) = now e s;
          files' = listFilesWithExtension e (a_fs s1) (db_directory dbname) dataExt
      in and_then (create_filters e files' (a_fs s1)) (\<lambda>w.
           let (after, s2) = now e (s1\<lparr>a_fs := w\<rparr>);
               diff = msec_diff before after;
               s3 = cout_str (''Creating bloom externally  (ms)'' @ to_string diff @ nl) (log_str (to_string diff @ tab) s2)
           in Returns (res\<lparr>tCreatingBloomExternally := int32 diff\<rparr>, s3)))"

section \<open>Many values, in threads\<close>

definition CreateMultiplyValue :: "app_env \<Rightarrow> int \<Rightarrow> int \<Rightarrow> app \<Rightarrow> string list \<times> app" where
  "CreateMultiplyValue e itemNmb data_size s =
     (map (\<lambda>i. ''Value'' @ to_string (e_random e 1 itemNmb (a_draws s + i))) [0..<nat data_size],
      s\<lparr>a_draws := a_draws s + nat data_size\<rparr>)"

text \<open>
  The function that is submitted to the pool.  It only reads files; what it prints is
  interleaved with the other tasks and not modelled.
\<close>

fun f1_loop :: "app_env \<Rightarrow> fs \<Rightarrow> bloomTree \<Rightarrow> string list \<Rightarrow> unit outcome" where
  "f1_loop e w t [] = Returns ()"
| "f1_loop e w t (v # vs) =
     (case checkExistanceThread (e_hash e) v t of
        Inl err \<Rightarrow> Fails (Tree_failure err)
      | Inr bloomFiles \<Rightarrow>
          and_then (if bloomFiles = [] then Returns () else ScanningInBloomFilesMultiplyValue e bloomFiles v w)
            (\<lambda>_. f1_loop e w t vs))"

definition f1 :: "app_env \<Rightarrow> fs \<Rightarrow> string list \<Rightarrow> nat \<Rightarrow> nat \<Rightarrow> bloomTree \<Rightarrow> unit outcome" where
  "f1 e w data start end' t = f1_loop e w t (drop start (take end' data))"

definition chunks :: "nat \<Rightarrow> nat \<Rightarrow> (nat \<times> nat) list" where
  "chunks threadNmb data_size =
     (let chunk_size = data_size div threadNmb
      in map (\<lambda>i. let start = i * chunk_size
                  in (start, if i = threadNmb - 1 then data_size else start + chunk_size)) [0..<threadNmb])"

text \<open>
  \<^verbatim>\<open>submit\<close> stores an exception of a task in its promise; \<^verbatim>\<open>wait\<close> does not rethrow it, so that it
  is lost.  Every other failure ends the program.
\<close>

fun waited :: "unit outcome \<Rightarrow> unit outcome" where
  "waited (Fails (Exception err)) = Returns ()"
| "waited x = x"

definition CheckInHierarchyMultiplyValueForOneThread ::
  "app_env \<Rightarrow> bloomTree \<Rightarrow> nat \<Rightarrow> string list \<Rightarrow> app \<Rightarrow> app outcome" where
  "CheckInHierarchyMultiplyValueForOneThread e t threadNmb valuesToFind s =
     (let s1 = cout_str (''Number of threads: '' @ nat_to_string threadNmb @ nl) s;
          (before, s2) = now e s1;
          tasks = map (\<lambda>(start, end'). waited (f1 e (a_fs s2) valuesToFind start end' t)) (chunks threadNmb (length valuesToFind))
      in and_then (fold (\<lambda>task r. and_then r (\<lambda>_. task)) tasks (Returns ())) (\<lambda>_.
           let (after, s3) = now e s2;
               diff = msec_diff before after;
               s4 = log_str (to_string diff @ nl) (log_str (nat_to_string threadNmb @ tab) s3)
           in Returns (cout_str (''Checking in hierarchy  (ms)'' @ to_string diff @ nl) s4)))"

definition CheckInHierarchyMultiplyValueForThreads ::
  "app_env \<Rightarrow> bloomTree \<Rightarrow> int \<Rightarrow> int \<Rightarrow> app \<Rightarrow> app outcome" where
  "CheckInHierarchyMultiplyValueForThreads e t itemNmb data_size s =
     (let (valuesToFind, s1) = CreateMultiplyValue e itemNmb data_size s;
          s2 = log_str (''Multivalue for threads'' @ nl) s1
      in fold (\<lambda>n r. and_then r (\<lambda>s'. if int n \<le> e_concurrency e
                then CheckInHierarchyMultiplyValueForOneThread e t n valuesToFind s' else Returns s'))
           [1, 2, 4, 8, 16, 32] (Returns s2))"

section \<open>Counting\<close>

text \<open>How many records of a file have the value; the specification of a search.\<close>

definition file_records :: "app_env \<Rightarrow> fs \<Rightarrow> string \<Rightarrow> DBRecord list" where
  "file_records e w f = (case dumpSSTable (e_codecs e) w f of None \<Rightarrow> [] | Some (rs, err) \<Rightarrow> rs)"

definition occurrences :: "app_env \<Rightarrow> fs \<Rightarrow> string \<Rightarrow> string \<Rightarrow> nat" where
  "occurrences e w v f = count_list (map valData (file_records e w f)) v"

definition dumpable :: "app_env \<Rightarrow> fs \<Rightarrow> string \<Rightarrow> bool" where
  "dumpable e w f \<longleftrightarrow> dumpSSTable (e_codecs e) w f \<noteq> None"

lemma fold_count: "fold (\<lambda>r n. if valData r = v then n + 1 else n) rs (k :: int) = k + int (count_list (map valData rs) v)"
  by (induction rs arbitrary: k) auto

lemma RetrieveFromSStable_occurrences:
  "dumpable e w f \<Longrightarrow> RetrieveFromSStable e w f v = Some (int (occurrences e w v f))"
  by (auto simp: RetrieveFromSStable_def dumpable_def occurrences_def file_records_def fold_count)

lemma scan_data_files_total:
  "\<forall>f \<in> set fs. dumpable e w f \<Longrightarrow> scan_data_files e w v fs k = Returns (k + int (\<Sum>f\<leftarrow>fs. occurrences e w v f))"
  by (induction fs arbitrary: k) (auto simp: RetrieveFromSStable_occurrences)

text \<open>A dump depends only on the contents of its file.\<close>

lemma dump_cong:
  assumes "files w f = files w' f"
  shows "dumpSSTable cd w f = dumpSSTable cd w' f"
proof -
  have "DumpFile cd w f = DumpFile cd w' f"
    unfolding DumpFile_def DumpLog_def DumpDescriptor_def DumpTable_def PrintLogContents_def
      NewSequentialFile_def NewRandomAccessFile_def GetFileSize_def assms by (rule refl)
  then show ?thesis by (simp only: dumpSSTable_def)
qed

lemma occurrences_cong: "files w f = files w' f \<Longrightarrow> occurrences e w v f = occurrences e w' v f"
  using dump_cong [of w f w'] by (simp add: occurrences_def file_records_def)

lemma dumpable_cong: "files w f = files w' f \<Longrightarrow> dumpable e w f = dumpable e w' f"
  using dump_cong [of w f w'] by (simp add: dumpable_def)

section \<open>Filters that cover their data files\<close>

definition data_of :: "string \<Rightarrow> string" where
  "data_of b = transformFileName b bloomExt dataExt"

definition covers :: "app_env \<Rightarrow> fs \<Rightarrow> string \<Rightarrow> bool" where
  "covers e w b \<longleftrightarrow>
     (\<exists>bv. loadFromFile w b = Inr bv \<and> bv_ok bv \<and> (\<forall>v. 0 < occurrences e w v (data_of b) \<longrightarrow> bv_exists (e_hash e) bv v)) \<and>
     dumpable e w (data_of b)"

definition leaf_holds :: "app_env \<Rightarrow> fs \<Rightarrow> string \<Rightarrow> string \<Rightarrow> bool" where
  "leaf_holds e w v b \<longleftrightarrow> (case loadFromFile w b of Inl err \<Rightarrow> False | Inr bv \<Rightarrow> bv_exists (e_hash e) bv v)"

lemma scan_bloom_files_total:
  "\<forall>b \<in> set bs. covers e w b \<Longrightarrow>
   scan_bloom_files e w v bs leaf sst =
     Returns (leaf + int (length (filter (leaf_holds e w v) bs)), sst + int (\<Sum>b\<leftarrow>bs. occurrences e w v (data_of b)))"
proof (induction bs arbitrary: leaf sst)
  case (Cons b bs)
  obtain bv where bv: "loadFromFile w b = Inr bv" "\<forall>v. 0 < occurrences e w v (data_of b) \<longrightarrow> bv_exists (e_hash e) bv v" "dumpable e w (data_of b)"
    using Cons.prems by (auto simp: covers_def)
  show ?case
  proof (cases "bv_exists (e_hash e) bv v")
    case True
    then show ?thesis
      using Cons.IH [of "leaf + 1" "sst + int (occurrences e w v (data_of b))"] Cons.prems bv RetrieveFromSStable_occurrences [OF bv(3), of v]
      by (auto simp: data_of_def leaf_holds_def algebra_simps)
  next
    case False
    then have "occurrences e w v (data_of b) = 0" using bv(2) by auto
    then show ?thesis using Cons.IH [of leaf sst] Cons.prems bv False by (simp add: leaf_holds_def)
  qed
qed simp

section \<open>Names and listings\<close>

lemma transform_data: "length f < 2 ^ 63 \<Longrightarrow> transformFileName (f @ dataExt) dataExt bloomExt = f @ bloomExt"
  using unat_of_nat_u64 [of "length f"] by (simp add: transformFileName_def substr_def dataExt_def)

lemma data_of_bloom: "length f < 2 ^ 63 \<Longrightarrow> data_of (f @ bloomExt) = f @ dataExt"
  using unat_of_nat_u64 [of "length f"] by (simp add: data_of_def transformFileName_def substr_def bloomExt_def)

lemma ends_with_split: "ends_with n x \<longleftrightarrow> (\<exists>m. n = m @ x)"
  by (auto simp: ends_with_def) (metis append_take_drop_id)

lemma ext_neq: "m @ dataExt \<noteq> n @ bloomExt"
proof
  assume "m @ dataExt = n @ bloomExt"
  then have "last (m @ dataExt) = last (n @ bloomExt)" by simp
  then show False by (simp add: dataExt_def bloomExt_def)
qed

text \<open>
  What the code relies on from \<^verbatim>\<open>opendir\<close> and \<^verbatim>\<open>readdir\<close>: in any state in which only names of \<open>U\<close> exist in
  the directory, every existing file is listed once.
\<close>

definition readdir_ok :: "app_env \<Rightarrow> string \<Rightarrow> string set \<Rightarrow> bool" where
  "readdir_ok e d U \<longleftrightarrow>
     (\<forall>w. (\<forall>n. files w (d @ ''/'' @ n) \<noteq> None \<longrightarrow> n \<in> U) \<longrightarrow>
        (\<exists>names. e_ls e w d = Some names \<and> distinct names \<and> set names = {n. files w (d @ ''/'' @ n) \<noteq> None}))"

lemma listed:
  assumes "readdir_ok e d U" "\<forall>n. files w (d @ ''/'' @ n) \<noteq> None \<longrightarrow> n \<in> U"
  shows "distinct (listFilesWithExtension e w d x)"
    "set (listFilesWithExtension e w d x) = {d @ ''/'' @ m @ x | m. files w (d @ ''/'' @ m @ x) \<noteq> None}"
proof -
  obtain names where n: "e_ls e w d = Some names" "distinct names" "set names = {n. files w (d @ ''/'' @ n) \<noteq> None}"
    using assms unfolding readdir_ok_def by blast
  show "distinct (listFilesWithExtension e w d x)" using n(1,2) by (simp add: listFilesWithExtension_def distinct_map inj_on_def)
  show "set (listFilesWithExtension e w d x) = {d @ ''/'' @ m @ x | m. files w (d @ ''/'' @ m @ x) \<noteq> None}"
    using n(1,3) by (auto simp: listFilesWithExtension_def ends_with_split image_iff)
qed

section \<open>Creating the filters\<close>

definition filter_of :: "app_env \<Rightarrow> fs \<Rightarrow> string \<Rightarrow> bloom_value" where
  "filter_of e w f = fold (bv_insert (e_hash e)) (map valData (file_records e w f)) bloom_value_new"

lemma filter_of_ok: "bv_ok (filter_of e w f)" "0 < occurrences e w v f \<Longrightarrow> bv_exists (e_hash e) (filter_of e w f) v"
proof -
  show "bv_ok (filter_of e w f)" unfolding filter_of_def by (rule bv.invar_fold_ins [OF bv_ok_new])
  assume "0 < occurrences e w v f"
  then have "v \<in> set (map valData (file_records e w f))"
    using count_list_0_iff [of "map valData (file_records e w f)" v] by (auto simp: occurrences_def)
  then show "bv_exists (e_hash e) (filter_of e w f) v" unfolding filter_of_def by (rule bv.mem_fold_ins [OF bv_ok_new])
qed

lemma load_cong: "files w f = files w' f \<Longrightarrow> loadFromFile w f = loadFromFile w' f"
  by (simp add: loadFromFile_def open_read_def)

lemma load_existing: "files w f \<noteq> None \<Longrightarrow> \<exists>bv. loadFromFile w f = Inr bv \<and> bv_ok bv"
  by (auto simp: loadFromFile_def open_read_def case_prod_beta Let_def bv_ok_def bloom_value_new_def unpack_bits_set)

definition data_file :: "fs \<Rightarrow> string \<Rightarrow> bool" where
  "data_file w f \<longleftrightarrow> (\<exists>p. f = p @ dataExt \<and> length p < 2 ^ 63 \<and> writable w (p @ bloomExt))"

lemma create_filters_ok:
  assumes "\<forall>f \<in> set fs. data_file w f \<and> dumpable e w f"
  shows "\<exists>w'. create_filters e fs w = Returns w' \<and> writable w' = writable w \<and>
     (\<forall>g. (\<forall>p. p @ dataExt \<in> set fs \<longrightarrow> g \<noteq> p @ bloomExt) \<longrightarrow> files w' g = files w g) \<and>
     (\<forall>p. p @ dataExt \<in> set fs \<longrightarrow> files w' (p @ bloomExt) \<noteq> None \<and> loadFromFile w' (p @ bloomExt) = Inr (filter_of e w (p @ dataExt)))"
  using assms
proof (induction fs arbitrary: w)
  case (Cons f fs)
  obtain p where p: "f = p @ dataExt" "length p < 2 ^ 63" "writable w (p @ bloomExt)" using Cons.prems by (auto simp: data_file_def)
  define w1 where "w1 = createFile (p @ bloomExt) w"
  define w2 where "w2 = saveToFile (filter_of e w f) (p @ bloomExt) w1"
  have wr: "writable w1 = writable w" "writable w2 = writable w" by (simp_all add: w1_def w2_def createFile_def saveToFile_def)
  have fr: "files w1 g = files w g" "files w2 g = files w g" if "g \<noteq> p @ bloomExt" for g
    using that by (simp_all add: w1_def w2_def createFile_def saveToFile_def)
  have data: "files w1 (q @ dataExt) = files w (q @ dataExt)" "files w2 (q @ dataExt) = files w (q @ dataExt)" for q
    using fr ext_neq [of q p] by auto
  obtain rs err where rs: "dumpSSTable (e_codecs e) w f = Some (rs, err)" using Cons.prems by (auto simp: dumpable_def)
  have d1: "dumpSSTable (e_codecs e) w1 f = Some (rs, err)" using dump_cong [of w1 f w] data rs p by simp
  have step: "create_filters e (f # fs) w = create_filters e fs w2"
    using p d1 rs by (simp add: transform_data w1_def [symmetric] w2_def filter_of_def file_records_def fold_map comp_def)
  have same: "filter_of e w2 (q @ dataExt) = filter_of e w (q @ dataExt)" "dumpable e w2 (q @ dataExt) = dumpable e w (q @ dataExt)" for q
    using dump_cong [OF data(2)] by (simp_all add: filter_of_def file_records_def dumpable_def)
  have "\<forall>f \<in> set fs. data_file w2 f \<and> dumpable e w2 f" using Cons.prems wr same by (auto simp: data_file_def)
  from Cons.IH [OF this] obtain w' where w': "create_filters e fs w2 = Returns w'" "writable w' = writable w2"
    "\<And>g. (\<forall>p. p @ dataExt \<in> set fs \<longrightarrow> g \<noteq> p @ bloomExt) \<Longrightarrow> files w' g = files w2 g"
    "\<And>p. p @ dataExt \<in> set fs \<Longrightarrow> files w' (p @ bloomExt) \<noteq> None \<and> loadFromFile w' (p @ bloomExt) = Inr (filter_of e w2 (p @ dataExt))" by auto
  have own: "files w' (p @ bloomExt) \<noteq> None \<and> loadFromFile w' (p @ bloomExt) = Inr (filter_of e w f)"
  proof (cases "f \<in> set fs")
    case True
    then show ?thesis using w'(4) [of p] p(1) same by simp
  next
    case False
    then have "files w' (p @ bloomExt) = files w2 (p @ bloomExt)" using w'(3) [of "p @ bloomExt"] p(1) by auto
    moreover have "files w2 (p @ bloomExt) \<noteq> None" using p(3) wr by (simp add: w2_def saveToFile_def)
    moreover have "loadFromFile w2 (p @ bloomExt) = Inr (filter_of e w f)"
      unfolding w2_def by (rule loadFromFile_saved [OF filter_of_ok(1)]) (simp add: wr p(3))
    ultimately show ?thesis using load_cong by metis
  qed
  show ?case
    using step w'(1-3) wr(2) fr(2) own w'(4) same(1) p(1) by (intro exI [of _ w']) auto
qed simp

text \<open>
  A directory in which a search can be prepared: names from a finite set \<open>U\<close> that \<^verbatim>\<open>readdir\<close> lists
  exactly, filter files that can be written, and data files whose dumps raise no exception.
\<close>

definition ready :: "app_env \<Rightarrow> fs \<Rightarrow> string \<Rightarrow> string set \<Rightarrow> bool" where
  "ready e w d U \<longleftrightarrow>
     readdir_ok e d U \<and> finite U \<and> card U < 2 ^ 31 \<and> (\<forall>n. files w (d @ ''/'' @ n) \<noteq> None \<longrightarrow> n \<in> U) \<and>
     (\<forall>m. m @ dataExt \<in> U \<longrightarrow> m @ bloomExt \<in> U \<and> writable w (d @ ''/'' @ m @ bloomExt) \<and> dumpable e w (d @ ''/'' @ m @ dataExt)) \<and>
     (\<forall>n \<in> U. length (d @ ''/'' @ n) < 2 ^ 63)"

definition total_occurrences :: "app_env \<Rightarrow> fs \<Rightarrow> string \<Rightarrow> string \<Rightarrow> nat" where
  "total_occurrences e w d v = (\<Sum>f\<leftarrow>listFilesWithExtension e w d dataExt. occurrences e w v f)"

text \<open>The state after the filters were created: every filter file covers its data file.\<close>

definition filtered :: "app_env \<Rightarrow> fs \<Rightarrow> fs \<Rightarrow> string \<Rightarrow> bool" where
  "filtered e w w' d \<longleftrightarrow>
     (let bs = listFilesWithExtension e w' d bloomExt
      in (\<forall>b \<in> set bs. covers e w' b) \<and> distinct bs \<and> length bs < 2 ^ 31 \<and> ''Memory'' \<notin> set bs \<and>
         (\<forall>v. (\<Sum>b\<leftarrow>bs. occurrences e w' v (data_of b)) = total_occurrences e w d v) \<and>
         (\<forall>v. total_occurrences e w' d v = total_occurrences e w d v) \<and>
         (\<forall>f \<in> set (listFilesWithExtension e w' d dataExt). dumpable e w' f))"

lemma missing_data:
  assumes "files w (p @ dataExt) = None"
  shows "dumpable e w (p @ dataExt)" "occurrences e w v (p @ dataExt) = 0"
proof -
  have "\<exists>s. \<not> Status_ok s \<and> DumpFile cd w f = (s, [])" if "files w f = None" for f cd
    using that by (simp add: DumpFile_def DumpLog_def DumpDescriptor_def DumpTable_def PrintLogContents_def NewSequentialFile_def
        GetFileSize_def PosixError_def split: option.split)
  from this [OF assms, of "e_codecs e"] show "dumpable e w (p @ dataExt)" "occurrences e w v (p @ dataExt) = 0"
    by (auto simp: dumpable_def occurrences_def file_records_def dumpSSTable_def)
qed

lemma sum_list_distinct: "distinct xs \<Longrightarrow> (\<Sum>x\<leftarrow>xs. f x) = sum f (set xs)"
  by (simp add: sum_list_distinct_conv_sum_set)

definition created :: "app_env \<Rightarrow> fs \<Rightarrow> fs \<Rightarrow> string \<Rightarrow> string set \<Rightarrow> bool" where
  "created e w w' d U \<longleftrightarrow>
     (\<forall>q. files w' (q @ dataExt) = files w (q @ dataExt)) \<and> (\<forall>n. files w' (d @ ''/'' @ n) \<noteq> None \<longrightarrow> n \<in> U) \<and>
     (\<forall>m. files w (d @ ''/'' @ m @ dataExt) \<noteq> None \<longrightarrow> files w' (d @ ''/'' @ m @ bloomExt) \<noteq> None \<and>
        loadFromFile w' (d @ ''/'' @ m @ bloomExt) = Inr (filter_of e w (d @ ''/'' @ m @ dataExt)))"

lemma create_filters_created:
  assumes r: "ready e w d U"
  shows "\<exists>w'. create_filters e (listFilesWithExtension e w d dataExt) w = Returns w' \<and> created e w w' d U"
proof -
  let ?D = "listFilesWithExtension e w d dataExt"
  have rd: "readdir_ok e d U" "\<forall>n. files w (d @ ''/'' @ n) \<noteq> None \<longrightarrow> n \<in> U" using r unfolding ready_def by blast+
  note D = listed(2) [OF rd, of dataExt]
  have "data_file w f \<and> dumpable e w f" if f: "f \<in> set ?D" for f
  proof -
    obtain m where m: "f = d @ ''/'' @ m @ dataExt" "files w (d @ ''/'' @ m @ dataExt) \<noteq> None" using f D by auto
    then have "m @ dataExt \<in> U" using rd(2) by blast
    then have "length (d @ ''/'' @ m @ dataExt) < 2 ^ 63" "writable w (d @ ''/'' @ m @ bloomExt)" "dumpable e w f"
      using r m unfolding ready_def by blast+
    then show ?thesis using m by (auto simp: data_file_def intro!: exI [of _ "d @ ''/'' @ m"])
  qed
  then obtain w' where w': "create_filters e ?D w = Returns w'"
    "\<And>g. (\<forall>p. p @ dataExt \<in> set ?D \<longrightarrow> g \<noteq> p @ bloomExt) \<Longrightarrow> files w' g = files w g"
    "\<And>p. p @ dataExt \<in> set ?D \<Longrightarrow> files w' (p @ bloomExt) \<noteq> None \<and> loadFromFile w' (p @ bloomExt) = Inr (filter_of e w (p @ dataExt))"
    using create_filters_ok [of ?D w e] by blast
  have "files w' (q @ dataExt) = files w (q @ dataExt)" for q using w'(2) [of "q @ dataExt"] ext_neq by auto
  moreover have "n \<in> U" if n: "files w' (d @ ''/'' @ n) \<noteq> None" for n
  proof (cases "\<exists>m. n = m @ bloomExt \<and> files w (d @ ''/'' @ m @ dataExt) \<noteq> None")
    case True
    then show ?thesis using r rd(2) unfolding ready_def by blast
  next
    case False
    then have "files w' (d @ ''/'' @ n) = files w (d @ ''/'' @ n)" using D by (intro w'(2)) auto
    then show ?thesis using n rd(2) by simp
  qed
  moreover have "files w' (d @ ''/'' @ m @ bloomExt) \<noteq> None \<and> loadFromFile w' (d @ ''/'' @ m @ bloomExt) = Inr (filter_of e w (d @ ''/'' @ m @ dataExt))"
    if "files w (d @ ''/'' @ m @ dataExt) \<noteq> None" for m
    using w'(3) [of "d @ ''/'' @ m"] that D by auto
  ultimately show ?thesis using w'(1) unfolding created_def by blast
qed

lemma created_covers:
  assumes r: "ready e w d U" and c: "created e w w' d U" and b: "files w' (d @ ''/'' @ m @ bloomExt) \<noteq> None"
  shows "data_of (d @ ''/'' @ m @ bloomExt) = d @ ''/'' @ m @ dataExt" "covers e w' (d @ ''/'' @ m @ bloomExt)"
proof -
  let ?f = "(d @ ''/'' @ m) @ dataExt"
  have "m @ bloomExt \<in> U" using b c unfolding created_def by blast
  then have "length (d @ ''/'' @ m @ bloomExt) < 2 ^ 63" using r unfolding ready_def by blast
  then show dof: "data_of (d @ ''/'' @ m @ bloomExt) = d @ ''/'' @ m @ dataExt" using data_of_bloom [of "d @ ''/'' @ m"] by simp
  have data: "files w' ?f = files w ?f" using c unfolding created_def by blast
  show "covers e w' (d @ ''/'' @ m @ bloomExt)"
  proof (cases "files w ?f")
    case None
    then show ?thesis using missing_data [of w' "d @ ''/'' @ m"] data load_existing [OF b] dof by (auto simp: covers_def)
  next
    case (Some x)
    then have "m @ dataExt \<in> U" using r unfolding ready_def by simp
    then have "dumpable e w ?f" using r unfolding ready_def by simp
    then show ?thesis
      using c Some filter_of_ok [of e w] dof occurrences_cong [OF data, of e] dumpable_cong [OF data, of e]
      by (auto simp: covers_def created_def)
  qed
qed

lemma created_filtered:
  assumes r: "ready e w d U" and c: "created e w w' d U"
  shows "filtered e w w' d"
proof -
  let ?D = "listFilesWithExtension e w d dataExt" and ?D' = "listFilesWithExtension e w' d dataExt" and ?B = "listFilesWithExtension e w' d bloomExt"
  have rd: "readdir_ok e d U" "\<forall>n. files w (d @ ''/'' @ n) \<noteq> None \<longrightarrow> n \<in> U" using r unfolding ready_def by blast+
  have U': "\<forall>n. files w' (d @ ''/'' @ n) \<noteq> None \<longrightarrow> n \<in> U" using c unfolding created_def by blast
  note D = listed [OF rd, of dataExt] and D' = listed [OF rd(1) U', of dataExt] and B = listed [OF rd(1) U', of bloomExt]
  have data: "files w' (q @ dataExt) = files w (q @ dataExt)" for q using c unfolding created_def by blast
  have data': "files w' (d @ ''/'' @ q @ dataExt) = files w (d @ ''/'' @ q @ dataExt)" for q using data [of "d @ ''/'' @ q"] by simp
  have occ: "occurrences e w' v (d @ ''/'' @ m @ dataExt) = occurrences e w v (d @ ''/'' @ m @ dataExt)" for v m
    by (rule occurrences_cong [OF data'])
  have sD: "set ?D' = set ?D" unfolding D(2) D'(2) data' by (rule refl)
  have cov: "covers e w' b" if "b \<in> set ?B" for b using that created_covers(2) [OF r c] B(2) by auto
  have dof: "data_of (d @ ''/'' @ m @ bloomExt) = d @ ''/'' @ m @ dataExt" if "d @ ''/'' @ m @ bloomExt \<in> set ?B" for m
    using that created_covers(1) [OF r c] B(2) by auto
  have sub: "set ?D \<subseteq> data_of ` set ?B"
    using c created_covers(1) [OF r c] unfolding D(2) B(2) created_def by (force intro!: image_eqI)
  have zero: "occurrences e w' v f = 0" if "f \<in> data_of ` set ?B - set ?D" for v f
    using that dof missing_data(2) [of w' _ e v] data' unfolding D(2) by (auto simp: B(2)) (metis append.assoc append_Cons append_Nil)
  have inj: "inj_on data_of (set ?B)" using dof B(2) by (intro inj_onI) auto
  have sum: "(\<Sum>b\<leftarrow>?B. occurrences e w' v (data_of b)) = total_occurrences e w d v" for v
  proof -
    have "(\<Sum>b\<leftarrow>?B. occurrences e w' v (data_of b)) = sum (occurrences e w' v) (data_of ` set ?B)"
      using inj by (simp add: sum_list_distinct [OF B(1)] sum.reindex)
    also have "\<dots> = sum (occurrences e w' v) (set ?D)" using zero sub by (intro sum.mono_neutral_right) auto
    also have "\<dots> = sum (occurrences e w v) (set ?D)" using occ D(2) by (intro sum.cong) auto
    finally show ?thesis by (simp add: total_occurrences_def sum_list_distinct [OF D(1)])
  qed
  have tot: "total_occurrences e w' d v = total_occurrences e w d v" for v
    using occ D(2) by (auto simp: total_occurrences_def sum_list_distinct [OF D(1)] sum_list_distinct [OF D'(1)] sD intro!: sum.cong)
  have "length ?B \<le> card U"
  proof -
    have "set ?B \<subseteq> (\<lambda>n. d @ ''/'' @ n) ` U" using B(2) U' by auto
    then have "card (set ?B) \<le> card ((\<lambda>n. d @ ''/'' @ n) ` U)" using r by (intro card_mono) (auto simp: ready_def)
    then show ?thesis using distinct_card [OF B(1)] card_image_le [of U "\<lambda>n. d @ ''/'' @ n"] r by (simp add: ready_def)
  qed
  moreover have "''Memory'' \<notin> set ?B" using B(2) by (auto simp: bloomExt_def append_eq_Cons_conv Cons_eq_append_conv)
  moreover have "dumpable e w' f" if "f \<in> set ?D'" for f
    using that r D(2) dumpable_cong [OF data', of e] rd(2) unfolding sD ready_def by auto
  ultimately show ?thesis using cov B(1) sum tot r by (simp add: filtered_def ready_def)
qed

section \<open>The operations on a prepared directory\<close>

lemmas stream_simps = now_def log_str_def cout_str_def Let_def case_prod_beta

lemma CreateBloomValue_filtered:
  assumes "ready e (a_fs s) (db_directory dbname) U"
  shows "\<exists>res1 s1. CreateBloomValue e dbname res s = Returns (res1, s1) \<and> filtered e (a_fs s) (a_fs s1) (db_directory dbname)"
  using create_filters_created [OF assms] created_filtered [OF assms] by (auto simp: CreateBloomValue_def stream_simps)

abbreviation blooms :: "app_env \<Rightarrow> fs \<Rightarrow> string \<Rightarrow> string list" where
  "blooms e w d \<equiv> listFilesWithExtension e w d bloomExt"

lemma ScanningWithBloom_filtered:
  assumes "filtered e w (a_fs s) (db_directory dbname)"
  shows "\<exists>res2 s2. ScanningWithBloom e dbname v res s = Returns (res2, s2) \<and> a_fs s2 = a_fs s \<and>
    foundInSSTable res2 = int (total_occurrences e w (db_directory dbname) v) \<and>
    foundInLeafBloom res2 = int (length (filter (leaf_holds e (a_fs s) v) (blooms e (a_fs s) (db_directory dbname))))"
  using assms scan_bloom_files_total [of "blooms e (a_fs s) (db_directory dbname)" e "a_fs s" v 0 0]
  by (auto simp: ScanningWithBloom_def ScanningInBloomFiles_def stream_simps filtered_def)

lemma ScanningWithoutBloom_filtered:
  assumes "filtered e w (a_fs s) (db_directory dbname)"
  shows "\<exists>diff s2. ScanningWithoutBloom e dbname v res s = Returns (res\<lparr>tScanningWithoutBloom := diff\<rparr>, s2) \<and> a_fs s2 = a_fs s"
    "scan_data_files e (a_fs s) v (listFilesWithExtension e (a_fs s) (db_directory dbname) dataExt) 0
       = Returns (int (total_occurrences e w (db_directory dbname) v))"
proof -
  show *: "scan_data_files e (a_fs s) v (listFilesWithExtension e (a_fs s) (db_directory dbname) dataExt) 0
       = Returns (int (total_occurrences e w (db_directory dbname) v))"
    using assms scan_data_files_total [of "listFilesWithExtension e (a_fs s) (db_directory dbname) dataExt" e "a_fs s" v 0]
    by (simp add: filtered_def total_occurrences_def Let_def)
  then show "\<exists>diff s2. ScanningWithoutBloom e dbname v res s = Returns (res\<lparr>tScanningWithoutBloom := diff\<rparr>, s2) \<and> a_fs s2 = a_fs s"
    by (auto simp: ScanningWithoutBloom_def stream_simps)
qed

lemma add_leaves_fold:
  "list_all2 (\<lambda>b p. loadFromFile w b = Inr (fst p) \<and> snd p = b) bs ps \<Longrightarrow>
   add_leaves w bs t = Returns (fold (\<lambda>(bv, f). createLeafLevel bv f) ps t)"
  by (induction arbitrary: t rule: list_all2_induct) (auto simp: case_prod_beta)

text \<open>The tree over the filters of a directory, ready for lookups.\<close>

definition searchable :: "app_env \<Rightarrow> fs \<Rightarrow> string \<Rightarrow> bloomTree \<Rightarrow> bool" where
  "searchable e w d t \<longleftrightarrow> (\<forall>v. \<exists>names t'. checkExistance (e_hash e) v t = Inr (names, t') \<and>
     checkExistanceThread (e_hash e) v t = Inr names \<and> subseq names (blooms e w d) \<and>
     (\<forall>b \<in> set (blooms e w d). leaf_holds e w v b \<longrightarrow> b \<in> set names))"

lemma CreateHierarchy_filtered:
  assumes f: "filtered e w (a_fs s) (db_directory dbname)" and r: "3 \<le> r"
  shows "\<exists>t2 d2 s2 t3 d3 s3. CreateLeafHierarchyLevel e dbname (bloomTree_new r) res s = Returns (t2, res\<lparr>tCreatingLeafLevel := d2\<rparr>, s2) \<and>
     CreateHierarchy e dbname t2 (res\<lparr>tCreatingLeafLevel := d2\<rparr>) s2 = Returns (t3, res\<lparr>tCreatingLeafLevel := d2, tCreatingHierarchy := d3\<rparr>, s3) \<and>
     a_fs s3 = a_fs s \<and> searchable e (a_fs s) (db_directory dbname) t3"
proof -
  let ?w = "a_fs s" and ?bs = "blooms e (a_fs s) (db_directory dbname)"
  have cov: "\<forall>b \<in> set ?bs. covers e ?w b" and mem: "''Memory'' \<notin> set ?bs" using f by (auto simp: filtered_def Let_def)
  define ps where "ps = map (\<lambda>b. (projr (loadFromFile ?w b), b)) ?bs"
  have ld: "\<exists>bv. loadFromFile ?w b = Inr bv \<and> bv_ok bv" if "b \<in> set ?bs" for b using cov that by (auto simp: covers_def)
  then have ld': "loadFromFile ?w b = Inr (projr (loadFromFile ?w b))" if "b \<in> set ?bs" for b using that by fastforce
  have add: "add_leaves ?w ?bs (bloomTree_new r) = Returns (build_tree r ps)"
    unfolding build_tree_def using ld' by (intro add_leaves_fold) (auto simp: ps_def list_all2_map2 list_all2_same)
  have "leaves_ok ps" using ld mem by (fastforce simp: leaves_ok_def ps_def list_all_iff)
  from lookup_built [OF r this, of "e_hash e"] obtain t3 where t3: "createTree (build_tree r ps) = Some (Inr t3)"
    "\<forall>v. \<exists>names t'. checkExistance (e_hash e) v t3 = Inr (names, t') \<and> checkExistanceThread (e_hash e) v t3 = Inr names \<and>
       (\<forall>(bv, f) \<in> set ps. bv_exists (e_hash e) bv v \<longrightarrow> f \<in> set names) \<and> subseq names (map snd ps)" by blast
  have "leaf_holds e ?w v b \<Longrightarrow> bv_exists (e_hash e) (projr (loadFromFile ?w b)) v" for v b
    by (auto simp: leaf_holds_def split: sum.splits)
  moreover have "map snd ps = ?bs" by (simp add: ps_def comp_def)
  ultimately have "searchable e ?w (db_directory dbname) t3"
    using t3(2) unfolding searchable_def by (fastforce simp: ps_def)
  then show ?thesis
    using add t3(1) by (auto simp: CreateLeafHierarchyLevel_def CreateHierarchy_def stream_simps)
qed

lemma subseq_set: "subseq xs ys \<Longrightarrow> set xs \<subseteq> set ys"
  by (auto dest: list_emb_set)

lemma subseq_distinct: "subseq xs ys \<Longrightarrow> distinct ys \<Longrightarrow> distinct xs"
proof (induction rule: list_emb.induct)
  case (list_emb_Cons2 x y xs ys)
  then show ?case using subseq_set [of xs ys] by auto
qed auto

lemma sum_list_subseq_zero:
  assumes "subseq xs ys" "distinct ys" "\<forall>y \<in> set ys. y \<notin> set xs \<longrightarrow> f y = (0 :: nat)"
  shows "(\<Sum>x\<leftarrow>xs. f x) = (\<Sum>y\<leftarrow>ys. f y)"
proof -
  have d: "distinct xs" "set xs \<subseteq> set ys" using subseq_distinct [OF assms(1,2)] subseq_set [OF assms(1)] by auto
  have "sum f (set xs) = sum f (set ys)" using d assms(3) by (intro sum.mono_neutral_left) auto
  then show ?thesis using d assms(2) by (simp add: sum_list_distinct)
qed

lemma filter_subseq_all:
  assumes "subseq xs ys" "distinct ys" "\<forall>y \<in> set ys. P y \<longrightarrow> y \<in> set xs"
  shows "length (filter P xs) = length (filter P ys)"
  using sum_list_subseq_zero [OF assms(1,2), of "\<lambda>y. if P y then 1 else 0"] assms(3)
  by (simp add: sum_list_map_filter' [symmetric] sum_list_triv)

lemma CheckInHierarchy_filtered:
  assumes f: "filtered e w (a_fs s) d" and t: "searchable e (a_fs s) d t"
  shows "\<exists>t' res' s'. CheckInHierarchy e t v res s = Returns (t', res', s') \<and> a_fs s' = a_fs s \<and>
     foundInLeafBloomNoHierarchy res' = foundInLeafBloomNoHierarchy res \<and> foundInSSTableNoHierarchy res' = foundInSSTableNoHierarchy res \<and>
     (if accessedBloomFilter res' = 0
      then total_occurrences e w d v = 0 \<and> foundInSSTable res' = foundInSSTable res \<and> foundInLeafBloom res' = foundInLeafBloom res \<and>
           filter (leaf_holds e (a_fs s) v) (blooms e (a_fs s) d) = []
      else foundInSSTable res' = int (total_occurrences e w d v) \<and>
           foundInLeafBloom res' = int (length (filter (leaf_holds e (a_fs s) v) (blooms e (a_fs s) d))))"
proof -
  let ?bs = "blooms e (a_fs s) d"
  obtain names t' where n: "checkExistance (e_hash e) v t = Inr (names, t')" "subseq names ?bs"
    "\<forall>b \<in> set ?bs. leaf_holds e (a_fs s) v b \<longrightarrow> b \<in> set names" using t by (auto simp: searchable_def) blast
  have fl: "\<forall>b \<in> set ?bs. covers e (a_fs s) b" "distinct ?bs" "length ?bs < 2 ^ 31"
    "(\<Sum>b\<leftarrow>?bs. occurrences e (a_fs s) v (data_of b)) = total_occurrences e w d v" using f by (auto simp: filtered_def Let_def)
  have sub: "set names \<subseteq> set ?bs" by (rule subseq_set [OF n(2)])
  have "occurrences e (a_fs s) v (data_of b) = 0" if "b \<in> set ?bs" "b \<notin> set names" for b
    using that n(3) fl(1) by (fastforce simp: covers_def leaf_holds_def)
  then have tot: "(\<Sum>b\<leftarrow>names. occurrences e (a_fs s) v (data_of b)) = total_occurrences e w d v"
    using sum_list_subseq_zero [OF n(2) fl(2)] fl(4) by simp
  have lv: "length (filter (leaf_holds e (a_fs s) v) names) = length (filter (leaf_holds e (a_fs s) v) ?bs)"
    using filter_subseq_all [OF n(2) fl(2)] n(3) by blast
  have "length names < 2 ^ 31" using list_emb_length [OF n(2)] fl(3) by simp
  then have i: "int32 (int (length names)) = int (length names)" by (simp add: int32_def signed_take_bit_int_eq_self)
  have sc: "scan_bloom_files e (a_fs s) v names 0 0 = Returns (int (length (filter (leaf_holds e (a_fs s) v) names)),
      int (\<Sum>b\<leftarrow>names. occurrences e (a_fs s) v (data_of b)))"
    using scan_bloom_files_total [of names e "a_fs s" v 0 0] fl(1) sub by auto
  show ?thesis
    using n(1) i tot lv sc by (cases "names = []") (auto simp: CheckInHierarchy_def ScanningInBloomFiles_def stream_simps)
qed

section \<open>Lookups in threads\<close>

lemma chunks_cover:
  assumes "0 < t"
  shows "concat (map (\<lambda>(a, b). drop a (take b xs)) (chunks t (length xs))) = xs"
proof -
  let ?c = "length xs div t"
  have le: "t * ?c \<le> length xs" by (simp add: mult.commute)
  have part: "concat (map (\<lambda>i. drop (i * ?c) (take (i * ?c + ?c) xs)) [0..<n]) = take (n * ?c) xs" if "n * ?c \<le> length xs" for n
    using that
  proof (induction n)
    case (Suc n)
    have "take (n * ?c + ?c) xs = take (n * ?c) xs @ drop (n * ?c) (take (n * ?c + ?c) xs)"
      by (metis append_take_drop_id le_add1 min.absorb1 take_take)
    then show ?case using Suc by (simp add: algebra_simps)
  qed simp
  obtain m where m: "t = Suc m" using assms by (cases t) auto
  have "chunks t (length xs) = map (\<lambda>i. (i * ?c, i * ?c + ?c)) [0..<m] @ [(m * ?c, length xs)]"
    by (auto simp: chunks_def Let_def m)
  moreover have "m * ?c \<le> length xs" using le m by simp
  ultimately show ?thesis using part [of m] by (simp add: comp_def)
qed

lemma f1_loop_returns:
  assumes f: "filtered e w0 w d" and t: "searchable e w d t"
  shows "f1_loop e w t vs = Returns ()"
proof (induction vs)
  case (Cons v vs)
  obtain names where n: "checkExistanceThread (e_hash e) v t = Inr names" "subseq names (blooms e w d)" using t by (auto simp: searchable_def)
  have "\<forall>b \<in> set names. covers e w b" using f subseq_set [OF n(2)] by (auto simp: filtered_def Let_def)
  then show ?case using Cons n(1) scan_bloom_files_total [of names e w v 0 0] by (simp add: ScanningInBloomFilesMultiplyValue_def)
qed simp

section \<open>Properties\<close>

text \<open>
  C3: in a directory whose data files can be dumped and whose filter files can be written, creating the filters and scanning
  with them counts exactly as many records with the value as reading every data file does; filter files that were there
  before do not matter.
\<close>

theorem bloom_scan_exact:
  assumes "ready e (a_fs s) (db_directory dbname) U"
  shows "\<exists>res1 s1 res2 s2. CreateBloomValue e dbname res s = Returns (res1, s1) \<and>
     ScanningWithBloom e dbname v res1 s1 = Returns (res2, s2) \<and>
     foundInSSTable res2 = int (total_occurrences e (a_fs s) (db_directory dbname) v) \<and>
     scan_data_files e (a_fs s2) v (listFilesWithExtension e (a_fs s2) (db_directory dbname) dataExt) 0 = Returns (foundInSSTable res2)"
proof -
  obtain res1 s1 where 1: "CreateBloomValue e dbname res s = Returns (res1, s1)" "filtered e (a_fs s) (a_fs s1) (db_directory dbname)"
    using CreateBloomValue_filtered [OF assms] by blast
  from ScanningWithBloom_filtered [OF 1(2)] ScanningWithoutBloom_filtered(2) [OF 1(2)] 1(1) show ?thesis by metis
qed

text \<open>
  C2: with a ratio of at least three, the search in the hierarchy over these filters returns, and counts exactly the records
  with the value; when the lookup names no filter there is no such record, but then the counters of the result keep the
  values that they had before the search.
\<close>

theorem hierarchy_search_exact:
  assumes "ready e (a_fs s) (db_directory dbname) U" and "3 \<le> r"
  shows "\<exists>res1 s1 t2 res2 s2 t3 res3 s3 t4 res4 s4. CreateBloomValue e dbname res s = Returns (res1, s1) \<and>
     CreateLeafHierarchyLevel e dbname (bloomTree_new r) res1 s1 = Returns (t2, res2, s2) \<and>
     CreateHierarchy e dbname t2 res2 s2 = Returns (t3, res3, s3) \<and>
     CheckInHierarchy e t3 v res3 s3 = Returns (t4, res4, s4) \<and>
     (if accessedBloomFilter res4 = 0
      then total_occurrences e (a_fs s) (db_directory dbname) v = 0 \<and> foundInSSTable res4 = foundInSSTable res3
      else foundInSSTable res4 = int (total_occurrences e (a_fs s) (db_directory dbname) v))"
proof -
  obtain res1 s1 where 1: "CreateBloomValue e dbname res s = Returns (res1, s1)" "filtered e (a_fs s) (a_fs s1) (db_directory dbname)"
    using CreateBloomValue_filtered [OF assms(1)] by blast
  obtain t2 d2 s2 t3 d3 s3 where 2: "CreateLeafHierarchyLevel e dbname (bloomTree_new r) res1 s1 = Returns (t2, res1\<lparr>tCreatingLeafLevel := d2\<rparr>, s2)"
     "CreateHierarchy e dbname t2 (res1\<lparr>tCreatingLeafLevel := d2\<rparr>) s2 = Returns (t3, res1\<lparr>tCreatingLeafLevel := d2, tCreatingHierarchy := d3\<rparr>, s3)"
     "a_fs s3 = a_fs s1" "searchable e (a_fs s1) (db_directory dbname) t3"
    using CreateHierarchy_filtered [OF 1(2) assms(2)] by blast
  from CheckInHierarchy_filtered [of e "a_fs s" s3 "db_directory dbname" t3 v "res1\<lparr>tCreatingLeafLevel := d2, tCreatingHierarchy := d3\<rparr>"] 1(2) 2(3,4)
  obtain t4 res4 s4 where "CheckInHierarchy e t3 v (res1\<lparr>tCreatingLeafLevel := d2, tCreatingHierarchy := d3\<rparr>) s3 = Returns (t4, res4, s4)"
    "if accessedBloomFilter res4 = 0
      then total_occurrences e (a_fs s) (db_directory dbname) v = 0 \<and> foundInSSTable res4 = foundInSSTable (res1\<lparr>tCreatingLeafLevel := d2, tCreatingHierarchy := d3\<rparr>)
      else foundInSSTable res4 = int (total_occurrences e (a_fs s) (db_directory dbname) v)" by (auto split: if_splits)
  then show ?thesis using 1(1) 2(1,2) by blast
qed


text \<open>A directory with one table, whose name and whose filter's name are listed when they exist.\<close>

definition example_app_env :: app_env where
  "example_app_env = \<lparr>e_hash = (\<lambda>s. of_nat (length s)), e_codecs = no_codecs,
     e_ls = (\<lambda>w d. Some (filter (\<lambda>n. files w (d @ ''/'' @ n) \<noteq> None) [''000005.ldb'', ''000005.bloom''])),
     e_clock = (\<lambda>n. int n), e_random = (\<lambda>lo hi n. lo), e_concurrency = 4, e_put_all = (\<lambda>p kvs w. (OK, w)),
     e_get = (\<lambda>p k w. (OK, [], w)), e_property = (\<lambda>p k w. (OK, [], w))\<rparr>"

definition example_app :: app where
  "example_app = \<lparr>a_fs = \<lparr>files = [TableFileName (db_directory ''x'') 5 \<mapsto> wf_data (tb_file example_table)], writable = (\<lambda>_. True)\<rparr>,
     a_log = [], a_cout = [], a_ticks = 0, a_draws = 0\<rparr>"

lemma example_path: "TableFileName (db_directory ''x'') 5 = db_directory ''x'' @ ''/'' @ ''000005'' @ dataExt"
  by code_simp

lemma example_records: "dumpSSTable no_codecs (a_fs example_app) (TableFileName (db_directory ''x'') 5) = Some (map dumped_record example_kvs, [])"
  by (rule example_dump) (simp add: example_app_def)

lemma example_ready: "ready example_app_env (a_fs example_app) (db_directory ''x'') {''000005.ldb'', ''000005.bloom''}"
proof -
  have r: "readdir_ok example_app_env d {''000005.ldb'', ''000005.bloom''}" for d
    unfolding readdir_ok_def example_app_env_def by auto
  have m: "m = ''000005''" if "m @ dataExt \<in> {''000005.ldb'', ''000005.bloom''}" for m
  proof -
    have "m @ dataExt = ''000005'' @ dataExt"
      using that ext_neq [of m "''000005''"] by (auto simp: dataExt_def bloomExt_def)
    then show ?thesis by simp
  qed
  have dmp: "dumpable example_app_env (a_fs example_app) (db_directory ''x'' @ ''/'' @ ''000005'' @ dataExt)"
    using example_records unfolding example_path by (simp add: dumpable_def example_app_env_def)
  have ex: "n = ''000005.ldb''" if "files (a_fs example_app) (db_directory ''x'' @ ''/'' @ n) \<noteq> None" for n
    using that by (auto simp: example_app_def example_path dataExt_def split: if_splits)
  have c: "m @ bloomExt \<in> {''000005.ldb'', ''000005.bloom''} \<and> writable (a_fs example_app) (db_directory ''x'' @ ''/'' @ m @ bloomExt) \<and>
      dumpable example_app_env (a_fs example_app) (db_directory ''x'' @ ''/'' @ m @ dataExt)" if "m @ dataExt \<in> {''000005.ldb'', ''000005.bloom''}" for m
    unfolding m [OF that] using dmp by (simp add: bloomExt_def example_app_def)
  have "\<forall>n \<in> {''000005.ldb'', ''000005.bloom''}. length (db_directory ''x'' @ ''/'' @ n) < 2 ^ 63"
    by (simp add: db_directory_def outDir_def dbDir_def)
  moreover have "card {''000005.ldb'', ''000005.bloom''} < 2 ^ 31" by (simp add: card_insert_if)
  ultimately show ?thesis unfolding ready_def using r c ex by blast
qed

definition example_result :: Result where
  "example_result = \<lparr>dbCreationTime = 0, itemNumber = 0, hierarchyFilterNumber = 0, foundInLeafBloomNoHierarchy = 0,
     foundInSSTableNoHierarchy = 0, foundInLeafBloomWithHierarchy = 0, foundInSSTableWithHierarchy = 0, foundInLeafBloom = 0,
     foundInSSTable = 0, tScanningWithoutBloom = 0, tScanningWithBloom = 0, tCreatingLeafLevel = 0, tCreatingHierarchy = 0,
     tCreatingBloomExternally = 0, tCheckingInHierarchy = 0, accessedBloomFilter = 0, percentage = 0\<rparr>"

lemma example_total: "total_occurrences example_app_env (a_fs example_app) (db_directory ''x'') ''1'' = 1"
proof -
  let ?f = "db_directory ''x'' @ ''/'' @ ''000005'' @ dataExt"
  have l: "listFilesWithExtension example_app_env (a_fs example_app) (db_directory ''x'') dataExt = [?f]"
    unfolding listFilesWithExtension_def
    by (simp add: example_app_env_def example_app_def example_path dataExt_def ends_with_def)
  have "map valData (map dumped_record example_kvs) = [''1'', ''2'']" by code_simp
  then have "occurrences example_app_env (a_fs example_app) ''1'' ?f = 1"
    using example_records unfolding example_path by (simp add: occurrences_def file_records_def example_app_env_def)
  then show ?thesis by (simp add: total_occurrences_def l)
qed

theorem bloom_scan_exact_witness:
  "\<exists>res1 s1 res2 s2. CreateBloomValue example_app_env ''x'' example_result example_app = Returns (res1, s1) \<and>
     ScanningWithBloom example_app_env ''x'' ''1'' res1 s1 = Returns (res2, s2) \<and> foundInSSTable res2 = 1"
  using bloom_scan_exact [OF example_ready, of example_result "''1''"] by (auto simp: example_total)

theorem hierarchy_search_exact_witness:
  "\<exists>res1 s1 t2 res2 s2 t3 res3 s3 t4 res4 s4. CreateBloomValue example_app_env ''x'' example_result example_app = Returns (res1, s1) \<and>
     CreateLeafHierarchyLevel example_app_env ''x'' (bloomTree_new 5) res1 s1 = Returns (t2, res2, s2) \<and>
     CreateHierarchy example_app_env ''x'' t2 res2 s2 = Returns (t3, res3, s3) \<and>
     CheckInHierarchy example_app_env t3 ''1'' res3 s3 = Returns (t4, res4, s4) \<and> foundInSSTable res4 = 1"
  using hierarchy_search_exact [OF example_ready, of 5 example_result "''1''"] by (fastforce simp: example_total split: if_splits)


end
