(* ===== verification/Main_Flow.thy ===== *)
theory Main_Flow
  imports Db_Operation
begin

text \<open>
  \<^verbatim>\<open>src/main.cpp\<close>: the experiments.  \<^verbatim>\<open>Result res;\<close> is not initialised by the source, so that its
  contents are an argument of the experiments.  A log file is written when it is closed; a
  file that cannot be opened is left alone.  Messages of the logging library are not
  modelled.
\<close>

section \<open>Files\<close>

definition append_file :: "string \<Rightarrow> string \<Rightarrow> app \<Rightarrow> app option" where
  "append_file fname text' s =
     (if \<not> writable (a_fs s) fname then None
      else Some (s\<lparr>a_fs := write_file (a_fs s) fname ((case files (a_fs s) fname of None \<Rightarrow> [] | Some c \<Rightarrow> c) @ text')\<rparr>))"

definition log_open :: "string \<Rightarrow> app \<Rightarrow> app" where
  "log_open fname s =
     s\<lparr>a_fs := (if writable (a_fs s) fname then write_file (a_fs s) fname [] else a_fs s), a_log := []\<rparr>"

definition log_close :: "string \<Rightarrow> app \<Rightarrow> app" where
  "log_close fname s =
     s\<lparr>a_fs := (if writable (a_fs s) fname then write_file (a_fs s) fname (a_log s) else a_fs s)\<rparr>"

definition writeCsvHeader :: "string \<Rightarrow> string \<Rightarrow> app \<Rightarrow> app outcome" where
  "writeCsvHeader fname headerLine s =
     (case append_file fname (headerLine @ nl) s of None \<Rightarrow> Fails (Exited 1) | Some s' \<Rightarrow> Returns s')"

section \<open>Flows\<close>

definition MainFlowMultiplyValues ::
  "app_env \<Rightarrow> string \<Rightarrow> int \<Rightarrow> int \<Rightarrow> int \<Rightarrow> int \<Rightarrow> Result \<Rightarrow> app \<Rightarrow> (Result \<times> app) outcome" where
  "MainFlowMultiplyValues e dbname item_number treeRatio persentage data_size res s =
     (let treeHierarchy = bloomTree_new treeRatio
      in and_then (DbCreation e dbname item_number persentage res s) (\<lambda>(res1, s1).
         and_then (CreateBloomValue e dbname res1 s1) (\<lambda>(res2, s2).
         and_then (CreateLeafHierarchyLevel e dbname treeHierarchy res2 s2) (\<lambda>(t3, res3, s3).
         and_then (CreateHierarchy e dbname t3 res3 s3) (\<lambda>(t4, res4, s4).
         and_then (CheckInHierarchyMultiplyValueForThreads e t4 item_number data_size s4) (\<lambda>s5.
           Returns (res4, s5)))))))"

definition MainFlow ::
  "app_env \<Rightarrow> string \<Rightarrow> int \<Rightarrow> int \<Rightarrow> string \<Rightarrow> int \<Rightarrow> Result \<Rightarrow> app \<Rightarrow> (Result \<times> app) outcome" where
  "MainFlow e dbname item_number treeRatio valuetofind persentage res s =
     (let treeHierarchy = bloomTree_new treeRatio
      in and_then (DbCreation e dbname item_number persentage res s) (\<lambda>(res1, s1).
         and_then (CreateBloomValue e dbname res1 s1) (\<lambda>(res2, s2).
         and_then (ScanningWithBloom e dbname valuetofind res2 s2) (\<lambda>(res3, s3).
           let res4 = res3\<lparr>foundInLeafBloomNoHierarchy := foundInLeafBloom res3, foundInSSTableNoHierarchy := foundInSSTable res3\<rparr>
           in
         and_then (ScanningWithoutBloom e dbname valuetofind res4 s3) (\<lambda>(res5, s5).
         and_then (CreateLeafHierarchyLevel e dbname treeHierarchy res5 s5) (\<lambda>(t6, res6, s6).
         and_then (CreateHierarchy e dbname t6 res6 s6) (\<lambda>(t7, res7, s7).
         and_then (CheckInHierarchy e t7 valuetofind res7 s7) (\<lambda>(t8, res8, s8).
           Returns (res8\<lparr>foundInLeafBloomWithHierarchy := foundInLeafBloom res8,
                          foundInSSTableWithHierarchy := foundInSSTable res8\<rparr>, s8)))))))))"

section \<open>Experiments\<close>

definition run_all :: "('s \<Rightarrow> 's outcome) list \<Rightarrow> 's \<Rightarrow> 's outcome" where
  "run_all steps x = fold (\<lambda>step r. and_then r step) steps (Returns x)"

definition logFileName :: "string \<Rightarrow> string" where
  "logFileName folderName = outDir @ folderName @ ''_log.txt''"

definition log_line :: "string list \<Rightarrow> string" where
  "log_line columns = concat (map (\<lambda>c. c @ tab) (butlast columns)) @ last columns @ nl"

text \<open>The first two experiments have no tabulator between \<^verbatim>\<open>InSST\<close> and \<^verbatim>\<open>HCr\<close>.\<close>

definition header_one :: string where
  "header_one = log_line [''DBCr'', ''BlCr'', ''InBl'', ''InSST'', ''BlScan'', ''NoBlScan'', ''LeafCr'', ''InBl'', ''InSSTHCr'',
     ''HNmb'', ''HScan'', ''BlAccess'']"

definition header_two :: string where
  "header_two = log_line [''DBCr'', ''BlCr'', ''InBl'', ''InSST'', ''BlScan'', ''NoBlScan'', ''LeafCr'', ''HCr'', ''InBl'', ''InSST'',
     ''HNmb'', ''HScan'', ''BlAccess'']"

definition csv_times :: "string \<Rightarrow> Result \<Rightarrow> app \<Rightarrow> app" where
  "csv_times fname res s =
     (case append_file fname (to_string (itemNumber res) @ '','' @ to_string (dbCreationTime res) @ nl) s of
        None \<Rightarrow> s | Some s' \<Rightarrow> s')"

definition ExpZero :: "app_env \<Rightarrow> Result \<Rightarrow> app \<Rightarrow> app outcome" where
  "ExpZero e res s =
     (let dbname = ''ExpZero'';
          logfile = logFileName ''./ExpZero'';
          s1 = log_str header_one (log_open logfile s);
          item_number = 10000000
      in and_then (run_all (map (\<lambda>i (res, s). DbCreation e (dbname @ to_string i) item_number 0 res s) [0..0])
                     (res\<lparr>itemNumber := 10000000\<rparr>, s1)) (\<lambda>(res2, s2).
           Returns (csv_times ''exp_0.csv'' res2
             (log_close logfile (cout_str (''Creation Time'' @ to_string (dbCreationTime res2) @ nl) s2)))))"

definition ExpOne :: "app_env \<Rightarrow> Result \<Rightarrow> app \<Rightarrow> app outcome" where
  "ExpOne e res s =
     (let dbname = ''ExOne'';
          valuetofind = ''Value187719'';
          logfile = logFileName ''./expOne'';
          s1 = log_str header_one (log_open logfile s);
          treeRatio = 5; item_number = 1000000
      in and_then (run_all (map (\<lambda>i (res, s). MainFlow e (dbname @ to_string i) item_number treeRatio valuetofind 0 res s) [0..0])
                     (res, s1)) (\<lambda>(res2, s2).
           Returns (csv_times ''exp_0.csv'' res2 (log_close logfile s2))))"

definition ExpTwo :: "app_env \<Rightarrow> Result \<Rightarrow> app \<Rightarrow> app outcome" where
  "ExpTwo e res s =
     (let dbname = ''ExTwo'';
          valuetofind = ''Value187719'';
          logfile = logFileName ''./expTwo'';
          s1 = log_str header_two (log_open logfile s);
          treeRatio = 5
      in and_then (run_all (map (\<lambda>(sfx, item_number) (res, s).
                       MainFlow e (dbname @ sfx) item_number treeRatio valuetofind 0 res s)
                     [(''10mln'', 10000000), (''50mln'', 50000000), (''100mln'', 100000000), (''500mln'', 500000000),
                      (''1mld'', 1000000000)])
                     (res, s1)) (\<lambda>(res2, s2). Returns (log_close logfile s2)))"

definition ExpThree :: "app_env \<Rightarrow> Result \<Rightarrow> app \<Rightarrow> app outcome" where
  "ExpThree e res s =
     (let bloomSize = 500000;
          dbname = ''ExThree'';
          valuetofind = ''Value187719'';
          item_number = 100000000;
          logfile = logFileName (''./expThree'' @ to_string bloomSize);
          s1 = log_str header_two (log_open logfile s)
      in and_then (run_all (map (\<lambda>treeRatio (res, s).
                       MainFlow e (dbname @ to_string treeRatio @ ''_'' @ to_string bloomSize) item_number treeRatio valuetofind 0 res s)
                     [3, 5, 10, 15, 20])
                     (res, s1)) (\<lambda>(res2, s2). Returns (log_close logfile s2)))"

definition ExpFour :: "app_env \<Rightarrow> Result \<Rightarrow> app \<Rightarrow> app outcome" where
  "ExpFour e res s =
     (let dbname = ''ExFour'';
          valuetofind = ''Value187719'';
          logfile = logFileName ''./expFour1000'';
          s1 = log_str header_two (log_open logfile s);
          treeRatio = 5
      in and_then (MainFlow e (dbname @ ''50mln'') 50000000 treeRatio valuetofind 0 res s1)
           (\<lambda>(res2, s2). Returns (log_close logfile s2)))"

text \<open>\<^verbatim>\<open>dbPath\<close> is computed and then not used.\<close>

definition ExpFive :: "app_env \<Rightarrow> Result \<Rightarrow> app \<Rightarrow> app outcome" where
  "ExpFive e res s =
     (let dbname = ''ExFive'';
          logfile = logFileName ''./expFive'';
          s1 = log_str header_two (log_open logfile s)
      in and_then (DbCreation e dbname 1000000 0 res s1) (\<lambda>(res2, s2). Returns (log_close logfile s2)))"

definition ExpSix :: "app_env \<Rightarrow> Result \<Rightarrow> app \<Rightarrow> app outcome" where
  "ExpSix e res s =
     (let dbname = ''ExSix'';
          logfile = logFileName ''./expSix'';
          s1 = log_str (''DBCr'' @ tab @ nl) (log_open logfile s)
      in and_then (run_all (map (\<lambda>(sfx, item_number) (res, s). DbCreation e (dbname @ sfx) item_number 0 res s)
                     [(''10mln'', 10000000), (''50mln'', 50000000), (''100mln'', 100000000), (''500mln'', 500000000)])
                     (res, s1)) (\<lambda>(res2, s2). Returns (log_close logfile s2)))"

definition ExpSeven :: "app_env \<Rightarrow> app \<Rightarrow> app outcome" where
  "ExpSeven e s =
     (let dbname = ''ExTwo'';
          keytofind = ''Key187719'';
          logfile = logFileName ''./expSeven'';
          s1 = log_str (''Key'' @ tab @ nl) (log_open logfile s)
      in and_then (run_all (map (\<lambda>sfx s. RetrieveData e (dbname @ sfx) keytofind s) [''10mln'', ''50mln'', ''100mln'', ''500mln'']) s1)
           (\<lambda>s2. Returns (log_close logfile s2)))"

definition ExpEight :: "app_env \<Rightarrow> Result \<Rightarrow> app \<Rightarrow> app outcome" where
  "ExpEight e res s =
     (let dbname = ''ExTwo'';
          keytofind = ''Key187719'';
          logfile = logFileName ''./expEight'';
          s1 = log_str (''Key'' @ tab @ nl) (log_open logfile s)
      in and_then (run_all (map (\<lambda>sfx (res, s). ScanningWithoutBloom e (dbname @ sfx) keytofind res s)
                     [''10mln'', ''50mln'', ''100mln'', ''500mln'']) (res, s1))
           (\<lambda>(res2, s2). Returns (log_close logfile s2)))"

definition ExpNine :: "app_env \<Rightarrow> Result \<Rightarrow> app \<Rightarrow> app outcome" where
  "ExpNine e res s =
     (let dbname = ''ExNine'';
          logfile = logFileName ''./expNine'';
          s1 = log_str (''DBCr'' @ tab @ nl) (log_open logfile s);
          item_number = 10000000
      in and_then (run_all (map (\<lambda>(sfx, p) (res, s). DbCreation e (dbname @ sfx) item_number p res s)
                     [(''10Proc'', 10), (''50Proc'', 50), (''80Porc'', 80)]) (res, s1))
           (\<lambda>(res2, s2). Returns (log_close logfile s2)))"

definition writeExp1Headers :: "app \<Rightarrow> app outcome" where
  "writeExp1Headers =
     writeCsvHeader ''exp_10.csv''
       (''percentage,'' @
        ''tScanningWithBloom, foundInLeafBloomNoHierarchy, foundInSSTableNoHierarchy'' @
        ''res.tScanningWithoutBloom,res.tCreatingLeafLevel,res.tCreatingHierarchy'' @
        ''res.foundInLeafBloomWithHierarchy, res.foundInSSTableWithHierarchy,'' @
        ''res.tCheckingInHierarchy,res.hierarchyFilterNumber, res.accessedBloomFilter'')"

definition exp10_line :: "Result \<Rightarrow> string" where
  "exp10_line res =
     to_string (percentage res) @ '','' @ '','' @ to_string (tScanningWithBloom res) @ '','' @ to_string (foundInLeafBloomNoHierarchy res) @
     '','' @ to_string (foundInSSTableNoHierarchy res) @ '','' @
     to_string (tScanningWithoutBloom res) @ '','' @ to_string (tCreatingLeafLevel res) @ '','' @ to_string (tCreatingHierarchy res) @
     '','' @ to_string (foundInLeafBloomWithHierarchy res) @ '','' @ to_string (foundInSSTableWithHierarchy res) @
     '','' @ to_string (tCheckingInHierarchy res) @ '','' @ to_string (hierarchyFilterNumber res) @ '','' @
     to_string (accessedBloomFilter res) @ nl"

definition writeExp10Content :: "string \<Rightarrow> Result \<Rightarrow> app \<Rightarrow> app" where
  "writeExp10Content fname res s = (case append_file fname (exp10_line res) s of None \<Rightarrow> s | Some s' \<Rightarrow> s')"

definition exp_ten_step :: "app_env \<Rightarrow> string \<Rightarrow> int \<Rightarrow> Result \<times> app \<Rightarrow> (Result \<times> app) outcome" where
  "exp_ten_step e sfx p = (\<lambda>(res, s).
     and_then (MainFlow e (''ExTen'' @ sfx) 50000000 5 ''Value1879'' p (res\<lparr>percentage := p\<rparr>) s) (\<lambda>(res1, s1).
       Returns (res1, writeExp10Content ''exp_10.csv'' res1 s1)))"

definition ExpTen :: "app_env \<Rightarrow> Result \<Rightarrow> app \<Rightarrow> app outcome" where
  "ExpTen e res s =
     (let logfile = logFileName ''./expTen'';
          s1 = log_str header_two (log_open logfile s)
      in and_then (writeExp1Headers s1) (\<lambda>s2.
         and_then (run_all (map (\<lambda>(sfx, p). exp_ten_step e sfx p)
                     [(''2Proc'', 2), (''5Proc'', 5), (''10Proc'', 10), (''40Proc'', 40), (''70Proc'', 70), (''100Proc'', 100)])
                     (res, s2)) (\<lambda>(res3, s3). Returns (log_close logfile s3))))"

definition ExpEleven :: "app_env \<Rightarrow> Result \<Rightarrow> app \<Rightarrow> app outcome" where
  "ExpEleven e res s =
     (let dbname = ''ExEleven'';
          logfile = logFileName ''./expEleven'';
          s1 = log_str (log_line [''DBCr'', ''BlCr'', ''LeafCr'', ''HCr'', ''HScan'']) (log_open logfile s);
          treeRatio = 5; data_size = 1000
      in and_then (run_all (map (\<lambda>(sfx, item_number) (res, s).
                       MainFlowMultiplyValues e (dbname @ sfx) item_number treeRatio 0 data_size res s)
                     [(''10mln'', 10000000), (''50mln'', 50000000), (''100mln'', 100000000)])
                     (res, s1)) (\<lambda>(res2, s2). Returns (log_close logfile s2)))"

definition main :: "app_env \<Rightarrow> Result \<Rightarrow> app \<Rightarrow> (int \<times> app) outcome" where
  "main e res s = and_then (ExpTen e res s) (\<lambda>s'. Returns (0, s'))"

section \<open>One run of the main flow\<close>

text \<open>What the code relies on from the engine: the directory that it reads is ready for a search.\<close>

definition engine_ready :: "app_env \<Rightarrow> string \<Rightarrow> string set \<Rightarrow> bool" where
  "engine_ready e dbname U \<longleftrightarrow>
     (\<forall>kvs w. \<exists>w'. e_put_all e (dbDir @ dbname) kvs w = (OK, w') \<and> ready e w' (db_directory dbname) U)"

lemma MainFlow_returns:
  assumes "engine_ready e dbname U" "3 \<le> r"
  shows "\<exists>res' s' w. MainFlow e dbname n r v p res s = Returns (res', s') \<and>
     e_put_all e (dbDir @ dbname) (created_records e n p (a_draws s)) (a_fs s) = (OK, w) \<and>
     foundInSSTableNoHierarchy res' = int (total_occurrences e w (db_directory dbname) v) \<and>
     foundInSSTableWithHierarchy res' = foundInSSTableNoHierarchy res' \<and>
     foundInLeafBloomWithHierarchy res' = foundInLeafBloomNoHierarchy res'"
proof -
  let ?d = "db_directory dbname"
  obtain w where w: "e_put_all e (dbDir @ dbname) (created_records e n p (a_draws s)) (a_fs s) = (OK, w)" "ready e w ?d U"
    using assms(1) unfolding engine_ready_def by blast
  obtain res1 s1 where 1: "DbCreation e dbname n p res s = Returns (res1, s1)" "a_fs s1 = w"
    using w(1) by (auto simp: DbCreation_def stream_simps)
  obtain res2 s2 where 2: "CreateBloomValue e dbname res1 s1 = Returns (res2, s2)" "filtered e w (a_fs s2) ?d"
    using CreateBloomValue_filtered [of e s1 dbname U res1] w(2) 1(2) by auto
  obtain res3 s3 where 3: "ScanningWithBloom e dbname v res2 s2 = Returns (res3, s3)" "a_fs s3 = a_fs s2"
    "foundInSSTable res3 = int (total_occurrences e w ?d v)"
    "foundInLeafBloom res3 = int (length (filter (leaf_holds e (a_fs s2) v) (blooms e (a_fs s2) ?d)))"
    using ScanningWithBloom_filtered [OF 2(2)] by blast
  let ?res4 = "res3\<lparr>foundInLeafBloomNoHierarchy := foundInLeafBloom res3, foundInSSTableNoHierarchy := foundInSSTable res3\<rparr>"
  obtain d5 s5 where 5: "ScanningWithoutBloom e dbname v ?res4 s3 = Returns (?res4\<lparr>tScanningWithoutBloom := d5\<rparr>, s5)" "a_fs s5 = a_fs s2"
    using ScanningWithoutBloom_filtered(1) [of e w s3 dbname v ?res4] 2(2) 3(2) by auto
  let ?res5 = "?res4\<lparr>tScanningWithoutBloom := d5\<rparr>"
  obtain t6 d6 s6 t7 d7 s7 where 7: "CreateLeafHierarchyLevel e dbname (bloomTree_new r) ?res5 s5 = Returns (t6, ?res5\<lparr>tCreatingLeafLevel := d6\<rparr>, s6)"
     "CreateHierarchy e dbname t6 (?res5\<lparr>tCreatingLeafLevel := d6\<rparr>) s6 = Returns (t7, ?res5\<lparr>tCreatingLeafLevel := d6, tCreatingHierarchy := d7\<rparr>, s7)"
     "a_fs s7 = a_fs s2" "searchable e (a_fs s2) ?d t7"
    using CreateHierarchy_filtered [of e w s5 dbname r ?res5] 2(2) 5(2) assms(2) by auto
  let ?res7 = "?res5\<lparr>tCreatingLeafLevel := d6, tCreatingHierarchy := d7\<rparr>"
  obtain t8 res8 s8 where 8: "CheckInHierarchy e t7 v ?res7 s7 = Returns (t8, res8, s8)"
    "foundInSSTable res8 = foundInSSTable res3" "foundInLeafBloom res8 = foundInLeafBloom res3"
    "foundInLeafBloomNoHierarchy res8 = foundInLeafBloom res3" "foundInSSTableNoHierarchy res8 = foundInSSTable res3"
    using CheckInHierarchy_filtered [of e w s7 ?d t7 v ?res7] 2(2) 3(3,4) 7(3,4) by (auto split: if_splits)
  have "MainFlow e dbname n r v p res s = Returns (res8\<lparr>foundInLeafBloomWithHierarchy := foundInLeafBloom res8,
      foundInSSTableWithHierarchy := foundInSSTable res8\<rparr>, s8)"
    by (simp only: MainFlow_def Let_def 1(1) 2(1) 3(1) 5(1) 7(1,2) 8(1) and_then_simps prod.case)
  then show ?thesis using w(1) 3(3) 8 by (intro exI) auto
qed

section \<open>Properties\<close>



end
