(* ===== verification/Thread_Pool.thy ===== *)
theory Thread_Pool
  imports Prelude "HOL-Library.Multiset"
begin

text \<open>
  \<^verbatim>\<open>src/bloom_hierarchy/threadPool.hpp\<close> and \<^verbatim>\<open>dbThreadPool.hpp\<close>.  The pool is a state machine whose steps are
  the atomic actions of the source: the increment of \<^verbatim>\<open>tasks_total\<close>, the push and the pop under
  the mutex, the reads of \<^verbatim>\<open>running\<close> and \<^verbatim>\<open>paused\<close>, the execution of a task, the decrement, and the
  actions of the owner (pausing, and after \<^verbatim>\<open>wait_for_tasks\<close> stopping and restarting the
  threads).  Any interleaving of the workers and the clients is a run.  A task is any value;
  \<^verbatim>\<open>std::uint_fast32_t\<close> has 64 bits.  Three ghost fields record which tasks were submitted, pushed
  and started.
\<close>

section \<open>State\<close>

datatype 't worker_state = Idle | Checking | Popping | Running 't | Finishing 't | Exited

text \<open>
  Where the owner of the pool is in \<^verbatim>\<open>~thread_pool\<close> (\<^term>\<open>None\<close>) or in \<^verbatim>\<open>reset\<close> (the requested count and
  \<^verbatim>\<open>was_paused\<close>): in \<^verbatim>\<open>wait_for_tasks\<close>, before the store to \<^verbatim>\<open>running\<close>, in \<^verbatim>\<open>destroy_threads\<close>.
\<close>

datatype owner_state =
    Serving
  | Waiting "(nat \<times> bool) option"
  | Stopping "(nat \<times> bool) option"
  | Joining "(nat \<times> bool) option"
  | Destroyed

record 't thread_pool =
  pl_tasks :: "'t list"
  pl_total :: u64
  pl_paused :: bool
  pl_running :: bool
  pl_thread_count :: nat
  pl_workers :: "'t worker_state list"
  pl_owner :: owner_state
  pl_pushing :: "'t list"
  pl_finished :: "'t list"
  pl_submitted :: "'t list"
  pl_pushed :: "'t list"
  pl_started :: "'t list"

definition effective_count :: "nat \<Rightarrow> nat \<Rightarrow> nat" where
  "effective_count hardware_concurrency thread_count' = (if thread_count' \<noteq> 0 then thread_count' else hardware_concurrency)"

definition create_threads :: "'t thread_pool \<Rightarrow> 't thread_pool" where
  "create_threads p = p\<lparr>pl_workers := replicate (pl_thread_count p) Idle\<rparr>"

definition thread_pool_new :: "nat \<Rightarrow> nat \<Rightarrow> 't thread_pool" where
  "thread_pool_new hardware_concurrency thread_count' =
     create_threads \<lparr>pl_tasks = [], pl_total = 0, pl_paused = False, pl_running = True,
       pl_thread_count = effective_count hardware_concurrency thread_count', pl_workers = [], pl_owner = Serving, pl_pushing = [],
       pl_finished = [], pl_submitted = [], pl_pushed = [], pl_started = []\<rparr>"

definition get_tasks_queued :: "'t thread_pool \<Rightarrow> u64" where
  "get_tasks_queued p = of_nat (length (pl_tasks p))"

definition get_tasks_running :: "'t thread_pool \<Rightarrow> u64" where
  "get_tasks_running p = pl_total p - get_tasks_queued p"

definition get_tasks_total :: "'t thread_pool \<Rightarrow> u64" where
  "get_tasks_total p = pl_total p"

definition get_thread_count :: "'t thread_pool \<Rightarrow> nat" where
  "get_thread_count p = pl_thread_count p"

section \<open>Steps\<close>

text \<open>\<^verbatim>\<open>push_task\<close> counts the task first and then queues it.\<close>

definition push_count :: "'t \<Rightarrow> 't thread_pool \<Rightarrow> 't thread_pool" where
  "push_count t p = p\<lparr>pl_total := pl_total p + 1, pl_pushing := pl_pushing p @ [t], pl_submitted := pl_submitted p @ [t]\<rparr>"

definition push_queue :: "nat \<Rightarrow> 't thread_pool \<Rightarrow> 't thread_pool" where
  "push_queue k p =
     (let t = pl_pushing p ! k
      in p\<lparr>pl_pushing := take k (pl_pushing p) @ drop (Suc k) (pl_pushing p), pl_tasks := pl_tasks p @ [t],
           pl_pushed := pl_pushed p @ [t]\<rparr>)"

definition pop_task :: "'t thread_pool \<Rightarrow> ('t \<times> 't thread_pool) option" where
  "pop_task p =
     (case pl_tasks p of
        [] \<Rightarrow> None
      | t # ts \<Rightarrow> Some (t, p\<lparr>pl_tasks := ts, pl_started := pl_started p @ [t]\<rparr>))"

definition set_worker :: "nat \<Rightarrow> 't worker_state \<Rightarrow> 't thread_pool \<Rightarrow> 't thread_pool" where
  "set_worker i ws p = p\<lparr>pl_workers := (pl_workers p)[i := ws]\<rparr>"

definition worker :: "nat \<Rightarrow> 't thread_pool \<Rightarrow> 't thread_pool" where
  "worker i p =
     (case pl_workers p ! i of
        Idle \<Rightarrow> set_worker i (if pl_running p then Checking else Exited) p
      | Checking \<Rightarrow> set_worker i (if pl_paused p then Idle else Popping) p
      | Popping \<Rightarrow> (case pop_task p of None \<Rightarrow> set_worker i Idle p | Some (t, p') \<Rightarrow> set_worker i (Running t) p')
      | Running t \<Rightarrow> set_worker i (Finishing t) (p\<lparr>pl_finished := pl_finished p @ [t]\<rparr>)
      | Finishing t \<Rightarrow> set_worker i Idle (p\<lparr>pl_total := pl_total p - 1\<rparr>)
      | Exited \<Rightarrow> p)"

text \<open>The condition under which the loop of \<^verbatim>\<open>wait_for_tasks\<close> ends.\<close>

definition wait_for_tasks_done :: "'t thread_pool \<Rightarrow> bool" where
  "wait_for_tasks_done p \<longleftrightarrow> (if \<not> pl_paused p then pl_total p = 0 else get_tasks_running p = 0)"

text \<open>All threads can be joined.\<close>

definition destroy_threads_done :: "'t thread_pool \<Rightarrow> bool" where
  "destroy_threads_done p \<longleftrightarrow> list_all (\<lambda>ws. ws = Exited) (pl_workers p)"

text \<open>The part of \<^verbatim>\<open>reset\<close> after the threads were joined.\<close>

definition reset_threads :: "nat \<Rightarrow> nat \<Rightarrow> bool \<Rightarrow> 't thread_pool \<Rightarrow> 't thread_pool" where
  "reset_threads hardware_concurrency thread_count' was_paused p =
     create_threads (p\<lparr>pl_thread_count := effective_count hardware_concurrency thread_count', pl_paused := was_paused, pl_running := True\<rparr>)"

definition destructor_begin :: "'t thread_pool \<Rightarrow> 't thread_pool" where
  "destructor_begin p = p\<lparr>pl_owner := Waiting None\<rparr>"

definition reset_begin :: "nat \<Rightarrow> 't thread_pool \<Rightarrow> 't thread_pool" where
  "reset_begin thread_count' p = p\<lparr>pl_owner := Waiting (Some (thread_count', pl_paused p)), pl_paused := True\<rparr>"

text \<open>One step of the owner inside \<^verbatim>\<open>~thread_pool\<close> or \<^verbatim>\<open>reset\<close>; a wait that is not over leaves the pool as it is.\<close>

definition owner_step :: "nat \<Rightarrow> 't thread_pool \<Rightarrow> 't thread_pool" where
  "owner_step hardware_concurrency p =
     (case pl_owner p of
        Waiting k \<Rightarrow> if wait_for_tasks_done p then p\<lparr>pl_owner := Stopping k\<rparr> else p
      | Stopping k \<Rightarrow> p\<lparr>pl_running := False, pl_owner := Joining k\<rparr>
      | Joining k \<Rightarrow>
          if \<not> destroy_threads_done p then p
          else (case k of
                  None \<Rightarrow> p\<lparr>pl_owner := Destroyed\<rparr>
                | Some (n, was_paused) \<Rightarrow> reset_threads hardware_concurrency n was_paused (p\<lparr>pl_owner := Serving\<rparr>))
      | _ \<Rightarrow> p)"

inductive pool_step :: "'t thread_pool \<Rightarrow> 't thread_pool \<Rightarrow> bool" where
  step_count: "pool_step p (push_count t p)"
| step_queue: "k < length (pl_pushing p) \<Longrightarrow> pool_step p (push_queue k p)"
| step_worker: "i < length (pl_workers p) \<Longrightarrow> pool_step p (worker i p)"
| step_pause: "pool_step p (p\<lparr>pl_paused := b\<rparr>)"
| step_destroy: "pl_owner p = Serving \<Longrightarrow> pool_step p (destructor_begin p)"
| step_reset: "pl_owner p = Serving \<Longrightarrow> pool_step p (reset_begin n p)"
| step_owner: "pool_step p (owner_step hc p)"

inductive_cases pool_stepE: "pool_step p q"

inductive reachable :: "'t thread_pool \<Rightarrow> bool" where
  reach_new: "reachable (thread_pool_new hc n)"
| reach_step: "reachable p \<Longrightarrow> pool_step p q \<Longrightarrow> reachable q"

text \<open>The pool that \<^verbatim>\<open>dbThreadPool\<close> holds; the overload without an argument asks for \<^verbatim>\<open>hardware_concurrency\<close>.\<close>

definition dbThreadPoolInit :: "nat \<Rightarrow> nat option \<Rightarrow> 't thread_pool" where
  "dbThreadPoolInit hardware_concurrency maxThreads =
     thread_pool_new hardware_concurrency (case maxThreads of Some n \<Rightarrow> n | None \<Rightarrow> hardware_concurrency)"

section \<open>Submitting\<close>

text \<open>What the promise of a submitted task holds after the task has run.\<close>

datatype ('a, 'e) promise = Value 'a | Raised 'e

definition submit_void :: "('e + unit) \<Rightarrow> (bool, 'e) promise" where
  "submit_void task = (case task of Inr () \<Rightarrow> Value True | Inl e \<Rightarrow> Raised e)"

definition submit :: "('e + 'r) \<Rightarrow> ('r, 'e) promise" where
  "submit task = (case task of Inr r \<Rightarrow> Value r | Inl e \<Rightarrow> Raised e)"

section \<open>parallelize\_loop\<close>

text \<open>
  The blocks that are pushed, for indices of a type in which the arithmetic does not overflow.  With no
  block to divide into (a pool of no threads) the division by zero is undefined in the source.
\<close>

definition parallelize_loop :: "nat \<Rightarrow> int \<Rightarrow> int \<Rightarrow> nat \<Rightarrow> (int \<times> int) list option" where
  "parallelize_loop thread_count' first_index index_after_last num_blocks =
     (if first_index = index_after_last then Some []
      else
        let the_first_index = (if index_after_last < first_index then index_after_last else first_index);
            last_index = (if index_after_last < first_index then first_index else index_after_last) - 1;
            num_blocks1 = (if num_blocks = 0 then thread_count' else num_blocks);
            total_size = nat (last_index - the_first_index + 1)
        in if num_blocks1 = 0 then None
           else
             let block_size = total_size div num_blocks1;
                 block_size1 = (if block_size = 0 then 1 else block_size);
                 num_blocks2 = (if block_size = 0 then (if 1 < total_size then total_size else 1) else num_blocks1)
             in Some (map (\<lambda>t. (int (t * block_size1) + the_first_index,
                     if t = num_blocks2 - 1 then last_index + 1 else int ((t + 1) * block_size1) + the_first_index))
                  [0..<num_blocks2]))"

section \<open>Helpers\<close>

definition synced_print :: "string list \<Rightarrow> string \<Rightarrow> string" where
  "synced_print items out_stream = fold (\<lambda>x out. out @ x) items out_stream"

definition synced_println :: "string list \<Rightarrow> string \<Rightarrow> string" where
  "synced_println items out_stream = synced_print (items @ [[CHR 0x0A]]) out_stream"

section \<open>The invariant\<close>

definition busy_task :: "'t worker_state \<Rightarrow> 't list" where
  "busy_task ws = (case ws of Running t \<Rightarrow> [t] | Finishing t \<Rightarrow> [t] | _ \<Rightarrow> [])"

definition running_task :: "'t worker_state \<Rightarrow> 't list" where
  "running_task ws = (case ws of Running t \<Rightarrow> [t] | _ \<Rightarrow> [])"

definition busy :: "'t thread_pool \<Rightarrow> 't list" where
  "busy p = concat (map busy_task (pl_workers p))"

definition executing :: "'t thread_pool \<Rightarrow> 't list" where
  "executing p = concat (map running_task (pl_workers p))"

definition pool_inv :: "'t thread_pool \<Rightarrow> bool" where
  "pool_inv p \<longleftrightarrow>
     pl_total p = of_nat (length (pl_tasks p) + length (pl_pushing p) + length (busy p)) \<and>
     mset (pl_submitted p) = mset (pl_pushing p) + mset (pl_pushed p) \<and>
     pl_pushed p = pl_started p @ pl_tasks p \<and>
     mset (pl_started p) = mset (executing p) + mset (pl_finished p) \<and>
     (pl_running p \<longrightarrow> Exited \<notin> set (pl_workers p))"

lemma concat_map_update:
  "i < length xs \<Longrightarrow> mset (concat (map f (xs[i := y]))) + mset (f (xs ! i)) = mset (concat (map f xs)) + mset (f y)"
proof -
  assume i: "i < length xs"
  have "xs = take i xs @ xs ! i # drop (Suc i) xs" "xs[i := y] = take i xs @ y # drop (Suc i) xs"
    using i by (simp_all add: id_take_nth_drop upd_conv_take_nth_drop)
  then have "mset (concat (map f xs)) = mset (concat (map f (take i xs))) + mset (f (xs ! i)) + mset (concat (map f (drop (Suc i) xs)))"
    "mset (concat (map f (xs[i := y]))) = mset (concat (map f (take i xs))) + mset (f y) + mset (concat (map f (drop (Suc i) xs)))"
    by (metis (no_types, lifting) concat.simps(2) concat_append list.simps(9) map_append mset_append union_assoc)+
  then show ?thesis by simp
qed

lemma mset_remove_nth: "k < length xs \<Longrightarrow> mset xs = mset (take k xs @ drop (Suc k) xs) + {#xs ! k#}"
  by (subst id_take_nth_drop [of k xs]) simp_all

lemma set_worker_mset:
  assumes "i < length (pl_workers p)"
  shows "mset (busy (set_worker i ws p)) + mset (busy_task (pl_workers p ! i)) = mset (busy p) + mset (busy_task ws)"
    "mset (executing (set_worker i ws p)) + mset (running_task (pl_workers p ! i)) = mset (executing p) + mset (running_task ws)"
  using concat_map_update [OF assms] by (simp_all add: busy_def executing_def set_worker_def)

lemma unbusy:
  assumes "\<forall>ws\<in>set (pl_workers p). busy_task ws = []"
  shows "busy p = []" "executing p = []"
proof -
  show "busy p = []" using assms by (simp add: busy_def)
  have "running_task ws = []" if "busy_task ws = []" for ws :: "'a worker_state"
    using that by (auto simp: busy_task_def running_task_def split: worker_state.splits)
  then show "executing p = []" using assms by (simp add: executing_def)
qed

lemma length_busy_set_worker:
  "i < length (pl_workers p) \<Longrightarrow> length (busy (set_worker i ws p)) + length (busy_task (pl_workers p ! i)) = length (busy p) + length (busy_task ws)"
  using arg_cong [OF set_worker_mset(1) [of i p ws], of size] by simp

lemma set_worker_fields [simp]:
  "pl_tasks (set_worker i ws p) = pl_tasks p" "pl_total (set_worker i ws p) = pl_total p" "pl_pushing (set_worker i ws p) = pl_pushing p"
  "pl_finished (set_worker i ws p) = pl_finished p" "pl_submitted (set_worker i ws p) = pl_submitted p" "pl_pushed (set_worker i ws p) = pl_pushed p"
  "pl_started (set_worker i ws p) = pl_started p" "pl_running (set_worker i ws p) = pl_running p" "pl_paused (set_worker i ws p) = pl_paused p"
  "pl_workers (set_worker i ws p) = (pl_workers p)[i := ws]"
  by (simp_all add: set_worker_def)

lemma busy_cong: "pl_workers p = pl_workers q \<Longrightarrow> busy p = busy q" "pl_workers p = pl_workers q \<Longrightarrow> executing p = executing q"
  by (simp_all add: busy_def executing_def)

lemma exited_update: "ws \<noteq> Exited \<Longrightarrow> Exited \<notin> set xs \<Longrightarrow> Exited \<notin> set (xs[i := ws])"
  using set_update_subset_insert [of xs i ws] by auto

lemma pool_inv_quiet:
  assumes inv: "pool_inv p" and i: "i < length (pl_workers p)"
    and quiet: "busy_task (pl_workers p ! i) = []" "busy_task ws = []" and ex: "pl_running p \<Longrightarrow> ws \<noteq> Exited"
  shows "pool_inv (set_worker i ws p)"
proof -
  have none: "running_task x = []" if "busy_task x = []" for x :: "'a worker_state"
    using that by (auto simp: busy_task_def running_task_def split: worker_state.splits)
  have "length (busy (set_worker i ws p)) = length (busy p)" "mset (executing (set_worker i ws p)) = mset (executing p)"
    using length_busy_set_worker [OF i, of ws] set_worker_mset(2) [OF i, of ws] quiet none by auto
  then show ?thesis using inv ex by (simp add: pool_inv_def exited_update)
qed

lemma pool_inv_worker:
  assumes inv: "pool_inv p" and i: "i < length (pl_workers p)"
  shows "pool_inv (worker i p)"
proof (cases "pl_workers p ! i")
  case Idle
  then show ?thesis using pool_inv_quiet [OF inv i] by (simp add: worker_def busy_task_def)
next
  case Checking
  then show ?thesis using pool_inv_quiet [OF inv i] by (simp add: worker_def busy_task_def)
next
  case Popping
  show ?thesis
  proof (cases "pl_tasks p")
    case Nil
    then show ?thesis using Popping pool_inv_quiet [OF inv i] by (simp add: worker_def pop_task_def busy_task_def)
  next
    case (Cons t ts)
    let ?p = "p\<lparr>pl_tasks := ts, pl_started := pl_started p @ [t]\<rparr>"
    have "busy ?p = busy p" "executing ?p = executing p" by (rule busy_cong; simp)+
    then show ?thesis
      using inv Popping Cons length_busy_set_worker [of i ?p "Running t"] set_worker_mset(2) [of i ?p "Running t"] i
      by (auto simp: worker_def pop_task_def pool_inv_def busy_task_def running_task_def exited_update)
  qed
next
  case (Running t)
  let ?p = "p\<lparr>pl_finished := pl_finished p @ [t]\<rparr>"
  have "busy ?p = busy p" "executing ?p = executing p" by (rule busy_cong; simp)+
  then show ?thesis
    using inv Running length_busy_set_worker [of i ?p "Finishing t"] set_worker_mset(2) [of i ?p "Finishing t"] i
    by (auto simp: worker_def pool_inv_def busy_task_def running_task_def exited_update)
next
  case (Finishing t)
  let ?p = "p\<lparr>pl_total := pl_total p - 1\<rparr>"
  define q where "q = worker i p"
  have q: "q = set_worker i Idle ?p" using Finishing by (simp add: q_def worker_def)
  have "busy ?p = busy p" "executing ?p = executing p" by (rule busy_cong; simp)+
  then have "length (busy p) = Suc (length (busy q))" "mset (executing q) = mset (executing p)"
    using Finishing length_busy_set_worker [of i ?p Idle] set_worker_mset(2) [of i ?p Idle] i by (simp_all add: q busy_task_def running_task_def)
  moreover have "pl_total q = pl_total p - 1" "pl_workers q = (pl_workers p)[i := Idle]" "pl_tasks q = pl_tasks p" "pl_pushing q = pl_pushing p"
    "pl_submitted q = pl_submitted p" "pl_pushed q = pl_pushed p" "pl_started q = pl_started p" "pl_finished q = pl_finished p"
    "pl_running q = pl_running p" by (simp_all add: q)
  ultimately have "pool_inv q" using inv by (simp add: pool_inv_def exited_update)
  then show ?thesis by (simp add: q_def)
next
  case Exited
  then show ?thesis using inv by (simp add: worker_def)
qed

lemma pool_inv_same:
  assumes "pool_inv p" "pl_workers q = pl_workers p" "pl_tasks q = pl_tasks p" "pl_pushing q = pl_pushing p" "pl_total q = pl_total p"
    "pl_submitted q = pl_submitted p" "pl_pushed q = pl_pushed p" "pl_started q = pl_started p" "pl_finished q = pl_finished p"
    "pl_running q \<longrightarrow> pl_running p"
  shows "pool_inv q"
  using assms busy_cong [of q p] by (auto simp: pool_inv_def)

lemma pool_inv_reset_threads:
  assumes "pool_inv p" "destroy_threads_done p"
  shows "pool_inv (reset_threads hc n b p)"
proof -
  have "busy p = []" "executing p = []"
    using assms(2) by (auto intro!: unbusy simp: destroy_threads_done_def list_all_iff busy_task_def)
  moreover have "busy (reset_threads hc n b p) = []" "executing (reset_threads hc n b p) = []"
    by (auto intro!: unbusy simp: reset_threads_def create_threads_def busy_task_def)
  ultimately show ?thesis using assms(1)
    by (simp add: pool_inv_def) (simp add: reset_threads_def create_threads_def)
qed

lemma pool_inv_owner:
  assumes "pool_inv p"
  shows "pool_inv (owner_step hc p)"
proof -
  have "pool_inv (p\<lparr>pl_owner := z\<rparr>)" for z using assms by (rule pool_inv_same) simp_all
  moreover have "pool_inv (p\<lparr>pl_running := False, pl_owner := z\<rparr>)" for z using assms by (rule pool_inv_same) simp_all
  moreover have "destroy_threads_done (p\<lparr>pl_owner := z\<rparr>) = destroy_threads_done p" for z by (simp add: destroy_threads_done_def)
  ultimately show ?thesis using assms
    by (auto simp: owner_step_def pool_inv_reset_threads split: owner_state.split option.split)
qed

lemma pool_inv_step:
  assumes "pool_step p q" "pool_inv p"
  shows "pool_inv q"
  using assms
proof (cases rule: pool_step.cases)
  case (step_count t)
  have "busy q = busy p" "executing q = executing p" by (rule busy_cong; simp add: step_count push_count_def)+
  then show ?thesis using assms(2) by (auto simp: step_count push_count_def pool_inv_def)
next
  case (step_queue k)
  have "busy q = busy p" "executing q = executing p" by (rule busy_cong; simp add: step_queue push_queue_def Let_def)+
  moreover have "Suc (min (length (pl_pushing p)) k + (length (pl_pushing p) - Suc k)) = length (pl_pushing p)" using step_queue by simp
  ultimately show ?thesis using assms(2) mset_remove_nth [OF step_queue(2)] step_queue(2)
    by (auto simp: step_queue(1) push_queue_def Let_def pool_inv_def)
next
  case (step_worker i)
  then show ?thesis using pool_inv_worker assms(2) by blast
next
  case (step_pause b)
  show ?thesis using assms(2) unfolding step_pause by (rule pool_inv_same) simp_all
next
  case step_destroy
  show ?thesis using assms(2) unfolding step_destroy(1) destructor_begin_def by (rule pool_inv_same) simp_all
next
  case (step_reset n)
  show ?thesis using assms(2) unfolding step_reset(1) reset_begin_def by (rule pool_inv_same) simp_all
next
  case (step_owner hc)
  then show ?thesis using pool_inv_owner assms(2) by blast
qed

lemma pool_inv_new: "pool_inv (thread_pool_new hc n :: 't thread_pool)"
proof -
  have "busy (thread_pool_new hc n :: 't thread_pool) = []" "executing (thread_pool_new hc n :: 't thread_pool) = []"
    by (auto intro!: unbusy simp: thread_pool_new_def create_threads_def busy_task_def)
  then show ?thesis by (simp add: pool_inv_def) (simp add: thread_pool_new_def create_threads_def)
qed

lemma pool_inv_reachable: "reachable p \<Longrightarrow> pool_inv p"
  by (induction rule: reachable.induct) (rule pool_inv_new, rule pool_inv_step)

section \<open>Waiting and progress\<close>

definition outstanding :: "'t thread_pool \<Rightarrow> nat" where
  "outstanding p = length (pl_tasks p) + length (pl_pushing p) + length (busy p)"

lemma total_outstanding: "pool_inv p \<Longrightarrow> pl_total p = of_nat (outstanding p)"
  by (simp add: pool_inv_def outstanding_def)

lemma executing_busy: "busy p = [] \<Longrightarrow> executing p = []"
  by (rule unbusy) (auto simp: busy_def)

lemma all_finished:
  assumes "pool_inv p" "outstanding p = 0"
  shows "mset (pl_finished p) = mset (pl_submitted p)" "pl_started p = pl_pushed p"
  using assms executing_busy [of p] by (auto simp: pool_inv_def outstanding_def)

text \<open>
  C9: In every reachable state of the pool the started tasks followed by the queued ones are the tasks
  in the order in which they were pushed, every started task is being executed or has been, and
  a submitted task is either still being pushed, queued, executing or executed, each exactly once;
  the counter is the number of unfinished tasks.  So when \<^verbatim>\<open>wait_for_tasks\<close> of a pool that is not paused
  returns (and fewer than 2 to the 64 tasks are unfinished), every submitted task has run exactly
  once.
\<close>

theorem pool_runs_every_task_once:
  assumes "reachable p"
  shows "pl_pushed p = pl_started p @ pl_tasks p \<and>
    mset (pl_submitted p) = mset (pl_pushing p) + mset (pl_tasks p) + mset (executing p) + mset (pl_finished p) \<and>
    get_tasks_total p = of_nat (outstanding p) \<and>
    (\<not> pl_paused p \<and> wait_for_tasks_done p \<and> outstanding p < 2 ^ 64 \<longrightarrow> mset (pl_finished p) = mset (pl_submitted p))"
proof (intro conjI)
  have inv: "pool_inv p" using assms by (rule pool_inv_reachable)
  then show "pl_pushed p = pl_started p @ pl_tasks p"
    "mset (pl_submitted p) = mset (pl_pushing p) + mset (pl_tasks p) + mset (executing p) + mset (pl_finished p)"
    by (auto simp: pool_inv_def)
  show "get_tasks_total p = of_nat (outstanding p)" using total_outstanding [OF inv] by (simp add: get_tasks_total_def)
  show "\<not> pl_paused p \<and> wait_for_tasks_done p \<and> outstanding p < 2 ^ 64 \<longrightarrow> mset (pl_finished p) = mset (pl_submitted p)"
  proof
    assume h: "\<not> pl_paused p \<and> wait_for_tasks_done p \<and> outstanding p < 2 ^ 64"
    then have "(of_nat (outstanding p) :: u64) = 0" using total_outstanding [OF inv] by (simp add: wait_for_tasks_done_def)
    then have "outstanding p mod 2 ^ 64 = 0" using unat_of_nat [where 'a = 64, of "outstanding p"] by simp
    then show "mset (pl_finished p) = mset (pl_submitted p)" using h all_finished [OF inv] by simp
  qed
qed

section \<open>Progress\<close>

inductive worker_run :: "'t thread_pool \<Rightarrow> 't thread_pool \<Rightarrow> bool" where
  run_done: "worker_run p p"
| run_step: "i < length (pl_workers p) \<Longrightarrow> worker_run (worker i p) q \<Longrightarrow> worker_run p q"

definition weight :: "'t worker_state \<Rightarrow> nat" where
  "weight ws = (case ws of Idle \<Rightarrow> 3 | Checking \<Rightarrow> 2 | Popping \<Rightarrow> 1 | Running _ \<Rightarrow> 5 | Finishing _ \<Rightarrow> 4 | Exited \<Rightarrow> 0)"

definition work_left :: "'t thread_pool \<Rightarrow> nat" where
  "work_left p = 5 * length (pl_tasks p) + sum_list (map weight (pl_workers p))"

lemma work_left_set_worker:
  "i < length (pl_workers p) \<Longrightarrow> work_left (set_worker i ws p) + weight (pl_workers p ! i) = work_left p + weight ws"
  using sum_list_update [of i "map weight (pl_workers p)" "weight ws"] member_le_sum_list [of "weight (pl_workers p ! i)" "map weight (pl_workers p)"]
  by (simp add: work_left_def map_update)

lemma worker_fields [simp]:
  "pl_running (worker i p) = pl_running p" "pl_paused (worker i p) = pl_paused p" "pl_pushing (worker i p) = pl_pushing p"
  "pl_submitted (worker i p) = pl_submitted p" "length (pl_workers (worker i p)) = length (pl_workers p)"
  by (auto simp: worker_def pop_task_def split: worker_state.split list.split)

text \<open>Every action of a worker other than the two spins of its idle loop does some of the work.\<close>

lemma worker_progress:
  assumes "pl_running p" "\<not> pl_paused p" "i < length (pl_workers p)" "pl_workers p ! i \<noteq> Exited"
    "pl_workers p ! i = Popping \<longrightarrow> pl_tasks p \<noteq> []"
  shows "work_left (worker i p) < work_left p"
proof (cases "pl_workers p ! i")
  case Popping
  then obtain t ts where ts: "pl_tasks p = t # ts" using assms(5) by (cases "pl_tasks p") auto
  let ?p = "p\<lparr>pl_tasks := ts, pl_started := pl_started p @ [t]\<rparr>"
  have "work_left p = work_left ?p + 5" by (simp add: work_left_def ts)
  then show ?thesis using Popping ts assms(3) work_left_set_worker [of i ?p "Running t"] by (simp add: worker_def pop_task_def weight_def)
next
  case (Running t)
  let ?p = "p\<lparr>pl_finished := pl_finished p @ [t]\<rparr>"
  have "work_left ?p = work_left p" by (simp add: work_left_def)
  then show ?thesis using Running assms(3) work_left_set_worker [of i ?p "Finishing t"] by (simp add: worker_def weight_def)
next
  case (Finishing t)
  let ?p = "p\<lparr>pl_total := pl_total p - 1\<rparr>"
  have "work_left ?p = work_left p" by (simp add: work_left_def)
  then show ?thesis using Finishing assms(3) work_left_set_worker [of i ?p Idle] by (simp add: worker_def weight_def)
qed (use assms work_left_set_worker [of i p Checking] work_left_set_worker [of i p Popping] in \<open>simp_all add: worker_def weight_def\<close>)

lemma progress_enabled:
  assumes "pool_inv p" "pl_running p" "pl_workers p \<noteq> []" "pl_pushing p = []" "outstanding p \<noteq> 0"
  shows "\<exists>i < length (pl_workers p). pl_workers p ! i \<noteq> Exited \<and> (pl_workers p ! i = Popping \<longrightarrow> pl_tasks p \<noteq> [])"
proof -
  have live: "pl_workers p ! i \<noteq> Exited" if "i < length (pl_workers p)" for i
    using assms(1,2) that by (auto simp: pool_inv_def dest: nth_mem)
  show ?thesis
  proof (cases "pl_tasks p = []")
    case True
    then have "busy p \<noteq> []" using assms(4,5) by (simp add: outstanding_def)
    then obtain i where "i < length (pl_workers p)" "busy_task (pl_workers p ! i) \<noteq> []"
      by (auto simp: busy_def in_set_conv_nth)
    then show ?thesis using live by (intro exI [of _ i]) (auto simp: busy_task_def)
  next
    case False
    then show ?thesis using live [of 0] assms(3) by (intro exI [of _ 0]) auto
  qed
qed

lemma worker_run_drains:
  assumes "pool_inv p" "pl_running p" "\<not> pl_paused p" "pl_workers p \<noteq> []" "pl_pushing p = []"
  shows "\<exists>q. worker_run p q \<and> pool_inv q \<and> outstanding q = 0 \<and> \<not> pl_paused q \<and> pl_submitted q = pl_submitted p"
  using assms
proof (induction "work_left p" arbitrary: p rule: less_induct)
  case less
  show ?case
  proof (cases "outstanding p = 0")
    case True
    then show ?thesis using less.prems run_done by blast
  next
    case False
    then obtain i where i: "i < length (pl_workers p)" "pl_workers p ! i \<noteq> Exited" "pl_workers p ! i = Popping \<longrightarrow> pl_tasks p \<noteq> []"
      using progress_enabled less.prems by blast
    have ne: "pl_workers (worker i p) \<noteq> []" using less.prems(4) worker_fields(5) [of i p] by fastforce
    obtain q where "worker_run (worker i p) q" "pool_inv q" "outstanding q = 0" "\<not> pl_paused q" "pl_submitted q = pl_submitted p"
      using less.hyps [OF worker_progress [OF less.prems(2,3) i]] pool_inv_worker [OF less.prems(1) i(1)] less.prems ne by auto
    then show ?thesis using run_step i(1) by blast
  qed
qed

lemma worker_run_reachable: "worker_run p q \<Longrightarrow> reachable p \<Longrightarrow> reachable q"
  by (induction rule: worker_run.induct) (auto intro: reach_step step_worker)


definition example_pool :: "nat thread_pool" where
  "example_pool =
     push_queue 0 (worker 1 (worker 1 (push_queue 0 (push_count 8 (push_count 7 (worker 1 (thread_pool_new 4 2)))))))"

lemmas pool_run_simps = worker_def push_queue_def push_count_def pop_task_def set_worker_def thread_pool_new_def create_threads_def
  effective_count_def

lemma example_pool_state:
  "example_pool = \<lparr>pl_tasks = [8], pl_total = 2, pl_paused = False, pl_running = True, pl_thread_count = 2,
     pl_workers = [Idle, Running 7], pl_owner = Serving, pl_pushing = [], pl_finished = [], pl_submitted = [7, 8],
     pl_pushed = [7, 8], pl_started = [7]\<rparr>"
  by (simp add: example_pool_def pool_run_simps numeral_2_eq_2)

lemma example_pool_reachable: "reachable example_pool"
  unfolding example_pool_def
  by (intro reach_step [OF _ step_queue] reach_step [OF _ step_worker] reach_step [OF _ step_count] reach_new)
    (simp_all add: pool_run_simps numeral_2_eq_2)


definition example_drained :: "nat thread_pool" where
  "example_drained = worker 0 (worker 0 (worker 1 (worker 0 (worker 0 (worker 0 (worker 1 example_pool))))))"

lemma example_drained_reachable: "reachable example_drained"
  unfolding example_drained_def
  by (intro reach_step [OF _ step_worker] example_pool_reachable) (simp_all add: example_pool_state)

theorem pool_runs_every_task_once_witness:
  "mset (pl_finished example_drained) = {#7, 8#} \<and> get_tasks_total example_drained = 0"
  using pool_runs_every_task_once [OF example_drained_reachable]
  by (simp add: example_drained_def example_pool_state worker_def pop_task_def set_worker_def wait_for_tasks_done_def
      outstanding_def busy_def busy_task_def)

section \<open>The blocks of a parallel loop\<close>

lemma upto_append: "f \<le> m \<Longrightarrow> m \<le> l \<Longrightarrow> [f..m - 1] @ [m..l - 1] = [f..l - (1::int)]"
  using upto_split1 [of f m "l - 1"] by (cases "m = l") auto

lemma blocks_prefix:
  "concat (map (\<lambda>t. [int (t * b) + f..int ((t + 1) * b) + f - 1]) [0..<k]) = [f..int (k * b) + f - 1]"
proof (induction k)
  case (Suc k)
  have "[f..int (k * b) + f - 1] @ [int (k * b) + f..int (Suc k * b) + f - 1] = [f..int (Suc k * b) + f - 1]"
    by (rule upto_append) auto
  then show ?case using Suc by simp
qed simp

lemma blocks_partition:
  assumes n: "0 < n" and fits: "int ((n - 1) * b) + f \<le> l"
  shows "concat (map (\<lambda>t. [int (t * b) + f..(if t = n - 1 then l else int ((t + 1) * b) + f) - 1]) [0..<n]) = [f..l - 1]"
proof -
  have "concat (map (\<lambda>t. [int (t * b) + f..(if t = n - 1 then l else int ((t + 1) * b) + f) - 1]) [0..<n - 1]) =
        concat (map (\<lambda>t. [int (t * b) + f..int ((t + 1) * b) + f - 1]) [0..<n - 1])"
    by (intro arg_cong [of _ _ concat] map_cong) auto
  also have "\<dots> = [f..int ((n - 1) * b) + f - 1]" by (rule blocks_prefix)
  finally have "concat (map (\<lambda>t. [int (t * b) + f..(if t = n - 1 then l else int ((t + 1) * b) + f) - 1]) ([0..<n - 1] @ [n - 1])) =
        [f..int ((n - 1) * b) + f - 1] @ [int ((n - 1) * b) + f..l - 1]" by simp
  moreover have "[0..<n] = [0..<n - 1] @ [n - 1]" using n by (cases n) auto
  ultimately show ?thesis using upto_append [OF _ fits, of f] by simp
qed



end
