(* ===== verification/Internal_Keys.thy ===== *)
theory Internal_Keys
  imports Dbformat
begin

text \<open>
  Facts on internal keys that the memtable, the levels of files and compactions share: what a key that parses
  consists of, and how lookup keys compare with it.
\<close>

section \<open>Lookup keys\<close>

definition lookup_ikey :: "string \<Rightarrow> SequenceNumber \<Rightarrow> string" where
  "lookup_ikey uk s = PutFixed64 uk (PackSequenceAndType s kValueTypeForSeek)"

lemma LookupKey_parts:
  "LookupKey_memtable_key (mk_LookupKey uk s) = PutLengthPrefixedSlice [] (lookup_ikey uk s)"
  "LookupKey_user_key (mk_LookupKey uk s) = uk" "LookupKey_internal_key (mk_LookupKey uk s) = lookup_ikey uk s"
  by (simp_all add: LookupKey_memtable_key_def LookupKey_user_key_def LookupKey_internal_key_def mk_LookupKey_def Let_def lookup_ikey_def
      PutLengthPrefixedSlice_def PutVarint32_def PutFixed64_def)

lemma length_lookup_ikey [simp]: "length (lookup_ikey uk s) = length uk + 8"
  by (simp add: lookup_ikey_def PutFixed64_def)

lemma lookup_ikey_parts [simp]:
  "ExtractUserKey (lookup_ikey uk s) = uk" "ikey_tag (lookup_ikey uk s) = PackSequenceAndType s kValueTypeForSeek" "ikey_ok (lookup_ikey uk s)"
  by (simp_all add: lookup_ikey_def)

lemma Pack_seek_less:
  assumes "s \<le> kMaxSequenceNumber" "s' \<le> kMaxSequenceNumber"
  shows "PackSequenceAndType s kValueTypeForSeek < PackSequenceAndType s' t \<longleftrightarrow> s < s'"
proof (cases "s = s'")
  case True
  have "PackSequenceAndType s t \<le> PackSequenceAndType s kTypeValue"
  proof (cases t)
    case kTypeDeletion
    have "PackSequenceAndType s kTypeDeletion = push_bit 8 s" "PackSequenceAndType s kTypeValue = push_bit 8 s OR 1"
      by (simp_all add: PackSequenceAndType_def ValueType_num_def)
    then show ?thesis using kTypeDeletion by (simp add: le_word_or2)
  qed simp
  then show ?thesis using True by (simp add: kValueTypeForSeek_def)
next
  case False
  then show ?thesis using Pack_less [OF assms, of kValueTypeForSeek t] Pack_less [OF assms(2,1), of t kValueTypeForSeek]
    by (meson linorder_less_linear order_less_asym)
qed

section \<open>Keys that parse\<close>

lemma ParseInternalKey_parts:
  assumes "ParseInternalKey k = Some p"
  shows "ExtractUserKey k = user_key p" "ikey_tag k = PackSequenceAndType (sequence p) (vtype p)"
    "sequence p \<le> kMaxSequenceNumber" "ikey_ok k"
proof -
  let ?n = "DecodeFixed64 (drop (length k - 8) k)"
  have l: "8 \<le> length k" using assms by (auto simp: ParseInternalKey_def Let_def split: if_splits)
  have s: "sequence p = drop_bit 8 ?n" and c: "(ucast ?n :: u8) = of_nat (ValueType_num (vtype p))" and u: "user_key p = take (length k - 8) k"
    using assms by (auto simp: ParseInternalKey_def Let_def ValueType_num_def split: if_splits)
  have "bit ?n i \<longleftrightarrow> bit (of_nat (ValueType_num (vtype p)) :: u8) i" if "i < 8" for i
    using that unfolding c [symmetric] by (simp add: bit_ucast_iff)
  then have "bit ?n i \<longleftrightarrow> bit (push_bit 8 (drop_bit 8 ?n) OR (of_nat (ValueType_num (vtype p)) :: u64)) i" if "i < 64" for i
    using that by (cases "i < 8") (auto simp: bit_or_iff bit_push_bit_iff bit_drop_bit_eq bit_type_byte)
  then show "ikey_tag k = PackSequenceAndType (sequence p) (vtype p)"
    unfolding ikey_tag_def s PackSequenceAndType_def by (intro bit_word_eqI) simp
  show "ExtractUserKey k = user_key p" using u by (simp add: ExtractUserKey_def)
  show "ikey_ok k" using l by (simp add: ikey_ok_def)
  have "unat (drop_bit 8 ?n) < 2 ^ 56"
    using unsigned_less [of ?n, where ?'a = nat] by (simp add: drop_bit_eq_div unat_div_distrib)
  then show "sequence p \<le> kMaxSequenceNumber" unfolding s by (simp add: kMaxSequenceNumber_def word_le_nat_alt)
qed

lemma ParseInternalKey_Some: "ParseInternalKey k = Some p \<Longrightarrow> k = AppendInternalKey [] p"
  using ParseInternalKey_parts [of k p] ikey_split [of k] by (simp add: AppendInternalKey_def)

lemma Append_parts [simp]:
  "ExtractUserKey (AppendInternalKey [] p) = user_key p" "ikey_tag (AppendInternalKey [] p) = PackSequenceAndType (sequence p) (vtype p)"
  "ikey_ok (AppendInternalKey [] p)"
  by (simp_all add: AppendInternalKey_def)

lemma lookup_ikey_Append: "lookup_ikey uk s = AppendInternalKey [] \<lparr>user_key = uk, sequence = s, vtype = kValueTypeForSeek\<rparr>"
  by (simp add: lookup_ikey_def AppendInternalKey_def)

context user_comparator
begin

text \<open>Entries that a lookup key is looking for come after it; the ones before it are newer or have a smaller user key.\<close>

lemma parsed_before_lookup:
  assumes "ParseInternalKey k = Some p" "s \<le> kMaxSequenceNumber"
  shows "ik_Compare Compare k (lookup_ikey uk s) < 0 \<longleftrightarrow> Compare (user_key p) uk < 0 \<or> user_key p = uk \<and> s < sequence p"
  using assms(2) ParseInternalKey_parts [OF assms(1)] Pack_seek_less [of s "sequence p" "vtype p"] by (simp add: ik_less)

lemma parsed_before_first:
  assumes "ParseInternalKey k = Some p"
  shows "ik_Compare Compare k (lookup_ikey uk kMaxSequenceNumber) < 0 \<longleftrightarrow> Compare (user_key p) uk < 0"
  using parsed_before_lookup [OF assms order_refl, of uk] ParseInternalKey_parts(3) [OF assms] by auto

end

end
