(* ===== verification/Random_Gen.thy ===== *)
theory Random_Gen
  imports Prelude
begin

text \<open>
  \<^verbatim>\<open>src/leveldb/util/random.h\<close>: the generator that decides on the heights of skip list nodes.  The state of
  a generator is its seed.  \<^verbatim>\<open>Next\<close> is shown to compute the product modulo the Mersenne prime that its
  comment promises, so the seed never leaves the range in which the generator cycles.
\<close>

section \<open>The generator\<close>

definition Random_new :: "u32 \<Rightarrow> u32" where
  "Random_new s =
     (let seed' = s AND 0x7fffffff
      in if seed' = 0 \<or> seed' = 2147483647 then 1 else seed')"

definition Random_Next :: "u32 \<Rightarrow> u32" where
  "Random_Next seed =
     (let product = (ucast seed * 16807 :: u64);
          seed' = (ucast (drop_bit 31 product + (product AND 2147483647)) :: u32)
      in if seed' > 2147483647 then seed' - 2147483647 else seed')"

text \<open>The value returned, and the new seed.\<close>

definition Uniform :: "u32 \<Rightarrow> u32 \<Rightarrow> u32 \<times> u32" where
  "Uniform n seed = (Random_Next seed mod n, Random_Next seed)"

definition OneIn :: "u32 \<Rightarrow> u32 \<Rightarrow> bool \<times> u32" where
  "OneIn n seed = (Random_Next seed mod n = 0, Random_Next seed)"

definition Skewed :: "u32 \<Rightarrow> u32 \<Rightarrow> u32 \<times> u32" where
  "Skewed max_log seed =
     (let (base, seed1) = Uniform (max_log + 1) seed
      in Uniform (push_bit (unat base) 1) seed1)"

section \<open>The reduction\<close>

definition good_seed :: "u32 \<Rightarrow> bool" where
  "good_seed s \<longleftrightarrow> 0 < unat s \<and> unat s < 2147483647"

lemma good_seed_new: "good_seed (Random_new s)"
proof -
  have "s AND 0x7fffffff = take_bit 31 s" by (simp add: take_bit_eq_mask mask_eq_exp_minus_1)
  moreover have "unat (take_bit 31 s) < 2 ^ 31" using take_bit_nat_less_exp [of 31 "unat s"] by (simp add: unsigned_take_bit_eq)
  moreover have "take_bit 31 s \<noteq> 2147483647 \<Longrightarrow> unat (take_bit 31 s) \<noteq> 2147483647"
    by (auto intro: unsigned_word_eqI)
  ultimately show ?thesis by (auto simp: good_seed_def Random_new_def Let_def unat_gt_0)
qed

lemma mersenne_split:
  fixes p :: nat
  shows "(p div 2 ^ 31 + p mod 2 ^ 31) mod 2147483647 = p mod 2147483647"
proof -
  have "p = p div 2 ^ 31 + p mod 2 ^ 31 + 2147483647 * (p div 2 ^ 31)"
    using div_mult_mod_eq [of p "2 ^ 31"] by simp
  then show ?thesis by (metis mod_mult_self2)
qed

lemma multiplier_coprime: "0 < s \<Longrightarrow> s < 2147483647 \<Longrightarrow> (s * 16807) mod 2147483647 \<noteq> (0::nat)"
proof
  assume s: "0 < s" "s < 2147483647" and z: "(s * 16807) mod 2147483647 = 0"
  have "coprime (2147483647 :: nat) 16807" by (simp add: coprime_iff_gcd_eq_1 gcd_non_0_nat)
  then have "2147483647 dvd s" using z by (simp add: mod_eq_0_iff_dvd coprime_dvd_mult_left_iff)
  then show False using s by (simp add: nat_dvd_not_less)
qed

lemma unat_Random_Next:
  assumes "good_seed seed"
  shows "unat (Random_Next seed) = (unat seed * 16807) mod 2147483647"
proof -
  define s where "s = unat seed"
  define p where "p = s * 16807"
  have s: "0 < s" "s < 2147483647" using assms by (simp_all add: good_seed_def s_def)
  have p: "p < 2 ^ 46" using s by (simp add: p_def)
  define r where "r = p div 2 ^ 31 + p mod 2 ^ 31"
  have q: "p div 2 ^ 31 < 16807" using s by (simp add: p_def div_less_iff_less_mult)
  have r: "r < 2147483647 + 16807" "r < 2 ^ 32" using q mod_less_divisor [of "2 ^ 31" p] unfolding r_def by simp_all
  let ?product = "(ucast seed * 16807 :: u64)"
  have prod: "unat ?product = p"
    using p by (simp add: unat_word_ariths unat_ucast_up p_def s_def)
  have "?product AND 2147483647 = take_bit 31 ?product" by (simp add: take_bit_eq_mask mask_eq_exp_minus_1)
  then have "unat (drop_bit 31 ?product + (?product AND 2147483647)) = r"
    using r prod by (simp add: unat_word_ariths unat_drop_bit_eq unsigned_take_bit_eq r_def drop_bit_eq_div take_bit_eq_mod)
  then have sd: "unat (ucast (drop_bit 31 ?product + (?product AND 2147483647)) :: u32) = r"
    using r by (simp add: unsigned_ucast_eq take_bit_nat_eq_self)
  have m: "r mod 2147483647 = p mod 2147483647" using mersenne_split [of p] by (simp add: r_def)
  then have "r \<noteq> 2147483647" using multiplier_coprime [OF s] by (auto simp: p_def)
  then have "(if 2147483647 < r then r - 2147483647 else r) = r mod 2147483647" using r by (simp add: le_mod_geq)
  moreover have "unat (Random_Next seed) = (if 2147483647 < r then r - 2147483647 else r)"
    using sd by (auto simp: Random_Next_def Let_def word_less_nat_alt unat_sub_if')
  ultimately show ?thesis using m by (simp add: p_def s_def)
qed

lemma good_seed_Next: "good_seed seed \<Longrightarrow> good_seed (Random_Next seed)"
  using multiplier_coprime [of "unat seed"] by (simp add: good_seed_def unat_Random_Next)

end
