(* ===== verification/Skiplist.thy ===== *)
theory Skiplist
  imports Random_Gen Iterators Comparator "HOL-Library.Multiset"
begin

text \<open>
  \<^verbatim>\<open>src/leveldb/db/skiplist.h\<close>.  The nodes live in an arena, here a list in which the address of a node is
  its position; \<^verbatim>\<open>head_\<close> is the first node.  A node has an array of links, one per level.  The
  searches follow links until they are told to stop, so they are partial functions, and that they return
  is part of what is shown: on every list built by \<^verbatim>\<open>Insert\<close> the links of each level form a chain
  through the nodes that reach it, in the order of the keys, and the searches, the insertion and the iterator
  are those of a sorted list.  The order of concurrent loads and stores is not modelled.
\<close>

section \<open>Lists and nodes\<close>

definition kMaxHeight :: nat where
  "kMaxHeight = 12"

record 'k sl_node =
  node_key :: 'k
  node_next :: "nat option list"

record 'k SkipList =
  sl_nodes :: "'k sl_node list"
  sl_max_height :: nat
  sl_rnd :: u32

definition nkey :: "'k SkipList \<Rightarrow> nat \<Rightarrow> 'k" where
  "nkey sl x = node_key (sl_nodes sl ! x)"

definition Node_Next :: "'k SkipList \<Rightarrow> nat \<Rightarrow> nat \<Rightarrow> nat option" where
  "Node_Next sl x n = node_next (sl_nodes sl ! x) ! n"

definition Node_SetNext :: "nat \<Rightarrow> nat \<Rightarrow> nat option \<Rightarrow> 'k SkipList \<Rightarrow> 'k SkipList" where
  "Node_SetNext x n y sl =
     sl\<lparr>sl_nodes := (sl_nodes sl)[x := (sl_nodes sl ! x)\<lparr>node_next := (node_next (sl_nodes sl ! x))[n := y]\<rparr>]\<rparr>"

text \<open>The links of a new node are set before the node is linked.\<close>

definition NewNode :: "'k \<Rightarrow> nat \<Rightarrow> 'k SkipList \<Rightarrow> nat \<times> 'k SkipList" where
  "NewNode key height sl =
     (length (sl_nodes sl), sl\<lparr>sl_nodes := sl_nodes sl @ [\<lparr>node_key = key, node_next = replicate height None\<rparr>]\<rparr>)"

definition SkipList_new :: "'k \<Rightarrow> 'k SkipList" where
  "SkipList_new any_key =
     (let sl = snd (NewNode any_key kMaxHeight \<lparr>sl_nodes = [], sl_max_height = 1, sl_rnd = Random_new 0xdeadbeef\<rparr>)
      in fold (\<lambda>i. Node_SetNext 0 i None) [0..<kMaxHeight] sl)"

function random_height_loop :: "nat \<Rightarrow> u32 \<Rightarrow> nat \<times> u32" where
  "random_height_loop height rnd =
     (if height < kMaxHeight
      then let (one, rnd') = OneIn 4 rnd in if one then random_height_loop (height + 1) rnd' else (height, rnd')
      else (height, rnd))"
  by pat_completeness auto
termination by (relation "measure (\<lambda>(height, _). kMaxHeight - height)") auto

declare random_height_loop.simps [simp del]

definition RandomHeight :: "u32 \<Rightarrow> nat \<times> u32" where
  "RandomHeight rnd = random_height_loop 1 rnd"

section \<open>Searching\<close>

definition KeyIsAfterNode :: "('k \<Rightarrow> 'k \<Rightarrow> int) \<Rightarrow> 'k SkipList \<Rightarrow> 'k \<Rightarrow> nat option \<Rightarrow> bool" where
  "KeyIsAfterNode cmp sl key n = (case n of None \<Rightarrow> False | Some a \<Rightarrow> cmp (nkey sl a) key < 0)"

text \<open>The array \<^verbatim>\<open>prev\<close> may be null.\<close>

partial_function (option) FindGreaterOrEqual_loop ::
  "('k \<Rightarrow> 'k \<Rightarrow> int) \<Rightarrow> 'k SkipList \<Rightarrow> 'k \<Rightarrow> nat \<Rightarrow> nat \<Rightarrow> nat list option \<Rightarrow> (nat option \<times> nat list option) option" where
  "FindGreaterOrEqual_loop cmp sl key x level prev =
     (let nxt = Node_Next sl x level
      in if KeyIsAfterNode cmp sl key nxt then FindGreaterOrEqual_loop cmp sl key (the nxt) level prev
         else let prev' = map_option (\<lambda>p. p[level := x]) prev
              in if level = 0 then Some (nxt, prev')
                 else FindGreaterOrEqual_loop cmp sl key x (level - 1) prev')"

definition FindGreaterOrEqual ::
  "('k \<Rightarrow> 'k \<Rightarrow> int) \<Rightarrow> 'k SkipList \<Rightarrow> 'k \<Rightarrow> nat list option \<Rightarrow> (nat option \<times> nat list option) option" where
  "FindGreaterOrEqual cmp sl key prev = FindGreaterOrEqual_loop cmp sl key 0 (sl_max_height sl - 1) prev"

partial_function (option) FindLessThan_loop :: "('k \<Rightarrow> 'k \<Rightarrow> int) \<Rightarrow> 'k SkipList \<Rightarrow> 'k \<Rightarrow> nat \<Rightarrow> nat \<Rightarrow> nat option" where
  "FindLessThan_loop cmp sl key x level =
     (let nxt = Node_Next sl x level
      in if nxt = None \<or> 0 \<le> cmp (nkey sl (the nxt)) key
         then if level = 0 then Some x else FindLessThan_loop cmp sl key x (level - 1)
         else FindLessThan_loop cmp sl key (the nxt) level)"

definition FindLessThan :: "('k \<Rightarrow> 'k \<Rightarrow> int) \<Rightarrow> 'k SkipList \<Rightarrow> 'k \<Rightarrow> nat option" where
  "FindLessThan cmp sl key = FindLessThan_loop cmp sl key 0 (sl_max_height sl - 1)"

partial_function (option) FindLast_loop :: "'k SkipList \<Rightarrow> nat \<Rightarrow> nat \<Rightarrow> nat option" where
  "FindLast_loop sl x level =
     (let nxt = Node_Next sl x level
      in if nxt = None then if level = 0 then Some x else FindLast_loop sl x (level - 1)
         else FindLast_loop sl (the nxt) level)"

definition FindLast :: "'k SkipList \<Rightarrow> nat option" where
  "FindLast sl = FindLast_loop sl 0 (sl_max_height sl - 1)"

definition Contains :: "('k \<Rightarrow> 'k \<Rightarrow> int) \<Rightarrow> 'k SkipList \<Rightarrow> 'k \<Rightarrow> bool option" where
  "Contains cmp sl key =
     (case FindGreaterOrEqual cmp sl key None of
        None \<Rightarrow> None
      | Some (x, _) \<Rightarrow> Some (case x of None \<Rightarrow> False | Some a \<Rightarrow> cmp key (nkey sl a) = 0))"

section \<open>Insertion\<close>

definition link_level :: "nat \<Rightarrow> nat list \<Rightarrow> nat \<Rightarrow> 'k SkipList \<Rightarrow> 'k SkipList" where
  "link_level x prev i sl = Node_SetNext (prev ! i) i (Some x) (Node_SetNext x i (Node_Next sl (prev ! i) i) sl)"

text \<open>The array \<^verbatim>\<open>prev\<close> is not initialised; zeros stand for what it holds.\<close>

definition Insert :: "('k \<Rightarrow> 'k \<Rightarrow> int) \<Rightarrow> 'k \<Rightarrow> 'k SkipList \<Rightarrow> 'k SkipList option" where
  "Insert cmp key sl =
     (case FindGreaterOrEqual cmp sl key (Some (replicate kMaxHeight 0)) of
        Some (_, Some prev) \<Rightarrow>
          let (height, rnd) = RandomHeight (sl_rnd sl);
              prev1 = (if height > sl_max_height sl then fold (\<lambda>i p. p[i := 0]) [sl_max_height sl..<height] prev else prev);
              sl1 = sl\<lparr>sl_rnd := rnd, sl_max_height := (if height > sl_max_height sl then height else sl_max_height sl)\<rparr>;
              (x, sl2) = NewNode key height sl1
          in Some (fold (link_level x prev1) [0..<height] sl2)
      | _ \<Rightarrow> None)"

section \<open>Iteration\<close>

text \<open>An iterator is at a node or nowhere; \<^term>\<open>None\<close> is a search that does not return.\<close>

type_synonym sl_iter = "nat option"

definition sl_key :: "'k SkipList \<Rightarrow> sl_iter \<Rightarrow> 'k" where
  "sl_key sl it = nkey sl (the it)"

definition sl_Valid :: "sl_iter \<Rightarrow> bool" where
  "sl_Valid it \<longleftrightarrow> it \<noteq> None"

definition sl_Next :: "'k SkipList \<Rightarrow> sl_iter \<Rightarrow> sl_iter" where
  "sl_Next sl it = Node_Next sl (the it) 0"

definition sl_Prev :: "('k \<Rightarrow> 'k \<Rightarrow> int) \<Rightarrow> 'k SkipList \<Rightarrow> sl_iter \<Rightarrow> sl_iter option" where
  "sl_Prev cmp sl it = map_option (\<lambda>n. if n = 0 then None else Some n) (FindLessThan cmp sl (nkey sl (the it)))"

definition sl_Seek :: "('k \<Rightarrow> 'k \<Rightarrow> int) \<Rightarrow> 'k SkipList \<Rightarrow> 'k \<Rightarrow> sl_iter option" where
  "sl_Seek cmp sl target = map_option fst (FindGreaterOrEqual cmp sl target None)"

definition sl_SeekToFirst :: "'k SkipList \<Rightarrow> sl_iter" where
  "sl_SeekToFirst sl = Node_Next sl 0 0"

definition sl_SeekToLast :: "'k SkipList \<Rightarrow> sl_iter option" where
  "sl_SeekToLast sl = map_option (\<lambda>n. if n = 0 then None else Some n) (FindLast sl)"

section \<open>Chains of links\<close>

definition hd_opt :: "'a list \<Rightarrow> 'a option \<Rightarrow> 'a option" where
  "hd_opt xs e = (case xs of [] \<Rightarrow> e | x # _ \<Rightarrow> Some x)"

lemma hd_opt_simps [simp]: "hd_opt [] e = e" "hd_opt (x # xs) e = Some x"
  by (simp_all add: hd_opt_def)

fun linked_to :: "('a \<Rightarrow> 'a option) \<Rightarrow> 'a list \<Rightarrow> 'a option \<Rightarrow> bool" where
  "linked_to nx [] e \<longleftrightarrow> True"
| "linked_to nx (a # as) e \<longleftrightarrow> nx a = hd_opt as e \<and> linked_to nx as e"

lemma linked_to_append: "linked_to nx (xs @ ys) e \<longleftrightarrow> linked_to nx xs (hd_opt ys e) \<and> linked_to nx ys e"
  by (induction xs) (auto simp: hd_opt_def split: list.splits)

lemma linked_to_cong: "(\<And>a. a \<in> set xs \<Longrightarrow> nx a = nx' a) \<Longrightarrow> linked_to nx xs e = linked_to nx' xs e"
  by (induction xs) auto

lemma linked_to_insert:
  assumes "linked_to nx (xs @ p # ys) e" "distinct (xs @ p # ys)" "n \<notin> set (xs @ p # ys)"
    and "\<And>a. a \<in> set (xs @ ys) \<Longrightarrow> nx' a = nx a" "nx' p = Some n" "nx' n = nx p"
  shows "linked_to nx' (xs @ p # n # ys) e"
proof -
  have "linked_to nx' xs (Some p)" "linked_to nx' ys e"
    using assms(1,4) linked_to_cong [of xs nx' nx "Some p"] linked_to_cong [of ys nx' nx e] by (auto simp: linked_to_append)
  then show ?thesis using assms(1,5,6) by (simp add: linked_to_append)
qed

section \<open>The invariant\<close>

definition height :: "'k SkipList \<Rightarrow> nat \<Rightarrow> nat" where
  "height sl a = length (node_next (sl_nodes sl ! a))"

definition on_level :: "'k SkipList \<Rightarrow> nat \<Rightarrow> nat list \<Rightarrow> nat list" where
  "on_level sl l as = filter (\<lambda>a. l < height sl a) as"

definition skip_inv :: "'k SkipList \<Rightarrow> nat list \<Rightarrow> bool" where
  "skip_inv sl as \<longleftrightarrow>
     distinct (0 # as) \<and> (\<forall>a \<in> set (0 # as). a < length (sl_nodes sl)) \<and> height sl 0 = kMaxHeight \<and>
     1 \<le> sl_max_height sl \<and> sl_max_height sl \<le> kMaxHeight \<and>
     (\<forall>a \<in> set as. 1 \<le> height sl a \<and> height sl a \<le> sl_max_height sl) \<and>
     (\<forall>l < kMaxHeight. linked_to (\<lambda>a. Node_Next sl a l) (0 # on_level sl l as) None)"

lemma skip_inv_ground: "skip_inv sl as \<Longrightarrow> set bs \<subseteq> set as \<Longrightarrow> on_level sl 0 bs = bs"
  by (auto simp: skip_inv_def on_level_def filter_id_conv Suc_le_eq)

lemma skip_inv_height: "skip_inv sl as \<Longrightarrow> a \<in> set as \<Longrightarrow> 1 \<le> height sl a \<and> height sl a \<le> sl_max_height sl"
  by (simp add: skip_inv_def)

lemma skip_inv_linked: "skip_inv sl as \<Longrightarrow> l < kMaxHeight \<Longrightarrow> linked_to (\<lambda>a. Node_Next sl a l) (0 # on_level sl l as) None"
  by (simp add: skip_inv_def)

lemma skip_inv_nonzero: "skip_inv sl as \<Longrightarrow> a \<in> set as \<Longrightarrow> a \<noteq> 0"
  by (metis distinct.simps(2) skip_inv_def)

lemma on_level_append: "on_level sl l (as @ bs) = on_level sl l as @ on_level sl l bs"
  by (simp add: on_level_def)

lemma on_level_subset: "l \<le> m \<Longrightarrow> set (on_level sl m as) \<subseteq> set (on_level sl l as)"
  by (auto simp: on_level_def)

section \<open>Walking along a level\<close>

text \<open>The last node of a level before a given place, and the one that follows.\<close>

definition last_before :: "'k SkipList \<Rightarrow> nat list \<Rightarrow> nat \<Rightarrow> nat" where
  "last_before sl as l = last (0 # on_level sl l as)"

lemma Next_last_before:
  assumes "skip_inv sl (as @ bs)" "l < kMaxHeight"
  shows "Node_Next sl (last_before sl as l) l = hd_opt (on_level sl l bs) None"
proof -
  have "linked_to (\<lambda>a. Node_Next sl a l) ((0 # on_level sl l as) @ on_level sl l bs) None"
    using assms by (simp add: skip_inv_def on_level_append)
  moreover have "0 # on_level sl l as = butlast (0 # on_level sl l as) @ [last_before sl as l]"
    unfolding last_before_def by (rule append_butlast_last_id [symmetric]) simp
  ultimately show ?thesis by (metis linked_to.simps(2) linked_to_append hd_opt_simps(1))
qed

lemma walk_level:
  assumes "linked_to nx (xs @ x # ys) e" and "\<And>a y. nx a = Some y \<Longrightarrow> y \<in> set ys \<Longrightarrow> f a = f y"
  shows "f x = f (last (x # ys))"
  using assms
proof (induction ys arbitrary: xs x)
  case (Cons y ys)
  have "nx x = Some y" using Cons.prems(1) by (simp add: linked_to_append)
  then have "f x = f y" using Cons.prems(2) by simp
  moreover have "linked_to nx ((xs @ [x]) @ y # ys) e" using Cons.prems(1) by simp
  ultimately show ?case using Cons.IH [of "xs @ [x]" y] Cons.prems(2) by simp
qed simp

lemma walk_to_last:
  assumes inv: "skip_inv sl (as @ bs)" "l < kMaxHeight"
    and x: "x \<in> set (0 # on_level sl l as)"
    and step: "\<And>a y. Node_Next sl a l = Some y \<Longrightarrow> y \<in> set as \<Longrightarrow> f a = f y"
  shows "f x = f (last_before sl as l)"
proof -
  obtain us vs where split: "0 # on_level sl l as = us @ x # vs" using x by (meson split_list)
  have "linked_to (\<lambda>a. Node_Next sl a l) ((0 # on_level sl l as) @ on_level sl l bs) None"
    using inv by (simp add: skip_inv_def on_level_append)
  then have "linked_to (\<lambda>a. Node_Next sl a l) (us @ x # vs) (hd_opt (on_level sl l bs) None)"
    unfolding linked_to_append split by simp
  moreover have "set vs \<subseteq> set as" using split by (cases us) (auto simp: on_level_def dest!: arg_cong [of _ _ set])
  ultimately have "f x = f (last (x # vs))" using step by (intro walk_level) auto
  then show ?thesis using split by (simp add: last_before_def)
qed

lemma last_before_lower: "last_before sl as (Suc l) \<in> set (0 # on_level sl l as)"
proof -
  have "last (0 # on_level sl (Suc l) as) \<in> set (0 # on_level sl (Suc l) as)" by (rule last_in_set) simp
  then show ?thesis using on_level_subset [of l "Suc l" sl as] by (auto simp: last_before_def)
qed

section \<open>The searches return\<close>

definition prev_array :: "'k SkipList \<Rightarrow> nat list \<Rightarrow> nat \<Rightarrow> nat list \<Rightarrow> nat list" where
  "prev_array sl as n p = fold (\<lambda>l p. p[l := last_before sl as l]) (rev [0..<n]) p"

lemma prev_array_Suc: "prev_array sl as (Suc n) p = prev_array sl as n (p[n := last_before sl as n])"
  by (simp add: prev_array_def)

lemma length_prev_array [simp]: "length (prev_array sl as n p) = length p"
proof (induction n arbitrary: p)
  case (Suc n)
  then show ?case by (simp add: prev_array_def)
qed (simp add: prev_array_def)

lemma nth_prev_array: "i < length p \<Longrightarrow> prev_array sl as n p ! i = (if i < n then last_before sl as i else p ! i)"
proof (induction n arbitrary: p)
  case (Suc n)
  then show ?case by (auto simp: prev_array_Suc less_Suc_eq)
qed (simp add: prev_array_def)

text \<open>The nodes before a key are a prefix of the nodes, since the keys are sorted.\<close>

definition before :: "('k \<Rightarrow> 'k \<Rightarrow> int) \<Rightarrow> 'k SkipList \<Rightarrow> 'k \<Rightarrow> nat list \<Rightarrow> nat list \<Rightarrow> bool" where
  "before cmp sl key as bs \<longleftrightarrow> (\<forall>a \<in> set as. cmp (nkey sl a) key < 0) \<and> (\<forall>b \<in> set bs. \<not> cmp (nkey sl b) key < 0)"

lemma stops_at_last_before:
  assumes "skip_inv sl (as @ bs)" "before cmp sl key as bs" "l < kMaxHeight" "Node_Next sl (last_before sl as l) l = Some y"
  shows "\<not> cmp (nkey sl y) key < 0"
proof -
  have "y \<in> set bs" using assms Next_last_before [OF assms(1,3)] by (auto simp: hd_opt_def on_level_def split: list.splits dest!: arg_cong [of _ _ set])
  then show ?thesis using assms(2) by (simp add: before_def)
qed

lemma FindGreaterOrEqual_loop_returns:
  assumes inv: "skip_inv sl (as @ bs)" and bef: "before cmp sl key as bs"
    and "level < kMaxHeight" "x \<in> set (0 # on_level sl level as)"
  shows "FindGreaterOrEqual_loop cmp sl key x level prev = Some (hd_opt bs None, map_option (prev_array sl as (Suc level)) prev)"
  using assms(3,4)
proof (induction level arbitrary: x prev)
  case 0
  let ?f = "\<lambda>x. FindGreaterOrEqual_loop cmp sl key x 0 prev"
  have "?f x = ?f (last_before sl as 0)"
    by (rule walk_to_last [OF inv 0]) (use bef in \<open>subst FindGreaterOrEqual_loop.simps; simp add: KeyIsAfterNode_def before_def\<close>)
  moreover have "on_level sl 0 bs = bs" using inv by (rule skip_inv_ground) simp
  ultimately show ?case
    using stops_at_last_before [OF inv bef 0(1)] Next_last_before [OF inv 0(1)]
    by (subst (asm) (2) FindGreaterOrEqual_loop.simps) (auto simp: KeyIsAfterNode_def Let_def prev_array_def split: option.splits)
next
  case (Suc level)
  let ?f = "\<lambda>x. FindGreaterOrEqual_loop cmp sl key x (Suc level) prev"
  have "?f x = ?f (last_before sl as (Suc level))"
    by (rule walk_to_last [OF inv Suc.prems]) (use bef in \<open>subst FindGreaterOrEqual_loop.simps; simp add: KeyIsAfterNode_def before_def\<close>)
  also have "\<dots> = FindGreaterOrEqual_loop cmp sl key (last_before sl as (Suc level)) level
      (map_option (\<lambda>p. p[Suc level := last_before sl as (Suc level)]) prev)"
    using stops_at_last_before [OF inv bef Suc.prems(1)]
    by (subst FindGreaterOrEqual_loop.simps) (auto simp: KeyIsAfterNode_def Let_def split: option.splits)
  also have "\<dots> = Some (hd_opt bs None, map_option (prev_array sl as (Suc (Suc level))) prev)"
    using Suc.IH [OF _ last_before_lower] Suc.prems(1) by (cases prev) (simp_all add: prev_array_Suc [of sl as "Suc level"])
  finally show ?case .
qed

lemma FindLessThan_loop_returns:
  assumes inv: "skip_inv sl (as @ bs)" and bef: "before cmp sl key as bs"
    and "level < kMaxHeight" "x \<in> set (0 # on_level sl level as)"
  shows "FindLessThan_loop cmp sl key x level = Some (last (0 # as))"
  using assms(3,4)
proof (induction level arbitrary: x)
  case 0
  have "FindLessThan_loop cmp sl key x 0 = FindLessThan_loop cmp sl key (last_before sl as 0) 0"
    by (rule walk_to_last [OF inv 0]) (use bef in \<open>subst FindLessThan_loop.simps; force simp: before_def\<close>)
  moreover have "on_level sl 0 as = as" using inv by (rule skip_inv_ground) simp
  ultimately show ?case
    using stops_at_last_before [OF inv bef 0(1)]
    by (subst (asm) (2) FindLessThan_loop.simps) (auto simp: Let_def last_before_def not_less)
next
  case (Suc level)
  have "FindLessThan_loop cmp sl key x (Suc level) = FindLessThan_loop cmp sl key (last_before sl as (Suc level)) (Suc level)"
    by (rule walk_to_last [OF inv Suc.prems]) (use bef in \<open>subst FindLessThan_loop.simps; force simp: before_def\<close>)
  also have "\<dots> = FindLessThan_loop cmp sl key (last_before sl as (Suc level)) level"
    using stops_at_last_before [OF inv bef Suc.prems(1)]
    by (subst FindLessThan_loop.simps) (auto simp: Let_def not_less)
  finally show ?case using Suc.IH [OF _ last_before_lower] Suc.prems(1) by simp
qed

lemma FindLast_loop_returns:
  assumes inv: "skip_inv sl as" and "level < kMaxHeight" "x \<in> set (0 # on_level sl level as)"
  shows "FindLast_loop sl x level = Some (last (0 # as))"
  using assms(2,3)
proof (induction level arbitrary: x)
  case 0
  have "FindLast_loop sl x 0 = FindLast_loop sl (last_before sl as 0) 0"
    by (rule walk_to_last [where bs = "[]"]) (use inv 0 in \<open>simp_all add: FindLast_loop.simps\<close>)
  then show ?case
    using Next_last_before [of sl as "[]" 0] inv 0(1) skip_inv_ground [OF inv subset_refl]
    by (subst (asm) (2) FindLast_loop.simps) (simp add: on_level_def last_before_def)
next
  case (Suc level)
  have "FindLast_loop sl x (Suc level) = FindLast_loop sl (last_before sl as (Suc level)) (Suc level)"
    by (rule walk_to_last [where bs = "[]"]) (use inv Suc.prems in \<open>simp_all add: FindLast_loop.simps\<close>)
  also have "\<dots> = FindLast_loop sl (last_before sl as (Suc level)) level"
    using Next_last_before [of sl as "[]" "Suc level"] inv Suc.prems(1)
    by (subst FindLast_loop.simps) (simp add: on_level_def)
  finally show ?case using Suc.IH [OF _ last_before_lower] Suc.prems(1) by simp
qed

lemma top_level: "skip_inv sl as \<Longrightarrow> sl_max_height sl - 1 < kMaxHeight" "skip_inv sl as \<Longrightarrow> Suc (sl_max_height sl - 1) = sl_max_height sl"
  by (auto simp: skip_inv_def)

lemma FindGreaterOrEqual_returns:
  assumes "skip_inv sl (as @ bs)" "before cmp sl key as bs"
  shows "FindGreaterOrEqual cmp sl key prev = Some (hd_opt bs None, map_option (prev_array sl as (sl_max_height sl)) prev)"
  using FindGreaterOrEqual_loop_returns [OF assms top_level(1) [OF assms(1)]] top_level(2) [OF assms(1)]
  by (simp add: FindGreaterOrEqual_def)

lemma FindLessThan_returns:
  assumes "skip_inv sl (as @ bs)" "before cmp sl key as bs"
  shows "FindLessThan cmp sl key = Some (last (0 # as))"
  using FindLessThan_loop_returns [OF assms top_level(1) [OF assms(1)]] by (simp add: FindLessThan_def)

lemma FindLast_returns:
  assumes "skip_inv sl as"
  shows "FindLast sl = Some (last (0 # as))"
  using FindLast_loop_returns [OF assms top_level(1) [OF assms]] by (simp add: FindLast_def)

section \<open>Insertion keeps the chains\<close>

lemma random_height_bounds: "1 \<le> h \<Longrightarrow> h \<le> kMaxHeight \<Longrightarrow> 1 \<le> fst (random_height_loop h r) \<and> fst (random_height_loop h r) \<le> kMaxHeight"
proof (induction h r rule: random_height_loop.induct)
  case (1 h r)
  show ?case using 1 random_height_loop.simps [of h r] by (auto split: prod.splits if_splits)
qed

lemma RandomHeight_bounds: "RandomHeight r = (h, r') \<Longrightarrow> 1 \<le> h \<and> h \<le> kMaxHeight"
  using random_height_bounds [of 1 r] by (simp add: RandomHeight_def kMaxHeight_def)

lemma SetNext_simps [simp]:
  "length (sl_nodes (Node_SetNext x n y sl)) = length (sl_nodes sl)" "sl_max_height (Node_SetNext x n y sl) = sl_max_height sl"
  "sl_rnd (Node_SetNext x n y sl) = sl_rnd sl"
  by (simp_all add: Node_SetNext_def)

lemma height_SetNext [simp]: "height (Node_SetNext x n y sl) a = height sl a"
  by (cases "x < length (sl_nodes sl)") (auto simp: height_def Node_SetNext_def nth_list_update list_update_beyond)

lemma nkey_SetNext [simp]: "nkey (Node_SetNext x n y sl) a = nkey sl a"
  by (cases "x < length (sl_nodes sl)") (auto simp: nkey_def Node_SetNext_def nth_list_update list_update_beyond)

lemma Next_SetNext:
  "x < length (sl_nodes sl) \<Longrightarrow> n < height sl x \<Longrightarrow> Node_Next (Node_SetNext x n y sl) a m = (if a = x \<and> m = n then y else Node_Next sl a m)"
  by (auto simp: Node_Next_def Node_SetNext_def height_def nth_list_update)

lemma link_level_simps [simp]:
  "length (sl_nodes (link_level x p i sl)) = length (sl_nodes sl)" "sl_max_height (link_level x p i sl) = sl_max_height sl"
  "sl_rnd (link_level x p i sl) = sl_rnd sl" "height (link_level x p i sl) a = height sl a" "nkey (link_level x p i sl) a = nkey sl a"
  by (simp_all add: link_level_def)

lemma fold_link_level_simps [simp]:
  "length (sl_nodes (fold (link_level x p) is sl)) = length (sl_nodes sl)" "sl_max_height (fold (link_level x p) is sl) = sl_max_height sl"
  "height (fold (link_level x p) is sl) a = height sl a" "nkey (fold (link_level x p) is sl) a = nkey sl a"
  by (induction "is" arbitrary: sl) auto

lemma Next_fold_link_level:
  assumes "x < length (sl_nodes sl)" "m \<le> height sl x"
    and "\<And>i. i < m \<Longrightarrow> p ! i < length (sl_nodes sl) \<and> p ! i \<noteq> x \<and> i < height sl (p ! i)"
  shows "Node_Next (fold (link_level x p) [0..<m] sl) a l =
     (if l < m then if a = x then Node_Next sl (p ! l) l else if a = p ! l then Some x else Node_Next sl a l else Node_Next sl a l)"
  using assms(2,3)
proof (induction m arbitrary: a l)
  case (Suc m)
  define s' where "s' = fold (link_level x p) [0..<m] sl"
  have at: "m < height s' x" "m < height s' (p ! m)" "p ! m \<noteq> x" "p ! m < length (sl_nodes s')" "x < length (sl_nodes s')"
    using Suc.prems assms(1) by (auto simp: s'_def)
  have IH: "Node_Next s' a l =
     (if l < m then if a = x then Node_Next sl (p ! l) l else if a = p ! l then Some x else Node_Next sl a l else Node_Next sl a l)" for a l
    using Suc.IH [of a l] Suc.prems unfolding s'_def by simp
  have "Node_Next (link_level x p m s') a l =
      (if l = m then if a = p ! m then Some x else if a = x then Node_Next s' (p ! m) m else Node_Next s' a l else Node_Next s' a l)"
    using at by (simp add: link_level_def Next_SetNext)
  moreover have "fold (link_level x p) [0..<Suc m] sl = link_level x p m s'" by (simp add: s'_def)
  ultimately show ?case using at(3) by (simp add: IH less_Suc_eq)
qed simp

lemma NewNode_simps:
  assumes "NewNode key h sl = (x, sl2)"
  shows "x = length (sl_nodes sl)" "length (sl_nodes sl2) = Suc (length (sl_nodes sl))" "sl_max_height sl2 = sl_max_height sl"
    "height sl2 x = h" "nkey sl2 x = key" "a < x \<Longrightarrow> height sl2 a = height sl a" "a < x \<Longrightarrow> nkey sl2 a = nkey sl a"
    "a < x \<Longrightarrow> Node_Next sl2 a l = Node_Next sl a l"
  using assms by (auto simp: NewNode_def height_def nkey_def Node_Next_def nth_append)

lemma last_before_mem: "last_before sl as l \<in> set (0 # on_level sl l as)"
  unfolding last_before_def by (rule last_in_set) simp

lemma inserted_level:
  assumes inv: "skip_inv sl (as @ bs)" and l: "l < kMaxHeight" and n: "n \<notin> set (0 # as @ bs)"
    and nx: "\<And>a. a \<in> set (0 # as @ bs) \<Longrightarrow> a \<noteq> last_before sl as l \<Longrightarrow> nx a = Node_Next sl a l"
      "nx (last_before sl as l) = Some n" "nx n = Node_Next sl (last_before sl as l) l"
  shows "linked_to nx (0 # on_level sl l as @ n # on_level sl l bs) None"
proof -
  let ?p = "last_before sl as l" and ?xs = "butlast (0 # on_level sl l as)"
  have split: "0 # on_level sl l as = ?xs @ [?p]"
    unfolding last_before_def by (rule append_butlast_last_id [symmetric]) simp
  have all: "0 # on_level sl l (as @ bs) = ?xs @ ?p # on_level sl l bs"
    using split by (simp add: on_level_append)
  have d: "distinct (0 # on_level sl l (as @ bs))" using inv by (auto simp: skip_inv_def on_level_def)
  have sub: "set (0 # on_level sl l (as @ bs)) \<subseteq> set (0 # as @ bs)" by (auto simp: on_level_def)
  have "linked_to nx (?xs @ ?p # n # on_level sl l bs) None"
  proof (rule linked_to_insert)
    show "linked_to (\<lambda>a. Node_Next sl a l) (?xs @ ?p # on_level sl l bs) None"
      using inv l unfolding all [symmetric] by (simp add: skip_inv_def)
    show "distinct (?xs @ ?p # on_level sl l bs)" using d unfolding all .
    show "n \<notin> set (?xs @ ?p # on_level sl l bs)" using sub n unfolding all by blast
    show "nx a = Node_Next sl a l" if "a \<in> set (?xs @ on_level sl l bs)" for a
      using that sub d nx(1) [of a] unfolding all by auto
  qed (use nx in simp_all)
  then show ?thesis using split by (metis append.assoc append_Cons append_Nil)
qed

lemma prev_for_insert:
  assumes inv: "skip_inv sl (as @ bs)" and h: "h \<le> kMaxHeight" "i < h"
    and p: "p = prev_array sl as (sl_max_height sl) (replicate kMaxHeight 0)"
  shows "(if h > sl_max_height sl then fold (\<lambda>i p. p[i := 0]) [sl_max_height sl..<h] p else p) ! i = last_before sl as i"
proof -
  have zero: "\<forall>i < length q. fold (\<lambda>i p. p[i := 0]) js q ! i = (if i \<in> set js then 0 else q ! i)" for js and q :: "nat list"
    by (induction js arbitrary: q) (auto simp: nth_list_update)
  have "last_before sl as i = 0" if "sl_max_height sl \<le> i"
  proof -
    have "on_level sl i as = []" using skip_inv_height [OF inv] that by (fastforce simp: on_level_def filter_empty_conv)
    then show ?thesis by (simp add: last_before_def)
  qed
  then show ?thesis using zero [where q = p and js = "[sl_max_height sl..<h]"] h by (auto simp: p nth_prev_array)
qed

lemma skip_inv_inserted:
  assumes inv: "skip_inv sl (as @ bs)" and h: "1 \<le> h" "h \<le> kMaxHeight" and n: "n = length (sl_nodes sl)"
    and len: "length (sl_nodes sl') = Suc n" and mx: "sl_max_height sl' = max h (sl_max_height sl)"
    and ht: "height sl' n = h" "\<And>a. a \<in> set (0 # as @ bs) \<Longrightarrow> height sl' a = height sl a"
    and nx: "\<And>a l. a \<in> set (0 # as @ bs) \<Longrightarrow> Node_Next sl' a l = (if l < h \<and> a = last_before sl as l then Some n else Node_Next sl a l)"
      "\<And>l. l < h \<Longrightarrow> Node_Next sl' n l = Node_Next sl (last_before sl as l) l"
  shows "skip_inv sl' (as @ n # bs)"
proof -
  have lt: "a < n" if "a \<in> set (0 # as @ bs)" for a using inv that n by (auto simp: skip_inv_def)
  have lev: "on_level sl' l cs = on_level sl l cs" if "set cs \<subseteq> set (as @ bs)" for l cs
    unfolding on_level_def by (rule filter_cong) (use that ht(2) in auto)
  have in0: "last_before sl as l \<in> set (0 # as @ bs)" for l using last_before_mem [of sl as l] by (auto simp: on_level_def)
  have "linked_to (\<lambda>a. Node_Next sl' a l) (0 # on_level sl' l (as @ n # bs)) None" if l: "l < kMaxHeight" for l
  proof (cases "l < h")
    case True
    have "on_level sl' l (as @ n # bs) = on_level sl l as @ n # on_level sl l bs"
      using True lev [of as l] lev [of bs l] ht(1) by (simp add: on_level_def)
    moreover have "linked_to (\<lambda>a. Node_Next sl' a l) (0 # on_level sl l as @ n # on_level sl l bs) None"
      using inv l by (rule inserted_level) (use True nx lt in0 [of l] in auto)
    ultimately show ?thesis by simp
  next
    case False
    have "on_level sl' l (as @ n # bs) = on_level sl l (as @ bs)"
      using False lev [of as l] lev [of bs l] ht(1) by (simp add: on_level_def)
    moreover have "linked_to (\<lambda>a. Node_Next sl' a l) (0 # on_level sl l (as @ bs)) None = linked_to (\<lambda>a. Node_Next sl a l) (0 # on_level sl l (as @ bs)) None"
      by (rule linked_to_cong) (use False nx(1) in \<open>auto simp: on_level_def\<close>)
    ultimately show ?thesis using inv l by (simp add: skip_inv_def)
  qed
  moreover have "n \<notin> set (0 # as @ bs)" using lt by blast
  ultimately show ?thesis
    using inv ht lt h len mx unfolding skip_inv_def by (auto simp: less_Suc_eq le_max_iff_disj)
qed

lemma Insert_inv:
  assumes inv: "skip_inv sl (as @ bs)" and bef: "before cmp sl key as bs"
  shows "\<exists>sl' n. Insert cmp key sl = Some sl' \<and> skip_inv sl' (as @ n # bs) \<and> nkey sl' n = key \<and> (\<forall>a \<in> set (as @ bs). nkey sl' a = nkey sl a)"
proof -
  obtain h r where hr: "RandomHeight (sl_rnd sl) = (h, r)" by fastforce
  define p where "p = prev_array sl as (sl_max_height sl) (replicate kMaxHeight 0)"
  define q where "q = (if h > sl_max_height sl then fold (\<lambda>i p. p[i := 0]) [sl_max_height sl..<h] p else p)"
  define sl1 where "sl1 = sl\<lparr>sl_rnd := r, sl_max_height := (if h > sl_max_height sl then h else sl_max_height sl)\<rparr>"
  obtain n sl2 where new: "NewNode key h sl1 = (n, sl2)" by fastforce
  define sl' where "sl' = fold (link_level n q) [0..<h] sl2"
  have h: "1 \<le> h" "h \<le> kMaxHeight" using RandomHeight_bounds [OF hr] by auto
  have ins: "Insert cmp key sl = Some sl'"
    using new hr by (simp add: Insert_def FindGreaterOrEqual_returns [OF inv bef] p_def [symmetric] q_def [symmetric] sl1_def [symmetric] sl'_def)
  note N = NewNode_simps [OF new]
  have n: "n = length (sl_nodes sl)" using N(1) by (simp add: sl1_def)
  have old: "height sl2 a = height sl a" "nkey sl2 a = nkey sl a" "Node_Next sl2 a l = Node_Next sl a l" if "a < n" for a l
    using N(6-8) that by (simp_all add: sl1_def height_def nkey_def Node_Next_def)
  have lt: "a < n" if "a \<in> set (0 # as @ bs)" for a using inv that n by (auto simp: skip_inv_def)
  have q: "q ! i = last_before sl as i" if "i < h" for i
    using prev_for_insert [OF inv h(2) that p_def] by (simp add: q_def)
  have in0: "last_before sl as i < n" "i < h \<Longrightarrow> i < height sl (last_before sl as i)" for i
    using last_before_mem [of sl as i] lt h inv by (auto simp: on_level_def skip_inv_def)
  have nx: "Node_Next sl' a l = (if l < h then if a = n then Node_Next sl2 (q ! l) l else if a = q ! l then Some n else Node_Next sl2 a l
      else Node_Next sl2 a l)" for a l
    unfolding sl'_def by (rule Next_fold_link_level) (use N(1,2,4) n in0 old(1) in \<open>auto simp: q less_imp_neq less_Suc_eq\<close>)
  have "length (sl_nodes sl') = Suc n" "sl_max_height sl' = max h (sl_max_height sl)" using N(2,3) n by (simp_all add: sl'_def sl1_def)
  moreover have "height sl' n = h" "\<And>a. a \<in> set (0 # as @ bs) \<Longrightarrow> height sl' a = height sl a"
    using N(4) old(1) lt by (simp_all add: sl'_def)
  moreover have "Node_Next sl' a l = (if l < h \<and> a = last_before sl as l then Some n else Node_Next sl a l)" if "a \<in> set (0 # as @ bs)" for a l
    using lt [OF that] old(3) by (auto simp: nx q)
  moreover have "Node_Next sl' n l = Node_Next sl (last_before sl as l) l" if "l < h" for l
    using that old(3) in0(1) by (simp add: nx q)
  ultimately have "skip_inv sl' (as @ n # bs)" by (rule skip_inv_inserted [OF inv h n])
  moreover have "nkey sl' n = key" "\<forall>a \<in> set (as @ bs). nkey sl' a = nkey sl a"
    using N(5) old(2) lt by (auto simp: sl'_def)
  ultimately show ?thesis using ins by blast
qed

lemma skip_inv_new: "skip_inv (SkipList_new k) []"
  by (simp add: skip_inv_def SkipList_new_def NewNode_def kMaxHeight_def Node_SetNext_def Node_Next_def height_def on_level_def
      upt_rec numeral_nat less_Suc_eq)

section \<open>A skip list is a sorted list\<close>

text \<open>What a comparator of keys must fulfil; different keys may be equal in the order.\<close>

locale skip_order =
  fixes cmp :: "'k \<Rightarrow> 'k \<Rightarrow> int"
    and ok :: "'k \<Rightarrow> bool"
  assumes order_swap: "ok a \<Longrightarrow> ok b \<Longrightarrow> cmp a b < 0 \<longleftrightarrow> 0 < cmp b a"
    and order_trans: "ok a \<Longrightarrow> ok b \<Longrightarrow> ok c \<Longrightarrow> cmp a b < 0 \<Longrightarrow> cmp b c < 0 \<Longrightarrow> cmp a c < 0"
    and order_equal: "ok a \<Longrightarrow> ok b \<Longrightarrow> ok c \<Longrightarrow> cmp b c = 0 \<Longrightarrow> cmp a c < 0 \<Longrightarrow> cmp a b < 0"

definition skip_list :: "('k \<Rightarrow> 'k \<Rightarrow> int) \<Rightarrow> ('k \<Rightarrow> bool) \<Rightarrow> 'k SkipList \<Rightarrow> nat list \<Rightarrow> bool" where
  "skip_list cmp ok sl as \<longleftrightarrow> skip_inv sl as \<and> sorted_keys cmp ok (map (nkey sl) as)"

definition sl_rel :: "nat list \<Rightarrow> sl_iter \<Rightarrow> nat option \<Rightarrow> bool" where
  "sl_rel as it c \<longleftrightarrow> (case c of None \<Rightarrow> it = None | Some i \<Rightarrow> i < length as \<and> it = Some (as ! i))"

text \<open>The iterator with the searches that do not return as states of their own.\<close>

definition sli_Valid :: "sl_iter option \<Rightarrow> bool" where
  "sli_Valid s = (case s of None \<Rightarrow> False | Some it \<Rightarrow> sl_Valid it)"

definition sli_kv :: "'k SkipList \<Rightarrow> sl_iter option \<Rightarrow> 'k \<times> unit" where
  "sli_kv sl s = (sl_key sl (the s), ())"

definition sli_SeekToFirst :: "'k SkipList \<Rightarrow> sl_iter option \<Rightarrow> sl_iter option" where
  "sli_SeekToFirst sl s = map_option (\<lambda>_. sl_SeekToFirst sl) s"

definition sli_SeekToLast :: "'k SkipList \<Rightarrow> sl_iter option \<Rightarrow> sl_iter option" where
  "sli_SeekToLast sl s = Option.bind s (\<lambda>_. sl_SeekToLast sl)"

definition sli_Next :: "'k SkipList \<Rightarrow> sl_iter option \<Rightarrow> sl_iter option" where
  "sli_Next sl s = map_option (sl_Next sl) s"

definition sli_Prev :: "('k \<Rightarrow> 'k \<Rightarrow> int) \<Rightarrow> 'k SkipList \<Rightarrow> sl_iter option \<Rightarrow> sl_iter option" where
  "sli_Prev cmp sl s = Option.bind s (sl_Prev cmp sl)"

definition sli_Seek :: "('k \<Rightarrow> 'k \<Rightarrow> int) \<Rightarrow> 'k SkipList \<Rightarrow> 'k \<Rightarrow> sl_iter option \<Rightarrow> sl_iter option" where
  "sli_Seek cmp sl t s = Option.bind s (\<lambda>_. sl_Seek cmp sl t)"

definition sli_rel :: "('k \<Rightarrow> 'k \<Rightarrow> int) \<Rightarrow> ('k \<Rightarrow> bool) \<Rightarrow> 'k SkipList \<Rightarrow> nat list \<Rightarrow> sl_iter option \<Rightarrow> nat option \<Rightarrow> bool" where
  "sli_rel cmp ok sl as s c \<longleftrightarrow> skip_list cmp ok sl as \<and> (\<exists>it. s = Some it \<and> sl_rel as it c)"

lemma linked_to_nth: "linked_to nx xs None \<Longrightarrow> i < length xs \<Longrightarrow> nx (xs ! i) = map_option ((!) xs) (next_pos (length xs) i)"
proof (induction xs arbitrary: i)
  case (Cons x xs)
  then show ?case by (cases i; cases xs) (auto simp: next_pos_def)
qed simp

lemma skip_list_ground: "skip_list cmp ok sl as \<Longrightarrow> linked_to (\<lambda>a. Node_Next sl a 0) (0 # as) None"
  using skip_inv_ground [of sl as as] skip_inv_linked [of sl as 0] by (simp add: skip_list_def kMaxHeight_def)

lemma sorted_keys_nth: "sorted_keys cmp ok ks \<Longrightarrow> i < j \<Longrightarrow> j < length ks \<Longrightarrow> cmp (ks ! i) (ks ! j) < 0"
  by (simp add: sorted_keys_def sorted_wrt_iff_nth_less)

lemma rel_sl_Next: "skip_list cmp ok sl as \<Longrightarrow> sl_rel as it (Some i) \<Longrightarrow> sl_rel as (sl_Next sl it) (next_pos (length as) i)"
  using linked_to_nth [OF skip_list_ground, of cmp ok sl as "Suc i"] by (auto simp: sl_rel_def sl_Next_def next_pos_def)

lemma rel_sl_SeekToFirst: "skip_list cmp ok sl as \<Longrightarrow> sl_rel as (sl_SeekToFirst sl) (first_pos (length as))"
  using linked_to_nth [OF skip_list_ground, of cmp ok sl as 0] by (auto simp: sl_rel_def sl_SeekToFirst_def next_pos_def first_pos_def)

lemma rel_sl_SeekToLast:
  assumes "skip_list cmp ok sl as"
  shows "\<exists>it. sl_SeekToLast sl = Some it \<and> sl_rel as it (last_pos (length as))"
proof -
  have "as ! (length as - 1) \<noteq> 0" if "as \<noteq> []" using assms that skip_inv_nonzero [of sl as "last as"] by (simp add: skip_list_def last_conv_nth)
  then show ?thesis using FindLast_returns [of sl as] assms
    by (cases "as = []") (auto simp: skip_list_def sl_SeekToLast_def sl_rel_def last_pos_def last_conv_nth)
qed

context skip_order
begin

lemma before_split:
  assumes sl: "skip_list cmp ok sl as" and key: "ok key" and n: "n \<le> length as"
    and less: "\<And>i. i < n \<Longrightarrow> cmp (nkey sl (as ! i)) key < 0" and stop: "n < length as \<Longrightarrow> \<not> cmp (nkey sl (as ! n)) key < 0"
  shows "before cmp sl key (take n as) (drop n as)"
  unfolding before_def
proof (intro conjI ballI)
  fix a assume "a \<in> set (take n as)"
  then show "cmp (nkey sl a) key < 0" using less by (auto simp: in_set_conv_nth)
next
  have keys: "sorted_keys cmp ok (map (nkey sl) as)" using sl by (simp add: skip_list_def)
  fix b assume "b \<in> set (drop n as)"
  then obtain j where j: "n \<le> j" "j < length as" "b = as ! j"
    by (auto simp: in_set_conv_nth) (metis le_add1 less_diff_conv2 n nth_drop add.commute less_diff_conv)
  have ok: "ok (nkey sl (as ! i))" if "i < length as" for i using keys that by (simp add: sorted_keys_def list_all_length)
  show "\<not> cmp (nkey sl b) key < 0"
  proof (cases "j = n")
    case True
    then show ?thesis using stop j by simp
  next
    case False
    then have "cmp (nkey sl (as ! n)) (nkey sl b) < 0"
      using j sorted_keys_nth [OF keys, of n j] by simp
    then show ?thesis using order_trans [OF ok ok key] j stop by fastforce
  qed
qed

lemma before_first_ge:
  assumes "skip_list cmp ok sl as" "ok key"
  defines "n \<equiv> length (takeWhile (\<lambda>k. cmp k key < 0) (map (nkey sl) as))"
  shows "before cmp sl key (take n as) (drop n as)" "first_ge cmp (map (nkey sl) as) key = (if n < length as then Some n else None)"
proof -
  have "n \<le> length as" unfolding n_def by (metis length_map length_takeWhile_le)
  then show "before cmp sl key (take n as) (drop n as)"
    using assms(1,2)
  proof (rule_tac before_split)
    fix i assume "i < n"
    then show "cmp (nkey sl (as ! i)) key < 0"
      using nth_mem [of i "takeWhile (\<lambda>k. cmp k key < 0) (map (nkey sl) as)"] takeWhile_nth [of i "\<lambda>k. cmp k key < 0" "map (nkey sl) as"]
        \<open>n \<le> length as\<close> by (auto simp: n_def dest: set_takeWhileD)
  next
    assume "n < length as"
    then show "\<not> cmp (nkey sl (as ! n)) key < 0"
      using nth_length_takeWhile [of "\<lambda>k. cmp k key < 0" "map (nkey sl) as"] by (simp add: n_def)
  qed
  show "first_ge cmp (map (nkey sl) as) key = (if n < length as then Some n else None)" by (simp add: first_ge_def n_def)
qed

lemma rel_sl_Seek:
  assumes "skip_list cmp ok sl as" "ok key"
  shows "\<exists>it. sl_Seek cmp sl key = Some it \<and> sl_rel as it (first_ge cmp (map (nkey sl) as) key)"
proof -
  let ?n = "length (takeWhile (\<lambda>k. cmp k key < 0) (map (nkey sl) as))"
  have "skip_inv sl (take ?n as @ drop ?n as)" using assms(1) by (simp add: skip_list_def)
  then have "sl_Seek cmp sl key = Some (hd_opt (drop ?n as) None)"
    using FindGreaterOrEqual_returns [OF _ before_first_ge(1) [OF assms]] by (simp add: sl_Seek_def)
  then show ?thesis using before_first_ge(2) [OF assms] by (auto simp: sl_rel_def hd_opt_def hd_drop_conv_nth split: list.split)
      (metis hd_drop_conv_nth list.sel(1))
qed

lemma rel_sl_Prev:
  assumes sl: "skip_list cmp ok sl as" and "sl_rel as it (Some i)"
  shows "\<exists>it'. sl_Prev cmp sl it = Some it' \<and> sl_rel as it' (prev_pos i)"
proof -
  have i: "i < length as" "it = Some (as ! i)" using assms(2) by (auto simp: sl_rel_def)
  have keys: "sorted_keys cmp ok (map (nkey sl) as)" using sl by (simp add: skip_list_def)
  have okk: "ok (nkey sl (as ! i))" using keys i by (simp add: sorted_keys_def list_all_length)
  have "before cmp sl (nkey sl (as ! i)) (take i as) (drop i as)"
    using sl okk
  proof (rule before_split)
    show "cmp (nkey sl (as ! j)) (nkey sl (as ! i)) < 0" if "j < i" for j
      using i that sorted_keys_nth [OF keys, of j i] by simp
    show "\<not> cmp (nkey sl (as ! i)) (nkey sl (as ! i)) < 0" using order_swap [OF okk okk] by linarith
  qed (use i in simp)
  moreover have "skip_inv sl (take i as @ drop i as)" using sl by (simp add: skip_list_def)
  ultimately have "FindLessThan cmp sl (nkey sl (as ! i)) = Some (last (0 # take i as))" using FindLessThan_returns [of sl "take i as" "drop i as"] by simp
  moreover have "last (take i as) = as ! (i - 1)" "as ! (i - 1) \<noteq> 0" if "i \<noteq> 0"
    using that i sl skip_inv_nonzero [of sl as "as ! (i - 1)"] last_conv_nth [of "take i as"] by (cases "as = []"; simp add: skip_list_def)+
  ultimately show ?thesis using i by (cases "i = 0") (auto simp: sl_Prev_def sl_rel_def prev_pos_def)
qed

lemma skip_list_Insert:
  assumes sl: "skip_list cmp ok sl as" and key: "ok key" and new: "\<forall>a \<in> set as. cmp key (nkey sl a) \<noteq> 0"
  shows "\<exists>sl' us vs n. Insert cmp key sl = Some sl' \<and> as = us @ vs \<and> skip_list cmp ok sl' (us @ n # vs) \<and>
     map (nkey sl') (us @ n # vs) = map (nkey sl) us @ key # map (nkey sl) vs"
proof -
  let ?n = "length (takeWhile (\<lambda>k. cmp k key < 0) (map (nkey sl) as))"
  define us where "us = take ?n as"
  define vs where "vs = drop ?n as"
  have as: "as = us @ vs" by (simp add: us_def vs_def)
  have bef: "before cmp sl key us vs" using before_first_ge(1) [OF sl key] by (simp add: us_def vs_def)
  have inv: "skip_inv sl (us @ vs)" and keys: "sorted_keys cmp ok (map (nkey sl) us @ map (nkey sl) vs)" using sl as by (simp_all add: skip_list_def)
  obtain sl' n where ins: "Insert cmp key sl = Some sl'" "skip_inv sl' (us @ n # vs)" "nkey sl' n = key" "\<forall>a \<in> set (us @ vs). nkey sl' a = nkey sl a"
    using Insert_inv [OF inv bef] by blast
  have m: "map (nkey sl') (us @ n # vs) = map (nkey sl) us @ key # map (nkey sl) vs" using ins(3,4) by simp
  have "cmp key (nkey sl b) < 0" if "b \<in> set vs" for b
  proof -
    have "ok (nkey sl b)" "\<not> cmp (nkey sl b) key < 0" "cmp key (nkey sl b) \<noteq> 0"
      using keys that bef new as by (auto simp: sorted_keys_def list_all_iff before_def)
    then show ?thesis using order_swap [OF _ key, of "nkey sl b"] order_swap [OF key, of "nkey sl b"] by linarith
  qed
  then have "sorted_keys cmp ok (map (nkey sl) us @ key # map (nkey sl) vs)"
    using keys key bef by (auto simp: sorted_keys_def before_def sorted_wrt_append)
  then have "skip_list cmp ok sl' (us @ n # vs)" using ins(2) unfolding skip_list_def m by blast
  then show ?thesis using ins(1) as m by blast
qed

lemma Contains_returns:
  assumes sl: "skip_list cmp ok sl as" and key: "ok key"
  shows "Contains cmp sl key = Some (\<exists>a \<in> set as. cmp key (nkey sl a) = 0)"
proof -
  let ?n = "length (takeWhile (\<lambda>k. cmp k key < 0) (map (nkey sl) as))"
  have b: "before cmp sl key (take ?n as) (drop ?n as)" by (rule before_first_ge(1) [OF sl key])
  have keys: "sorted_keys cmp ok (map (nkey sl) as)" using sl by (simp add: skip_list_def)
  have ok: "ok (nkey sl a)" if "a \<in> set as" for a using keys that by (simp add: sorted_keys_def list_all_iff)
  have "skip_inv sl (take ?n as @ drop ?n as)" using sl by (simp add: skip_list_def)
  then have F: "FindGreaterOrEqual cmp sl key None = Some (hd_opt (drop ?n as) None, None)"
    using FindGreaterOrEqual_returns [OF _ b] by simp
  have lo: "cmp key (nkey sl a) \<noteq> 0" if "a \<in> set (take ?n as)" for a
    using that b order_swap [OF ok key, of a] by (auto simp: before_def dest: in_set_takeD)
  have hi: "cmp key (nkey sl a) \<noteq> 0" if "drop ?n as = x # xs" "a \<in> set xs" for x xs a
  proof -
    have "sorted_keys cmp ok (map (nkey sl) (take ?n as) @ map (nkey sl) (drop ?n as))" using keys by (simp flip: map_append)
    then have x: "cmp (nkey sl x) (nkey sl a) < 0" "ok (nkey sl x)" "ok (nkey sl a)"
      using that by (auto simp: sorted_keys_def sorted_wrt_append list_all_iff)
    have "\<not> cmp (nkey sl x) key < 0" using b that by (simp add: before_def)
    then show ?thesis using order_equal [OF x(2) key x(3)] x(1) by blast
  qed
  have "set as = set (take ?n as) \<union> set (drop ?n as)" by (metis append_take_drop_id set_append)
  then show ?thesis using lo hi F by (cases "drop ?n as") (auto simp: Contains_def)
qed

end

sublocale skip_order \<subseteq> sli: kv_iterator sli_Valid "sli_kv sl" "sli_SeekToFirst sl" "sli_SeekToLast sl" "sli_Next sl" "sli_Prev cmp sl"
    "sli_rel cmp ok sl as" "map (\<lambda>a. (nkey sl a, ())) as" for sl as
proof
  fix s c i assume r: "sli_rel cmp ok sl as s c"
  then obtain it where it: "s = Some it" "sl_rel as it c" "skip_list cmp ok sl as" by (auto simp: sli_rel_def)
  show "sli_Valid s \<longleftrightarrow> c \<noteq> None" using it by (auto simp: sli_Valid_def sl_Valid_def sl_rel_def split: option.splits)
  show "sli_rel cmp ok sl as (sli_SeekToFirst sl s) (first_pos (length (map (\<lambda>a. (nkey sl a, ())) as)))"
    using rel_sl_SeekToFirst [OF it(3)] it by (simp add: sli_rel_def sli_SeekToFirst_def)
  show "sli_rel cmp ok sl as (sli_SeekToLast sl s) (last_pos (length (map (\<lambda>a. (nkey sl a, ())) as)))"
    using rel_sl_SeekToLast [OF it(3)] it by (auto simp: sli_rel_def sli_SeekToLast_def)
next
  fix s i assume r: "sli_rel cmp ok sl as s (Some i)"
  then obtain it where it: "s = Some it" "sl_rel as it (Some i)" "skip_list cmp ok sl as" by (auto simp: sli_rel_def)
  show "i < length (map (\<lambda>a. (nkey sl a, ())) as) \<and> sli_kv sl s = map (\<lambda>a. (nkey sl a, ())) as ! i"
    using it by (auto simp: sli_kv_def sl_key_def sl_rel_def)
  show "sli_rel cmp ok sl as (sli_Next sl s) (next_pos (length (map (\<lambda>a. (nkey sl a, ())) as)) i)"
    using rel_sl_Next [OF it(3,2)] it by (simp add: sli_rel_def sli_Next_def)
  show "sli_rel cmp ok sl as (sli_Prev cmp sl s) (prev_pos i)"
    using rel_sl_Prev [OF it(3,2)] it by (auto simp: sli_rel_def sli_Prev_def)
qed

lemma iterate_comp: "iterate valid get nxt n it = (xs, it') \<Longrightarrow> iterate valid (f \<circ> get) nxt n it = (map f xs, it')"
  by (induction n arbitrary: it xs) (auto split: prod.splits if_splits)

text \<open>Inserting a list of keys one after the other.\<close>

definition Insert_all :: "('k \<Rightarrow> 'k \<Rightarrow> int) \<Rightarrow> 'k list \<Rightarrow> 'k SkipList \<Rightarrow> 'k SkipList option" where
  "Insert_all cmp ks sl = foldl (\<lambda>s k. Option.bind s (Insert cmp k)) (Some sl) ks"

context skip_order
begin

lemma Insert_all_sorted:
  assumes "skip_list cmp ok sl as" "\<forall>k \<in> set ks. ok k" "sorted_wrt (\<lambda>a b. cmp b a \<noteq> 0) ks" "\<forall>k \<in> set ks. \<forall>a \<in> set as. cmp k (nkey sl a) \<noteq> 0"
  shows "\<exists>sl' bs. Insert_all cmp ks sl = Some sl' \<and> skip_list cmp ok sl' bs \<and> mset (map (nkey sl') bs) = mset (map (nkey sl) as) + mset ks"
  using assms
proof (induction ks arbitrary: sl as)
  case (Cons k ks)
  obtain sl1 us vs n where one: "Insert cmp k sl = Some sl1" "as = us @ vs" "skip_list cmp ok sl1 (us @ n # vs)"
      "map (nkey sl1) (us @ n # vs) = map (nkey sl) us @ k # map (nkey sl) vs"
    using skip_list_Insert [OF Cons.prems(1), of k] Cons.prems by auto
  have "nkey sl1 ` set (us @ n # vs) = insert k (nkey sl ` set as)"
    using arg_cong [OF one(4), of set] one(2) by auto
  then have "\<forall>k' \<in> set ks. \<forall>a \<in> set (us @ n # vs). cmp k' (nkey sl1 a) \<noteq> 0" using Cons.prems(3,4) by fastforce
  then obtain sl' bs where "Insert_all cmp ks sl1 = Some sl'" "skip_list cmp ok sl' bs"
      "mset (map (nkey sl') bs) = mset (map (nkey sl1) (us @ n # vs)) + mset ks"
    using Cons.IH [OF one(3)] Cons.prems(2,3) by auto
  then show ?case using one by (auto simp: Insert_all_def simp del: map_append list.map)
qed (auto simp: Insert_all_def)

lemma find_first_ge:
  "find (\<lambda>k. \<not> cmp k t < 0) ks = map_option ((!) ks) (first_ge cmp ks t)"
  by (induction ks) (auto simp: first_ge_def Let_def)

lemma sorted_list:
  assumes "\<forall>k \<in> set ks. ok k" "sorted_wrt (\<lambda>a b. cmp b a \<noteq> 0) ks"
  shows "\<exists>sl xs it. Insert_all cmp ks (SkipList_new any_key) = Some sl \<and> mset xs = mset ks \<and> sorted_wrt (\<lambda>a b. cmp a b < 0) xs \<and>
    iterate sli_Valid (fst \<circ> sli_kv sl) (sli_Next sl) (length xs) (Some (sl_SeekToFirst sl)) = (xs, it) \<and> it = Some None \<and>
    (\<forall>t. ok t \<longrightarrow> (\<exists>it. sl_Seek cmp sl t = Some it \<and> map_option (nkey sl) it = find (\<lambda>k. \<not> cmp k t < 0) xs) \<and>
       Contains cmp sl t = Some (\<exists>k \<in> set ks. cmp t k = 0))"
proof -
  have "skip_list cmp ok (SkipList_new any_key) []" using skip_inv_new by (simp add: skip_list_def sorted_keys_def)
  then obtain sl as where sl: "Insert_all cmp ks (SkipList_new any_key) = Some sl" "skip_list cmp ok sl as"
      "mset (map (nkey sl) as) = mset ks"
    using Insert_all_sorted [OF _ assms] by fastforce
  let ?xs = "map (nkey sl) as"
  have xs: "set ?xs = set ks" using sl(3) by (metis set_mset_mset)
  have "sli_rel cmp ok sl as (Some None) None" using sl(2) by (simp add: sli_rel_def sl_rel_def)
  from sli.iterate_all [OF this, of "length as"]
  obtain it where it: "iterate sli_Valid (sli_kv sl) (sli_Next sl) (length as) (sli_SeekToFirst sl (Some None)) = (map (\<lambda>a. (nkey sl a, ())) as, it)"
      "sli_rel cmp ok sl as it None" by auto
  have "iterate sli_Valid (fst \<circ> sli_kv sl) (sli_Next sl) (length ?xs) (Some (sl_SeekToFirst sl)) = (?xs, it)"
    using iterate_comp [OF it(1), of fst] by (simp add: sli_SeekToFirst_def comp_def)
  moreover have "it = Some None" using it(2) by (auto simp: sli_rel_def sl_rel_def)
  moreover have "\<exists>it. sl_Seek cmp sl t = Some it \<and> map_option (nkey sl) it = find (\<lambda>k. \<not> cmp k t < 0) ?xs" if "ok t" for t
    using rel_sl_Seek [OF sl(2) that] first_ge_Some [of cmp ?xs t] unfolding find_first_ge
    by (cases "first_ge cmp ?xs t") (auto simp: sl_rel_def)
  moreover have "Contains cmp sl t = Some (\<exists>k \<in> set ks. cmp t k = 0)" if "ok t" for t
    using Contains_returns [OF sl(2) that] unfolding xs [symmetric] by simp
  moreover have "sorted_wrt (\<lambda>a b. cmp a b < 0) ?xs" using sl(2) by (simp add: skip_list_def sorted_keys_def)
  ultimately show ?thesis using sl(1,3) by blast
qed

end

section \<open>Properties\<close>

interpretation bytewise_skip: skip_order bytewise_Compare "\<lambda>_. True"
  proof
  show "bytewise_Compare a b < 0 \<longleftrightarrow> 0 < bytewise_Compare b a" for a b by (rule bytewise.cmp_swap) simp_all
  show "bytewise_Compare a b < 0 \<Longrightarrow> bytewise_Compare b c < 0 \<Longrightarrow> bytewise_Compare a c < 0" for a b c
    by (rule bytewise.cmp_trans [of a b c]) simp_all
  show "bytewise_Compare b c = 0 \<Longrightarrow> bytewise_Compare a c < 0 \<Longrightarrow> bytewise_Compare a b < 0" for a b c
    using bytewise.cmp_eq [of b c] by simp
qed

text \<open>
  C8: For every comparator that orders its keys, and every sequence of keys no two of which are equal in that order,
  whatever heights the random numbers choose: the insertions return, scanning the list
  visits exactly the inserted keys in increasing order, \<^verbatim>\<open>Seek\<close> returns and finds the first key that is not before its
  target, and \<^verbatim>\<open>Contains\<close> answers whether an equal key was inserted.
\<close>

theorem skiplist_is_sorted_list:
  assumes "skip_order cmp ok" "\<forall>k \<in> set ks. ok k" "sorted_wrt (\<lambda>a b. cmp b a \<noteq> 0) ks"
  shows "\<exists>sl xs it. Insert_all cmp ks (SkipList_new any_key) = Some sl \<and> mset xs = mset ks \<and> sorted_wrt (\<lambda>a b. cmp a b < 0) xs \<and>
    iterate sli_Valid (fst \<circ> sli_kv sl) (sli_Next sl) (length xs) (Some (sl_SeekToFirst sl)) = (xs, it) \<and> it = Some None \<and>
    (\<forall>t. ok t \<longrightarrow> (\<exists>it. sl_Seek cmp sl t = Some it \<and> map_option (nkey sl) it = find (\<lambda>k. \<not> cmp k t < 0) xs) \<and>
       Contains cmp sl t = Some (\<exists>k \<in> set ks. cmp t k = 0))"
  using assms by (rule skip_order.sorted_list)

theorem skiplist_is_sorted_list_witness:
  "\<exists>sl. Insert_all bytewise_Compare [''m'', ''c'', ''x'', ''d''] (SkipList_new ''any'') = Some sl \<and>
     Contains bytewise_Compare sl ''x'' = Some True \<and> Contains bytewise_Compare sl ''n'' = Some False"
proof -
  have "sorted_wrt (\<lambda>a b. bytewise_Compare b a \<noteq> 0) [''m'', ''c'', ''x'', ''d'']" by code_simp
  moreover have "\<not> (\<exists>k \<in> set [''m'', ''c'', ''x'', ''d'']. bytewise_Compare ''n'' k = 0)" "\<exists>k \<in> set [''m'', ''c'', ''x'', ''d'']. bytewise_Compare ''x'' k = 0"
    by code_simp+
  ultimately show ?thesis
    using skiplist_is_sorted_list [OF bytewise_skip.skip_order_axioms, of "[''m'', ''c'', ''x'', ''d'']" "''any''"] by auto
qed

end
