(* ===== verification/Arena.thy ===== *)
theory Arena
  imports Prelude
begin

text \<open>
  \<^verbatim>\<open>src/leveldb/util/arena.h\<close> and \<^verbatim>\<open>arena.cc\<close>: the allocator of memtables.  Addresses are natural numbers; the
  addresses that \<^verbatim>\<open>new char[]\<close> returns, in the order of the calls, are a field of the state, since they come from
  outside the program.  The memory handed out never overlaps, lies inside the blocks that were requested, and
  is aligned where alignment was asked for, provided that \<^verbatim>\<open>new\<close> returns aligned blocks that do not overlap.
\<close>

section \<open>The allocator\<close>

record arena =
  alloc_ptr :: nat
  alloc_bytes_remaining :: nat
  ar_blocks :: "(nat \<times> nat) list"
  memory_usage :: nat
  ar_new :: "nat \<Rightarrow> nat"

definition kBlockSize :: nat where
  "kBlockSize = 4096"

definition Arena_new :: "(nat \<Rightarrow> nat) \<Rightarrow> arena" where
  "Arena_new new_block =
     \<lparr>alloc_ptr = 0, alloc_bytes_remaining = 0, ar_blocks = [], memory_usage = 0, ar_new = new_block\<rparr>"

definition AllocateNewBlock :: "nat \<Rightarrow> arena \<Rightarrow> nat \<times> arena" where
  "AllocateNewBlock block_bytes a =
     (let result = ar_new a (length (ar_blocks a))
      in (result, a\<lparr>ar_blocks := ar_blocks a @ [(result, block_bytes)], memory_usage := memory_usage a + (block_bytes + 8)\<rparr>))"

definition AllocateFallback :: "nat \<Rightarrow> arena \<Rightarrow> nat \<times> arena" where
  "AllocateFallback bytes a =
     (if bytes > kBlockSize div 4 then AllocateNewBlock bytes a
      else let (p, a1) = AllocateNewBlock kBlockSize a
           in (p, a1\<lparr>alloc_ptr := p + bytes, alloc_bytes_remaining := kBlockSize - bytes\<rparr>))"

definition Allocate :: "nat \<Rightarrow> arena \<Rightarrow> nat \<times> arena" where
  "Allocate bytes a =
     (if bytes \<le> alloc_bytes_remaining a
      then (alloc_ptr a, a\<lparr>alloc_ptr := alloc_ptr a + bytes, alloc_bytes_remaining := alloc_bytes_remaining a - bytes\<rparr>)
      else AllocateFallback bytes a)"

definition AllocateAligned :: "nat \<Rightarrow> arena \<Rightarrow> nat \<times> arena" where
  "AllocateAligned bytes a =
     (let current_mod = alloc_ptr a mod 8;
          slop = (if current_mod = 0 then 0 else 8 - current_mod);
          needed = bytes + slop
      in if needed \<le> alloc_bytes_remaining a
         then (alloc_ptr a + slop, a\<lparr>alloc_ptr := alloc_ptr a + needed, alloc_bytes_remaining := alloc_bytes_remaining a - needed\<rparr>)
         else AllocateFallback bytes a)"

definition MemoryUsage :: "arena \<Rightarrow> nat" where
  "MemoryUsage a = memory_usage a"

section \<open>Regions\<close>

definition region :: "nat \<times> nat \<Rightarrow> nat set" where
  "region r = {fst r..<fst r + snd r}"

definition apart :: "(nat \<times> nat) list \<Rightarrow> bool" where
  "apart rs \<longleftrightarrow> sorted_wrt (\<lambda>x y. region x \<inter> region y = {}) rs"

definition free_region :: "arena \<Rightarrow> nat \<times> nat" where
  "free_region a = (alloc_ptr a, alloc_bytes_remaining a)"

text \<open>What \<^verbatim>\<open>new\<close> guarantees about the blocks of an arena.\<close>

definition blocks_ok :: "arena \<Rightarrow> bool" where
  "blocks_ok a \<longleftrightarrow> apart (ar_blocks a) \<and> list_all (\<lambda>b. 8 dvd fst b) (ar_blocks a)"

definition inside :: "arena \<Rightarrow> nat set \<Rightarrow> bool" where
  "inside a X \<longleftrightarrow> X = {} \<or> (\<exists>b \<in> set (ar_blocks a). X \<subseteq> region b)"

definition arena_inv :: "arena \<Rightarrow> (nat \<times> nat) list \<Rightarrow> bool" where
  "arena_inv a rs \<longleftrightarrow>
     apart rs \<and> (\<forall>r \<in> set rs. inside a (region r)) \<and> inside a (region (free_region a)) \<and>
     (\<forall>r \<in> set rs. region r \<inter> region (free_region a) = {}) \<and>
     memory_usage a = (\<Sum>b\<leftarrow>ar_blocks a. snd b + 8)"

lemma apart_snoc: "apart (rs @ [r]) \<longleftrightarrow> apart rs \<and> (\<forall>x \<in> set rs. region x \<inter> region r = {})"
  by (auto simp: apart_def sorted_wrt_append)

lemma fresh_apart:
  assumes "apart (ar_blocks a @ [b])" "inside a X"
  shows "X \<inter> region b = {}"
  using assms by (auto simp: apart_snoc inside_def)

lemma disjoint_sub: "X \<inter> U = {} \<Longrightarrow> Y \<subseteq> U \<Longrightarrow> X \<inter> Y = {}"
  by blast

lemma inside_grow: "inside a X \<Longrightarrow> set (ar_blocks a) \<subseteq> set (ar_blocks a') \<Longrightarrow> inside a' X"
  by (auto simp: inside_def)

lemma arena_inv_new: "arena_inv (Arena_new f) []"
  by (simp add: arena_inv_def Arena_new_def apart_def inside_def free_region_def region_def)

text \<open>Taking a piece of the free region.\<close>

lemma arena_inv_take:
  assumes inv: "arena_inv a rs" and n: "s + n \<le> alloc_bytes_remaining a"
  shows "arena_inv (a\<lparr>alloc_ptr := alloc_ptr a + (n + s), alloc_bytes_remaining := alloc_bytes_remaining a - (n + s)\<rparr>) (rs @ [(alloc_ptr a + s, n)])"
proof -
  let ?a = "a\<lparr>alloc_ptr := alloc_ptr a + (n + s), alloc_bytes_remaining := alloc_bytes_remaining a - (n + s)\<rparr>"
  have sub: "region (alloc_ptr a + s, n) \<subseteq> region (free_region a)" "region (free_region ?a) \<subseteq> region (free_region a)"
    using n by (auto simp: region_def free_region_def)
  have ins: "inside ?a X" if "X \<subseteq> region (free_region a)" for X
    using inv that by (fastforce simp: arena_inv_def inside_def)
  have old: "inside ?a X \<longleftrightarrow> inside a X" for X by (simp add: inside_def)
  have disj: "region (alloc_ptr a + s, n) \<inter> region (free_region ?a) = {}" by (auto simp: region_def free_region_def)
  have away: "region r \<inter> X = {}" if "r \<in> set rs" "X \<subseteq> region (free_region a)" for r X
    by (rule disjoint_sub [OF _ that(2)]) (use inv that(1) in \<open>simp add: arena_inv_def\<close>)
  show ?thesis using inv ins [OF sub(1)] ins [OF sub(2)] disj old away [OF _ sub(1)] away [OF _ sub(2)]
    unfolding arena_inv_def apart_snoc by simp
qed

lemma arena_inv_fallback:
  assumes inv: "arena_inv a rs" and al: "AllocateFallback n a = (p, a')" and ok: "blocks_ok a'"
  shows "arena_inv a' (rs @ [(p, n)])" "8 dvd p"
proof -
  define m where "m = (if n > kBlockSize div 4 then n else kBlockSize)"
  have nm: "n \<le> m" by (auto simp: m_def kBlockSize_def)
  have b: "ar_blocks a' = ar_blocks a @ [(p, m)]" "memory_usage a' = memory_usage a + (m + 8)"
    and f: "free_region a' = (if n > kBlockSize div 4 then free_region a else (p + n, kBlockSize - n))"
    using al by (auto simp: AllocateFallback_def AllocateNewBlock_def Let_def m_def free_region_def split: if_splits)
  show "8 dvd p" using ok b by (simp add: blocks_ok_def)
  have ap: "apart (ar_blocks a @ [(p, m)])" using ok b by (simp add: blocks_ok_def)
  have grow: "inside a' X" if "inside a X" for X by (rule inside_grow [OF that]) (use b in auto)
  have new: "inside a' X" if "X \<subseteq> region (p, m)" for X using b that by (auto simp: inside_def)
  have sub: "region (p, n) \<subseteq> region (p, m)" using nm by (auto simp: region_def)
  have old: "region r \<inter> region (p, m) = {}" if "r \<in> set rs" for r using inv fresh_apart [OF ap] that by (simp add: arena_inv_def)
  have old_n: "region r \<inter> region (p, n) = {}" if "r \<in> set rs" for r by (rule disjoint_sub [OF old [OF that] sub])
  have free_n: "region (free_region a) \<inter> region (p, m) = {}" using inv fresh_apart [OF ap] by (simp add: arena_inv_def)
  show "arena_inv a' (rs @ [(p, n)])"
  proof (cases "n > kBlockSize div 4")
    case True
    then show ?thesis using inv b f grow new [OF sub] old_n disjoint_sub [OF free_n sub]
      unfolding arena_inv_def apart_snoc by (simp add: Int_commute)
  next
    case False
    then have fr: "region (free_region a') \<subseteq> region (p, m)" "region (p, n) \<inter> region (free_region a') = {}"
      using f by (auto simp: region_def m_def kBlockSize_def)
    then show ?thesis using inv b grow new [OF sub] new [OF fr(1)] old_n disjoint_sub [OF old fr(1)]
      unfolding arena_inv_def apart_snoc by simp
  qed
qed

section \<open>Properties\<close>

datatype request = Plain nat | Aligned nat

definition request_bytes :: "request \<Rightarrow> nat" where
  "request_bytes q = (case q of Plain n \<Rightarrow> n | Aligned n \<Rightarrow> n)"

definition serve :: "request \<Rightarrow> arena \<Rightarrow> nat \<times> arena" where
  "serve q a = (case q of Plain n \<Rightarrow> Allocate n a | Aligned n \<Rightarrow> AllocateAligned n a)"

fun serve_all :: "request list \<Rightarrow> arena \<Rightarrow> nat list \<times> arena" where
  "serve_all [] a = ([], a)"
| "serve_all (q # qs) a = (case serve q a of (p, a1) \<Rightarrow> (case serve_all qs a1 of (ps, a2) \<Rightarrow> (p # ps, a2)))"

lemma serve_inv:
  assumes inv: "arena_inv a rs" and s: "serve q a = (p, a')" and ok: "blocks_ok a'"
  shows "arena_inv a' (rs @ [(p, request_bytes q)]) \<and> (\<forall>n. q = Aligned n \<longrightarrow> 8 dvd p)"
proof (cases "\<exists>n. AllocateFallback n a = (p, a') \<and> request_bytes q = n")
  case True
  then show ?thesis using arena_inv_fallback [OF inv _ ok] by blast
next
  case False
  define n where "n = request_bytes q"
  define sl where "sl = (case q of Plain _ \<Rightarrow> 0 | Aligned _ \<Rightarrow> if alloc_ptr a mod 8 = 0 then 0 else 8 - alloc_ptr a mod 8)"
  have fit: "sl + n \<le> alloc_bytes_remaining a" "p = alloc_ptr a + sl"
    "a' = a\<lparr>alloc_ptr := alloc_ptr a + (n + sl), alloc_bytes_remaining := alloc_bytes_remaining a - (n + sl)\<rparr>"
    using s False by (auto simp: serve_def Allocate_def AllocateAligned_def Let_def sl_def n_def request_bytes_def split: request.splits if_splits)
  have "8 dvd p" if "q = Aligned m" for m
  proof -
    have "(alloc_ptr a + (8 - alloc_ptr a mod 8)) mod 8 = 0" by presburger
    then show ?thesis using fit(2) that by (auto simp: sl_def mod_eq_0_iff_dvd)
  qed
  then show ?thesis using arena_inv_take [OF inv fit(1)] fit(2,3) by (auto simp: n_def)
qed

lemma serve_blocks: "\<exists>bs. ar_blocks (snd (serve q a)) = ar_blocks a @ bs"
  by (auto simp: serve_def Allocate_def AllocateAligned_def AllocateFallback_def AllocateNewBlock_def Let_def split: request.split)

lemma serve_all_blocks: "\<exists>bs. ar_blocks (snd (serve_all qs a)) = ar_blocks a @ bs"
proof (induction qs arbitrary: a)
  case (Cons q qs)
  obtain p a1 where one: "serve q a = (p, a1)" by fastforce
  then show ?case using serve_blocks [of q a] Cons.IH [of a1] by (auto split: prod.split)
qed simp

lemma serve_all_inv:
  assumes "arena_inv a rs" "serve_all qs a = (ps, a')" "blocks_ok a'"
  shows "arena_inv a' (rs @ zip ps (map request_bytes qs)) \<and> length ps = length qs \<and>
    (\<forall>i < length qs. \<forall>n. qs ! i = Aligned n \<longrightarrow> 8 dvd ps ! i)"
  using assms
proof (induction qs arbitrary: a rs ps)
  case (Cons q qs)
  obtain p a1 where one: "serve q a = (p, a1)" by fastforce
  obtain ps' where rest: "serve_all qs a1 = (ps', a')" "ps = p # ps'" using Cons.prems(2) one by (auto split: prod.splits)
  then have "blocks_ok a1" using Cons.prems(3) serve_all_blocks [of qs a1] by (auto simp: blocks_ok_def apart_def sorted_wrt_append)
  note step = serve_inv [OF Cons.prems(1) one this]
  from Cons.IH [OF conjunct1 [OF step] rest(1) Cons.prems(3)] show ?case
    using step rest(2) by (auto simp: nth_Cons split: nat.splits)
qed simp


definition example_requests :: "request list" where
  "example_requests = [Plain 5, Aligned 24, Plain 5000, Aligned 8]"

lemma example_served:
  "serve_all example_requests (Arena_new (\<lambda>i. 10000 * (i + 1))) =
     ([10000, 10008, 20000, 10032],
      \<lparr>alloc_ptr = 10040, alloc_bytes_remaining = 4056, ar_blocks = [(10000, 4096), (20000, 5000)], memory_usage = 9112,
       ar_new = \<lambda>i. 10000 * (i + 1)\<rparr>)"
  by (simp add: example_requests_def serve_def Allocate_def AllocateAligned_def AllocateFallback_def AllocateNewBlock_def Arena_new_def kBlockSize_def)

lemma example_blocks:
  "blocks_ok \<lparr>alloc_ptr = 10040, alloc_bytes_remaining = 4056, ar_blocks = [(10000, 4096), (20000, 5000)], memory_usage = 9112,
     ar_new = \<lambda>i. 10000 * (i + 1)\<rparr>"
  by (simp add: blocks_ok_def apart_def region_def)


end
