(* ===== verification/Memtable.thy ===== *)
theory Memtable
  imports Internal_Keys Skiplist Arena Write_Batch
begin

text \<open>
  \<^verbatim>\<open>src/leveldb/db/memtable.h\<close> and \<^verbatim>\<open>memtable.cc\<close>, and the insertion of write batches of \<^verbatim>\<open>write_batch.cc\<close>.  A memtable is a
  skip list of entries, each the bytes that \<^verbatim>\<open>Add\<close> writes: a length-prefixed internal key and a length-prefixed
  value.  A pointer to an entry is the entry; the arena counts the memory.  A search of the skip list
  that does not return makes the result \<^term>\<open>None\<close>, and the lemmas show that it never happens.
\<close>

section \<open>Entries\<close>

text \<open>The slice at a pointer and what follows it; a pointer to corrupted bytes is not expected.\<close>

definition mem_slice :: "string \<Rightarrow> string \<times> string" where
  "mem_slice data =
     (case GetVarint32Ptr data of
        None \<Rightarrow> ([], [])
      | Some (len, p) \<Rightarrow> (take (unat len) p, drop (unat len) p))"

definition MemKey_Compare :: "(string \<Rightarrow> string \<Rightarrow> int) \<Rightarrow> string \<Rightarrow> string \<Rightarrow> int" where
  "MemKey_Compare ucmp aptr bptr = ik_Compare ucmp (fst (mem_slice aptr)) (fst (mem_slice bptr))"

definition EncodeKey :: "string \<Rightarrow> string" where
  "EncodeKey target = PutVarint32 [] (of_nat (length target)) @ target"

section \<open>The memtable\<close>

record MemTable =
  mt_refs :: int
  mt_arena :: arena
  mt_table :: "string SkipList"

text \<open>A skip list node of a given height takes a key pointer and an array of links.\<close>

definition node_bytes :: "nat \<Rightarrow> nat" where
  "node_bytes h = 16 + 8 * (h - 1)"

definition MemTable_new :: "(nat \<Rightarrow> nat) \<Rightarrow> MemTable" where
  "MemTable_new new_block =
     \<lparr>mt_refs = 0, mt_arena = snd (AllocateAligned (node_bytes kMaxHeight) (Arena_new new_block)), mt_table = SkipList_new []\<rparr>"

definition MemTable_Ref :: "MemTable \<Rightarrow> MemTable" where
  "MemTable_Ref mt = mt\<lparr>mt_refs := mt_refs mt + 1\<rparr>"

text \<open>\<^term>\<open>None\<close> is a memtable that was deleted.\<close>

definition MemTable_Unref :: "MemTable \<Rightarrow> MemTable option" where
  "MemTable_Unref mt = (if mt_refs mt - 1 \<le> 0 then None else Some (mt\<lparr>mt_refs := mt_refs mt - 1\<rparr>))"

definition ApproximateMemoryUsage :: "MemTable \<Rightarrow> nat" where
  "ApproximateMemoryUsage mt = MemoryUsage (mt_arena mt)"

definition MemTable_Add ::
  "(string \<Rightarrow> string \<Rightarrow> int) \<Rightarrow> SequenceNumber \<Rightarrow> ValueType \<Rightarrow> string \<Rightarrow> string \<Rightarrow> MemTable \<Rightarrow> MemTable option" where
  "MemTable_Add ucmp s type key val mt =
     (let key_size = length key;
          val_size = length val;
          internal_key_size = key_size + 8;
          encoded_len = nat (VarintLength (of_nat internal_key_size)) + internal_key_size + nat (VarintLength (of_nat val_size)) + val_size;
          arena1 = snd (Allocate encoded_len (mt_arena mt));
          buf = EncodeVarint32 (of_nat internal_key_size) @ key @ EncodeFixed64 (push_bit 8 s OR of_nat (ValueType_num type))
                  @ EncodeVarint32 (of_nat val_size) @ val;
          arena2 = snd (AllocateAligned (node_bytes (fst (RandomHeight (sl_rnd (mt_table mt))))) arena1)
      in map_option (\<lambda>tb. mt\<lparr>mt_arena := arena2, mt_table := tb\<rparr>) (Insert (MemKey_Compare ucmp) buf (mt_table mt)))"

datatype mem_result = MemMiss | MemFound string | MemDeleted

definition MemTable_Get :: "(string \<Rightarrow> string \<Rightarrow> int) \<Rightarrow> LookupKey \<Rightarrow> MemTable \<Rightarrow> mem_result option" where
  "MemTable_Get ucmp key mt =
     (let memkey = LookupKey_memtable_key key
      in case sl_Seek (MemKey_Compare ucmp) (mt_table mt) memkey of
           None \<Rightarrow> None
         | Some it \<Rightarrow>
             Some (if \<not> sl_Valid it then MemMiss
               else let entry = sl_key (mt_table mt) it
                    in case GetVarint32Ptr entry of
                         None \<Rightarrow> MemMiss
                       | Some (key_length, key_ptr) \<Rightarrow>
                           if ucmp (take (unat key_length - 8) key_ptr) (LookupKey_user_key key) = 0
                           then let tag = DecodeFixed64 (drop (unat key_length - 8) key_ptr);
                                    c = (ucast tag :: u8)
                                in if c = 1 then MemFound (fst (mem_slice (drop (unat key_length) key_ptr)))
                                   else if c = 0 then MemDeleted else MemMiss
                           else MemMiss))"

section \<open>The iterator\<close>

definition mti_kv :: "string SkipList \<Rightarrow> sl_iter option \<Rightarrow> string \<times> string" where
  "mti_kv tb s =
     (let entry = sl_key tb (the s); key_slice = mem_slice entry
      in (fst key_slice, fst (mem_slice (snd key_slice))))"

definition mti_Seek :: "(string \<Rightarrow> string \<Rightarrow> int) \<Rightarrow> string SkipList \<Rightarrow> string \<Rightarrow> sl_iter option \<Rightarrow> sl_iter option" where
  "mti_Seek ucmp tb k s = sli_Seek (MemKey_Compare ucmp) tb (EncodeKey k) s"

definition MemTable_NewIterator :: "sl_iter option" where
  "MemTable_NewIterator = Some None"

section \<open>Inserting write batches\<close>

definition mem_insert ::
  "(string \<Rightarrow> string \<Rightarrow> int) \<Rightarrow> SequenceNumber \<Rightarrow> ValueType \<Rightarrow> string \<Rightarrow> string \<Rightarrow> MemTable option \<Rightarrow> MemTable option" where
  "mem_insert ucmp s t k v m = Option.bind m (MemTable_Add ucmp s t k v)"

definition MemTable_InsertInto :: "(string \<Rightarrow> string \<Rightarrow> int) \<Rightarrow> string \<Rightarrow> MemTable \<Rightarrow> Status \<times> MemTable option" where
  "MemTable_InsertInto ucmp rep mt = InsertInto (mem_insert ucmp) rep (Some mt)"

section \<open>Reading what was written\<close>

text \<open>A call of \<^verbatim>\<open>Add\<close>, and the internal key and the entry that it writes.\<close>

record mem_add =
  a_seq :: SequenceNumber
  a_type :: ValueType
  a_key :: string
  a_val :: string

definition add_ikey :: "mem_add \<Rightarrow> string" where
  "add_ikey x = PutFixed64 (a_key x) (PackSequenceAndType (a_seq x) (a_type x))"

definition add_entry :: "mem_add \<Rightarrow> string" where
  "add_entry x = PutLengthPrefixedSlice [] (add_ikey x) @ PutLengthPrefixedSlice [] (a_val x)"

definition add_ok :: "mem_add \<Rightarrow> bool" where
  "add_ok x \<longleftrightarrow> a_seq x \<le> kMaxSequenceNumber \<and> length (a_key x) + 8 < 2 ^ 32 \<and> length (a_val x) < 2 ^ 32"

definition mem_ok :: "string \<Rightarrow> bool" where
  "mem_ok e \<longleftrightarrow> (\<exists>ik rest. e = PutLengthPrefixedSlice [] ik @ rest \<and> 8 \<le> length ik \<and> length ik < 2 ^ 32)"

lemma mem_slice_Put: "length x < 2 ^ 32 \<Longrightarrow> mem_slice (PutLengthPrefixedSlice [] x @ rest) = (x, rest)"
  using GetVarint32_Put [of "of_nat (length x)" "x @ rest"]
  by (simp add: mem_slice_def PutLengthPrefixedSlice_def PutVarint32_def GetVarint32_def unat_of_nat_u32)

lemma mem_ok_key: "mem_ok e \<Longrightarrow> ikey_ok (fst (mem_slice e))"
  by (auto simp: mem_ok_def mem_slice_Put ikey_ok_def)

lemma length_add_ikey [simp]: "length (add_ikey x) = length (a_key x) + 8"
  by (simp add: add_ikey_def PutFixed64_def)

lemma add_ikey_parts [simp]:
  "ExtractUserKey (add_ikey x) = a_key x" "ikey_tag (add_ikey x) = PackSequenceAndType (a_seq x) (a_type x)" "ikey_ok (add_ikey x)"
  by (simp_all add: add_ikey_def)

lemma mem_ok_add: "add_ok x \<Longrightarrow> mem_ok (add_entry x)"
  unfolding mem_ok_def by (rule exI [of _ "add_ikey x"], rule exI [of _ "PutLengthPrefixedSlice [] (a_val x)"]) (simp add: add_ok_def add_entry_def)

lemma add_entry_slices: "add_ok x \<Longrightarrow> mem_slice (add_entry x) = (add_ikey x, PutLengthPrefixedSlice [] (a_val x))"
  using mem_slice_Put [of "add_ikey x"] by (simp add: add_entry_def add_ok_def)

definition the_add :: "SequenceNumber \<Rightarrow> ValueType \<Rightarrow> string \<Rightarrow> string \<Rightarrow> mem_add" where
  "the_add s t k v = \<lparr>a_seq = s, a_type = t, a_key = k, a_val = v\<rparr>"

lemma the_add_simps [simp]: "a_seq (the_add s t k v) = s" "a_type (the_add s t k v) = t" "a_key (the_add s t k v) = k" "a_val (the_add s t k v) = v"
  "the_add (a_seq x) (a_type x) (a_key x) (a_val x) = x"
  by (simp_all add: the_add_def)

lemma MemTable_Add_entry:
  "map_option mt_table (MemTable_Add ucmp s t k v mt) = Insert (MemKey_Compare ucmp) (add_entry (the_add s t k v)) (mt_table mt)"
proof -
  have "EncodeVarint32 (of_nat (length k + 8)) @ k @ EncodeFixed64 (push_bit 8 s OR of_nat (ValueType_num t)) @ EncodeVarint32 (of_nat (length v)) @ v
      = add_entry (the_add s t k v)"
    by (simp add: add_entry_def add_ikey_def PutLengthPrefixedSlice_def PutVarint32_def PutFixed64_def PackSequenceAndType_def)
  then show ?thesis by (simp add: MemTable_Add_def Let_def option.map_comp comp_def option.map_ident)
qed

section \<open>The order of entries\<close>

sublocale user_comparator \<subseteq> mem: skip_order "MemKey_Compare Compare" mem_ok
proof
  fix a b c assume ok: "mem_ok a" "mem_ok b" "mem_ok c"
  show "MemKey_Compare Compare a b < 0 \<longleftrightarrow> 0 < MemKey_Compare Compare b a" unfolding MemKey_Compare_def by (rule ik_swap)
  show "MemKey_Compare Compare a b < 0 \<Longrightarrow> MemKey_Compare Compare b c < 0 \<Longrightarrow> MemKey_Compare Compare a c < 0"
    unfolding MemKey_Compare_def by (rule ik_trans)
  show "MemKey_Compare Compare b c = 0 \<Longrightarrow> MemKey_Compare Compare a c < 0 \<Longrightarrow> MemKey_Compare Compare a b < 0"
    unfolding MemKey_Compare_def ik_zero ik_less by simp
qed

section \<open>The buffer of an entry\<close>

lemma drop_bit_ucast_u64: "drop_bit n (ucast v :: u64) = ucast (drop_bit n (v :: u32))"
  by (rule bit_word_eqI) (auto simp: bit_simps dest: bit_imp_le_length)

lemma ucast_ge_128: "128 \<le> (ucast v :: u64) \<longleftrightarrow> 128 \<le> (v :: u32)"
  by (simp add: word_le_nat_alt unat_ucast_up)

lemma drop_bit_ge_128: "128 \<le> drop_bit n (v :: u32) \<longleftrightarrow> 2 ^ (7 + n) \<le> unat v"
proof -
  have "unat (drop_bit n v) = unat v div 2 ^ n" by (simp add: unat_drop_bit_eq drop_bit_eq_div [where 'a = nat])
  then show ?thesis by (simp add: word_le_nat_alt power_add less_eq_div_iff_mult_less_eq mult.commute)
qed

lemma VarintLength_u32: "VarintLength (ucast (v :: u32)) = int (length (EncodeVarint32 v))"
proof -
  have "unat v < 2 ^ 32" using unsigned_less [of v, where ?'a = nat] by simp
  then have "\<not> 128 \<le> drop_bit 28 v" by (simp add: drop_bit_ge_128)
  moreover have "128 \<le> v \<longleftrightarrow> \<not> unat v < 128" by (simp add: word_le_nat_alt not_less)
  moreover have "EncodeVarint64 (ucast (drop_bit n v)) =
      (if 128 \<le> drop_bit n v then byte64 (ucast (drop_bit n v) OR 128) # EncodeVarint64 (ucast (drop_bit (n + 7) v)) else [byte64 (ucast (drop_bit n v))])" for n
    by (subst EncodeVarint64.simps) (simp add: drop_bit_ucast_u64 ucast_ge_128 add.commute)
  from this [of 0] this [of 7] this [of 14] this [of 21] this [of 28]
  have "length (EncodeVarint64 (ucast v)) = (if 128 \<le> v then if 128 \<le> drop_bit 7 v then if 128 \<le> drop_bit 14 v then
      if 128 \<le> drop_bit 21 v then if 128 \<le> drop_bit 28 v then 5 + length (EncodeVarint64 (ucast (drop_bit 35 v))) else 5 else 4 else 3 else 2 else 1)" by simp
  ultimately show ?thesis
    by (auto simp: VarintLength_def VarintLength_loop_length EncodeVarint32_def drop_bit_ge_128 word_less_nat_alt)
qed

text \<open>\<^verbatim>\<open>Add\<close> fills exactly the bytes that it allocates (the assertion at its end).\<close>

lemma add_entry_length:
  assumes "add_ok x"
  shows "length (add_entry x) =
    nat (VarintLength (of_nat (length (a_key x) + 8))) + (length (a_key x) + 8) + nat (VarintLength (of_nat (length (a_val x)))) + length (a_val x)"
proof -
  have "(of_nat n :: u64) = ucast (of_nat n :: u32)" if "n < 2 ^ 32" for n
    using that by (intro word_unat_eq_iff [THEN iffD2]) (simp add: unat_ucast_up unat_of_nat_u32 unat_of_nat_u64)
  then have "VarintLength (of_nat n) = int (length (EncodeVarint32 (of_nat n)))" if "n < 2 ^ 32" for n
    using that VarintLength_u32 [of "of_nat n"] by simp
  from this [of "length (a_key x) + 8"] this [of "length (a_val x)"] show ?thesis
    using assms by (simp add: add_entry_def add_ok_def PutLengthPrefixedSlice_def PutVarint32_def)
qed

section \<open>Looking up\<close>

definition mem_add_all :: "(string \<Rightarrow> string \<Rightarrow> int) \<Rightarrow> mem_add list \<Rightarrow> MemTable \<Rightarrow> MemTable option" where
  "mem_add_all ucmp adds mt = foldl (\<lambda>m x. mem_insert ucmp (a_seq x) (a_type x) (a_key x) (a_val x) m) (Some mt) adds"

lemma mem_add_all_Insert_all:
  "map_option mt_table (mem_add_all ucmp adds mt) = Insert_all (MemKey_Compare ucmp) (map add_entry adds) (mt_table mt)"
proof -
  have "map_option mt_table (foldl (\<lambda>m x. mem_insert ucmp (a_seq x) (a_type x) (a_key x) (a_val x) m) m adds) =
      foldl (\<lambda>s k. Option.bind s (Insert (MemKey_Compare ucmp) k)) (map_option mt_table m) (map add_entry adds)" for m
  proof (induction adds arbitrary: m)
    case (Cons x adds)
    have "map_option mt_table (mem_insert ucmp (a_seq x) (a_type x) (a_key x) (a_val x) m) =
        Option.bind (map_option mt_table m) (Insert (MemKey_Compare ucmp) (add_entry x))"
      using MemTable_Add_entry [of ucmp "a_seq x" "a_type x" "a_key x" "a_val x"] by (cases m) (simp_all add: mem_insert_def)
    then show ?case using Cons by simp
  qed simp
  from this [of "Some mt"] show ?thesis by (simp add: mem_add_all_def Insert_all_def)
qed

text \<open>The newest entry of a key that a reader at a sequence number sees.\<close>

definition newer :: "string \<Rightarrow> SequenceNumber \<Rightarrow> mem_add \<Rightarrow> mem_add option \<Rightarrow> mem_add option" where
  "newer uk s x best =
     (if a_key x = uk \<and> a_seq x \<le> s \<and> (case best of None \<Rightarrow> True | Some y \<Rightarrow> a_seq y < a_seq x) then Some x else best)"

definition newest :: "mem_add list \<Rightarrow> string \<Rightarrow> SequenceNumber \<Rightarrow> mem_add option" where
  "newest adds uk s = fold (newer uk s) adds None"

definition visible :: "string \<Rightarrow> SequenceNumber \<Rightarrow> mem_add \<Rightarrow> bool" where
  "visible uk s x \<longleftrightarrow> a_key x = uk \<and> a_seq x \<le> s"

lemma newest_None: "newest adds uk s = None \<longleftrightarrow> (\<forall>x \<in> set adds. \<not> visible uk s x)"
proof -
  have "fold (newer uk s) adds b = None \<longleftrightarrow> b = None \<and> (\<forall>x \<in> set adds. \<not> visible uk s x)" for b
    by (induction adds arbitrary: b) (auto simp: newer_def visible_def)
  then show ?thesis by (simp add: newest_def)
qed

lemma newer_bound:
  assumes "newer uk s a b = Some z" "\<And>y. b = Some y \<Longrightarrow> visible uk s y"
  shows "visible uk s z" "z = a \<or> b = Some z" "visible uk s a \<Longrightarrow> a_seq a \<le> a_seq z" "b = Some y \<Longrightarrow> a_seq y \<le> a_seq z"
  using assms by (auto simp: newer_def visible_def split: if_splits option.splits)

lemma fold_newer:
  assumes "fold (newer uk s) adds b = Some x" "\<And>y. b = Some y \<Longrightarrow> visible uk s y"
  shows "visible uk s x \<and> (x \<in> set adds \<or> b = Some x) \<and> (\<forall>y \<in> set adds. visible uk s y \<longrightarrow> a_seq y \<le> a_seq x) \<and> (\<forall>y. b = Some y \<longrightarrow> a_seq y \<le> a_seq x)"
  using assms
proof (induction adds arbitrary: b)
  case (Cons a adds)
  have "visible uk s y" if "newer uk s a b = Some y" for y using newer_bound(1) [OF that] Cons.prems(2) by blast
  note IH = Cons.IH [OF Cons.prems(1) [unfolded fold_simps(2)] this]
  show ?case
  proof (cases "newer uk s a b")
    case None
    then have "b = None" "\<not> visible uk s a" by (auto simp: newer_def visible_def split: if_splits)
    then show ?thesis using IH None by auto
  next
    case (Some z)
    note z = newer_bound [OF Some Cons.prems(2)]
    have "a_seq z \<le> a_seq x" using IH Some by blast
    then show ?thesis using IH Some z by (auto intro: order_trans)
  qed
qed simp

lemma newest_Some:
  assumes "newest adds uk s = Some x"
  shows "x \<in> set adds" "visible uk s x" "y \<in> set adds \<Longrightarrow> visible uk s y \<Longrightarrow> a_seq y \<le> a_seq x"
  using fold_newer [of uk s adds None x] assms by (auto simp: newest_def)

lemma mem_slice_target: "length uk + 8 < 2 ^ 32 \<Longrightarrow> fst (mem_slice (PutLengthPrefixedSlice [] (lookup_ikey uk s))) = lookup_ikey uk s"
  using mem_slice_Put [of "lookup_ikey uk s" "[]"] by simp

definition mem_answer :: "mem_add option \<Rightarrow> mem_result" where
  "mem_answer x = (case x of None \<Rightarrow> MemMiss | Some y \<Rightarrow> (case a_type y of kTypeValue \<Rightarrow> MemFound (a_val y) | kTypeDeletion \<Rightarrow> MemDeleted))"

context user_comparator
begin

lemma entry_before_target:
  assumes "add_ok x" "s \<le> kMaxSequenceNumber" "length uk + 8 < 2 ^ 32"
  shows "MemKey_Compare Compare (add_entry x) (PutLengthPrefixedSlice [] (lookup_ikey uk s)) < 0 \<longleftrightarrow>
    Compare (a_key x) uk < 0 \<or> a_key x = uk \<and> s < a_seq x"
  using assms Pack_seek_less [of s "a_seq x" "a_type x"]
  by (simp add: MemKey_Compare_def add_entry_slices mem_slice_target ik_less add_ok_def)

lemma entry_before_entry:
  assumes "add_ok x" "add_ok y"
  shows "MemKey_Compare Compare (add_entry x) (add_entry y) < 0 \<longleftrightarrow>
    Compare (a_key x) (a_key y) < 0 \<or> a_key x = a_key y \<and> PackSequenceAndType (a_seq y) (a_type y) < PackSequenceAndType (a_seq x) (a_type x)"
  using assms by (simp add: MemKey_Compare_def add_entry_slices ik_less)

lemma Get_at_entry:
  assumes "sl_Seek (MemKey_Compare Compare) (mt_table mt) (PutLengthPrefixedSlice [] (lookup_ikey uk s)) = Some (Some a)"
    "nkey (mt_table mt) a = add_entry x" "add_ok x"
  shows "MemTable_Get Compare (mk_LookupKey uk s) mt = Some (if a_key x = uk then mem_answer (Some x) else MemMiss)"
proof -
  have len: "unat (of_nat (length (a_key x) + 8) :: u32) = length (a_key x) + 8"
    using assms(3) unat_of_nat_u32 [of "length (a_key x) + 8"] by (simp add: add_ok_def)
  have "GetVarint32Ptr (add_entry x) = Some (of_nat (length (a_key x) + 8), add_ikey x @ PutLengthPrefixedSlice [] (a_val x))"
    using GetVarint32_Put [of "of_nat (length (a_key x) + 8)" "add_ikey x @ PutLengthPrefixedSlice [] (a_val x)"]
    by (simp add: add_entry_def GetVarint32_def PutLengthPrefixedSlice_def PutVarint32_def)
  moreover have "add_ikey x = a_key x @ EncodeFixed64 (PackSequenceAndType (a_seq x) (a_type x))" by (simp add: add_ikey_def PutFixed64_def)
  moreover have "fst (mem_slice (PutLengthPrefixedSlice [] (a_val x))) = a_val x" using mem_slice_Put [of "a_val x" "[]"] assms(3) by (simp add: add_ok_def)
  moreover have "Compare (a_key x) uk = 0 \<longleftrightarrow> a_key x = uk" using cmp_eq by simp
  ultimately show ?thesis using assms(1,2) len Pack_type [of "a_seq x" "a_type x"]
    by (cases "a_type x") (auto simp: MemTable_Get_def LookupKey_parts Let_def sl_Valid_def sl_key_def mem_answer_def ValueType_num_def)
qed

lemma built_memtable:
  assumes "list_all add_ok adds" "distinct (map add_ikey adds)"
  shows "\<exists>mt as. mem_add_all Compare adds (MemTable_new new_block) = Some mt \<and>
    skip_list (MemKey_Compare Compare) mem_ok (mt_table mt) as \<and> mset (map (nkey (mt_table mt)) as) = mset (map add_entry adds)"
proof -
  have "skip_list (MemKey_Compare Compare) mem_ok (SkipList_new []) []" using skip_inv_new by (simp add: skip_list_def sorted_keys_def)
  moreover have "\<forall>k \<in> set (map add_entry adds). mem_ok k" using assms(1) by (auto simp: list_all_iff mem_ok_add)
  moreover have "sorted_wrt (\<lambda>a b. MemKey_Compare Compare b a \<noteq> 0) (map add_entry adds)"
  proof -
    have "MemKey_Compare Compare (add_entry y) (add_entry x) \<noteq> 0" if "add_ok x" "add_ok y" "add_ikey x \<noteq> add_ikey y" for x y
      using that ik.cmp_eq [of "add_ikey y" "add_ikey x"] by (auto simp: MemKey_Compare_def add_entry_slices)
    moreover have "add_ikey (adds ! i) \<noteq> add_ikey (adds ! j)" if "i < j" "j < length adds" for i j
      using assms(2) that nth_eq_iff_index_eq [of "map add_ikey adds" i j] by simp
    ultimately show ?thesis using assms(1) by (simp add: sorted_wrt_iff_nth_less list_all_length)
  qed
  ultimately obtain tb as where "Insert_all (MemKey_Compare Compare) (map add_entry adds) (SkipList_new []) = Some tb"
      "skip_list (MemKey_Compare Compare) mem_ok tb as" "mset (map (nkey tb) as) = mset (map add_entry adds)"
    using mem.Insert_all_sorted [of "SkipList_new []" "[]" "map add_entry adds"] by auto
  moreover from this(1) obtain mt where "mem_add_all Compare adds (MemTable_new new_block) = Some mt" "mt_table mt = tb"
    using mem_add_all_Insert_all [of Compare adds "MemTable_new new_block"] by (auto simp: MemTable_new_def)
  ultimately show ?thesis by blast
qed

lemma seek_newest:
  assumes ok: "list_all add_ok adds" and seqs: "distinct (map a_seq adds)" and s: "s \<le> kMaxSequenceNumber" and uk: "length uk + 8 < 2 ^ 32"
    and mem: "mset ks = mset (map add_entry adds)" and sorted: "sorted_keys (MemKey_Compare Compare) mem_ok ks"
    and i: "first_ge (MemKey_Compare Compare) ks (PutLengthPrefixedSlice [] (lookup_ikey uk s)) = Some i"
  shows "\<exists>x \<in> set adds. ks ! i = add_entry x \<and> newest adds uk s = (if a_key x = uk then Some x else None)"
proof -
  let ?t = "PutLengthPrefixedSlice [] (lookup_ikey uk s)"
  note ge = first_ge_Some [THEN iffD1, OF i]
  have ks: "set ks = add_entry ` set adds" using mset_eq_setD [OF mem] by simp
  have okx: "add_ok x" if "x \<in> set adds" for x using ok that by (simp add: list_all_iff)
  note bef = entry_before_target [OF okx s uk]
  have "ks ! i \<in> set ks" using ge by simp
  then obtain x where x: "x \<in> set adds" "ks ! i = add_entry x" using ks by auto
  have nx: "\<not> Compare (a_key x) uk < 0" "a_key x = uk \<Longrightarrow> a_seq x \<le> s" using ge bef [OF x(1)] x(2) by auto
  have others: "a_key x = uk \<and> a_seq y \<le> a_seq x" if y: "y \<in> set adds" "visible uk s y" for y
  proof -
    have "add_entry y \<in> set ks" using y ks by blast
    then obtain j where j: "j < length ks" "ks ! j = add_entry y" by (auto simp: in_set_conv_nth)
    have "\<not> MemKey_Compare Compare (add_entry y) ?t < 0" using bef [OF y(1)] y(2) cmp_eq [of uk uk] by (auto simp: visible_def)
    then have "\<not> j < i" using ge j by (metis in_set_conv_nth length_take min_less_iff_conj nth_take)
    then consider "i = j" | "i < j" by linarith
    then show ?thesis
    proof cases
      case 1
      then have "add_ikey x = add_ikey y" using x j okx [OF x(1)] okx [OF y(1)] add_entry_slices by (metis fst_conv)
      then have "a_key x = a_key y" "PackSequenceAndType (a_seq x) (a_type x) = PackSequenceAndType (a_seq y) (a_type y)"
        using add_ikey_parts by metis+
      then show ?thesis using y(2) okx [OF x(1)] okx [OF y(1)] Pack_sequence by (metis add_ok_def order_refl visible_def)
    next
      case 2
      then have "MemKey_Compare Compare (add_entry x) (add_entry y) < 0" using sorted_keys_nth [OF sorted 2 j(1)] x j by simp
      then have "a_key x = uk" "PackSequenceAndType (a_seq y) (a_type y) < PackSequenceAndType (a_seq x) (a_type x)"
        using entry_before_entry [OF okx okx, OF x(1) y(1)] y(2) nx(1) by (auto simp: visible_def)
      then show ?thesis using Pack_less [of "a_seq x" "a_seq y"] okx [OF x(1)] okx [OF y(1)] by (meson add_ok_def not_le order_less_asym)
    qed
  qed
  have "newest adds uk s = (if a_key x = uk then Some x else None)"
  proof (cases "newest adds uk s")
    case None
    then show ?thesis using newest_None [of adds uk s] x(1) nx by (auto simp: visible_def)
  next
    case (Some z)
    note z = newest_Some [OF Some]
    have k: "a_key x = uk" "a_seq z \<le> a_seq x" using others [OF z(1,2)] by auto
    then have "a_seq x \<le> a_seq z" using z(3) [OF x(1)] nx(2) by (simp add: visible_def)
    then have "z = x" using k z(1) x(1) seqs by (auto simp: distinct_map inj_on_def)
    then show ?thesis using Some k by simp
  qed
  then show ?thesis using x by blast
qed

lemma distinct_seq_ikey:
  assumes "list_all add_ok adds" "distinct (map a_seq adds)"
  shows "distinct (map add_ikey adds)"
proof -
  have "a_seq x = a_seq y" if "add_ok x" "add_ok y" "add_ikey x = add_ikey y" for x y
    using arg_cong [OF that(3), of ikey_tag] that(1,2) Pack_sequence [of "a_seq x" "a_type x"] Pack_sequence [of "a_seq y" "a_type y"]
    by (simp add: add_ok_def)
  then show ?thesis using assms unfolding distinct_map inj_on_def list_all_iff by blast
qed

lemma Get_newest:
  assumes "list_all add_ok adds" "distinct (map a_seq adds)" "s \<le> kMaxSequenceNumber" "length uk + 8 < 2 ^ 32"
  shows "\<exists>mt. mem_add_all Compare adds (MemTable_new new_block) = Some mt \<and>
    MemTable_Get Compare (mk_LookupKey uk s) mt = Some (mem_answer (newest adds uk s))"
proof -
  obtain mt as where mt: "mem_add_all Compare adds (MemTable_new new_block) = Some mt"
      "skip_list (MemKey_Compare Compare) mem_ok (mt_table mt) as" "mset (map (nkey (mt_table mt)) as) = mset (map add_entry adds)"
    using built_memtable [OF assms(1) distinct_seq_ikey [OF assms(1,2)]] by blast
  let ?t = "PutLengthPrefixedSlice [] (lookup_ikey uk s)" and ?ks = "map (nkey (mt_table mt)) as"
  have keys: "sorted_keys (MemKey_Compare Compare) mem_ok ?ks" using mt(2) by (simp add: skip_list_def)
  have "mem_ok ?t" unfolding mem_ok_def using assms(4) by (intro exI [of _ "lookup_ikey uk s"] exI [of _ "[]"]) simp
  then obtain it where it: "sl_Seek (MemKey_Compare Compare) (mt_table mt) ?t = Some it" "sl_rel as it (first_ge (MemKey_Compare Compare) ?ks ?t)"
    using mem.rel_sl_Seek [OF mt(2)] by blast
  show ?thesis
  proof (cases "first_ge (MemKey_Compare Compare) ?ks ?t")
    case None
    then have less: "\<forall>k \<in> set ?ks. MemKey_Compare Compare k ?t < 0" by (simp only: first_ge_None)
    have "\<not> visible uk s x" if x: "x \<in> set adds" for x
    proof -
      have "add_ok x" "add_entry x \<in> set ?ks" using x assms(1) mset_eq_setD [OF mt(3)] by (simp_all add: list_all_iff)
      then have "Compare (a_key x) uk < 0 \<or> a_key x = uk \<and> s < a_seq x" using less entry_before_target [OF _ assms(3,4)] by blast
      then show ?thesis using cmp_eq [of uk uk] by (auto simp: visible_def)
    qed
    then have "newest adds uk s = None" by (simp add: newest_None)
    then show ?thesis using it mt(1) None by (simp add: MemTable_Get_def LookupKey_parts sl_rel_def sl_Valid_def mem_answer_def)
  next
    case (Some i)
    then obtain x where x: "x \<in> set adds" "?ks ! i = add_entry x" "newest adds uk s = (if a_key x = uk then Some x else None)"
      using seek_newest [OF assms mt(3) keys] by blast
    have "i < length as" "it = Some (as ! i)" using it(2) Some by (simp_all add: sl_rel_def)
    then show ?thesis using Get_at_entry [of mt uk s "as ! i" x] it(1) x assms(1) mt(1) by (simp add: list_all_iff mem_answer_def)
  qed
qed

end

section \<open>The iterator fulfils the contract\<close>

definition mem_kv :: "string \<Rightarrow> string \<times> string" where
  "mem_kv e = (fst (mem_slice e), fst (mem_slice (snd (mem_slice e))))"

sublocale user_comparator \<subseteq> mti: kv_iterator sli_Valid "mti_kv tb" "sli_SeekToFirst tb" "sli_SeekToLast tb" "sli_Next tb"
    "sli_Prev (MemKey_Compare Compare) tb" "sli_rel (MemKey_Compare Compare) mem_ok tb as" "map (\<lambda>a. mem_kv (nkey tb a)) as" for tb as
proof
  fix s c assume r: "sli_rel (MemKey_Compare Compare) mem_ok tb as s c"
  show "sli_Valid s \<longleftrightarrow> c \<noteq> None" by (rule mem.sli.rel_Valid [OF r])
  show "sli_rel (MemKey_Compare Compare) mem_ok tb as (sli_SeekToFirst tb s) (first_pos (length (map (\<lambda>a. mem_kv (nkey tb a)) as)))"
    "sli_rel (MemKey_Compare Compare) mem_ok tb as (sli_SeekToLast tb s) (last_pos (length (map (\<lambda>a. mem_kv (nkey tb a)) as)))"
    using mem.sli.rel_SeekToFirst [OF r] mem.sli.rel_SeekToLast [OF r] by simp_all
next
  fix s i assume r: "sli_rel (MemKey_Compare Compare) mem_ok tb as s (Some i)"
  show "i < length (map (\<lambda>a. mem_kv (nkey tb a)) as) \<and> mti_kv tb s = map (\<lambda>a. mem_kv (nkey tb a)) as ! i"
    using mem.sli.rel_at [OF r] by (auto simp: sli_kv_def mti_kv_def mem_kv_def Let_def)
  show "sli_rel (MemKey_Compare Compare) mem_ok tb as (sli_Next tb s) (next_pos (length (map (\<lambda>a. mem_kv (nkey tb a)) as)) i)"
    "sli_rel (MemKey_Compare Compare) mem_ok tb as (sli_Prev (MemKey_Compare Compare) tb s) (prev_pos i)"
    using mem.sli.rel_Next [OF r] mem.sli.rel_Prev [OF r] by simp_all
qed

section \<open>Properties\<close>

text \<open>
  C7: After any sequence of additions with different sequence numbers, in any order, a lookup of a key at a
  sequence number returns the newest entry of that key that is not newer than the number: its value, or that the key
  was deleted, or nothing when there is none.  All insertions and the lookup return.
\<close>

theorem memtable_get:
  assumes "list_all add_ok adds" "distinct (map a_seq adds)" "s \<le> kMaxSequenceNumber" "length uk + 8 < 2 ^ 32"
  shows "\<exists>mt. mem_add_all bytewise_Compare adds (MemTable_new new_block) = Some mt \<and>
    MemTable_Get bytewise_Compare (mk_LookupKey uk s) mt = Some (mem_answer (newest adds uk s))"
  using assms by (rule bytewise_user.Get_newest)

theorem memtable_get_witness:
  "\<exists>mt. mem_add_all bytewise_Compare [the_add 1 kTypeValue ''k'' ''v1'', the_add 3 kTypeDeletion ''k'' [], the_add 2 kTypeValue ''k'' ''v2'']
      (MemTable_new (\<lambda>i. 8192 * i)) = Some mt \<and>
    MemTable_Get bytewise_Compare (mk_LookupKey ''k'' 2) mt = Some (MemFound ''v2'')"
  using memtable_get [of "[the_add 1 kTypeValue ''k'' ''v1'', the_add 3 kTypeDeletion ''k'' [], the_add 2 kTypeValue ''k'' ''v2'']" 2 "''k''"]
  by (simp add: add_ok_def kMaxSequenceNumber_def newest_def newer_def mem_answer_def)

end
