(* ===== verification/Spec2Isabelle.thy ===== *)
theory Spec2Isabelle
  imports Log_Reader Main_Flow Thread_Pool Memtable
begin

text \<open>
  This is a model of the Bloom filter hierarchy over LevelDB, with proofs.  The application
  (\<^verbatim>\<open>src/main.cpp\<close>, \<^verbatim>\<open>src/bloom_hierarchy\<close>) fills a LevelDB database, computes one Bloom filter of the *values*
  of every SSTable, arranges the filters in a tree in which a node is the union of its children, and
  searches for values: by scanning all tables, by scanning the tables whose filter matches, or by
  descending the tree.  To read an SSTable it dumps the table as text with \<^verbatim>\<open>leveldb::DumpFile\<close> and parses
  the text.  LevelDB itself (\<^verbatim>\<open>src/leveldb\<close>) is in the repository, with small changes.

  \<^bold>\<open>The application.\<close>
  \<^item> \<^verbatim>\<open>Bloom_Value\<close>: \<^verbatim>\<open>bloom_value.cpp\<close> and its copy in LevelDB, \<^verbatim>\<open>bloom_valueWM.cc\<close>.  The bits are a set of positions
    and \<^verbatim>\<open>std::hash\<close> is an argument.  No false negatives; saving and loading is the identity; LevelDB's copy
    writes files that the application reads; the array overload of \<^verbatim>\<open>exists\<close> reads past its array.
  \<^item> \<^verbatim>\<open>Bloom_Tree\<close>: \<^verbatim>\<open>node.cpp\<close> and \<^verbatim>\<open>bloomTree.cpp\<close>.  \<^verbatim>\<open>createLevel\<close> is a partial function; it is shown for which ratios
    it returns, fails or runs forever, and that a lookup returns every leaf whose filter has the value.
  \<^item> \<^verbatim>\<open>Db_Dumper\<close>: \<^verbatim>\<open>dbRecord.hpp\<close> and \<^verbatim>\<open>dbDumper.cpp\<close>.  The records parsed from the dump of a table are its entries.
  \<^item> \<^verbatim>\<open>Db_Operation\<close>: \<^verbatim>\<open>dbOperation.cpp\<close>.  The database engine, the directory listing, the clock and random numbers
    are the record \<^verbatim>\<open>app_env\<close>.  Searches with filters count exactly the records with the value.
  \<^item> \<^verbatim>\<open>Main_Flow\<close>: \<^verbatim>\<open>main.cpp\<close>.  All experiments, with their log and CSV files; the main flow reports the same counters
    for all three kinds of search.
  \<^item> \<^verbatim>\<open>Thread_Pool\<close>: \<^verbatim>\<open>threadPool.hpp\<close> and \<^verbatim>\<open>dbThreadPool.hpp\<close> as a step relation.  Each task runs exactly once in
    every interleaving, and the workers can always finish what was submitted.

  \<^bold>\<open>LevelDB: strings and files.\<close>
  \<^item> \<^verbatim>\<open>Coding\<close>, \<^verbatim>\<open>Slice_Status\<close>, \<^verbatim>\<open>Comparator\<close>, \<^verbatim>\<open>Logging\<close>, \<^verbatim>\<open>Random_Gen\<close>, \<^verbatim>\<open>Arena\<close>: the files of the same names under \<^verbatim>\<open>util\<close>.
    Round trips and lengths of encodings, the exact overflow test of the number parser, the order laws that
    the locale \<^verbatim>\<open>key_comparator\<close> states, separated and aligned allocations.
  \<^item> \<^verbatim>\<open>Crc32c\<close>: the table-driven, strided routine equals the bit-serial checksum for every address.
  \<^item> \<^verbatim>\<open>File_System\<close>: path names to contents, and which paths can be opened for writing.
  \<^item> \<^verbatim>\<open>Filename\<close>: names parse to what they were made from; \<^verbatim>\<open>SetCurrentFile\<close> replaces \<^verbatim>\<open>CURRENT\<close> or leaves it alone.
  \<^item> \<^verbatim>\<open>Dbformat\<close>: internal keys; newer entries come first; the comparator refines the user's.
  \<^item> \<^verbatim>\<open>Write_Batch\<close>, \<^verbatim>\<open>Log_Writer\<close>, \<^verbatim>\<open>Log_Reader\<close>, \<^verbatim>\<open>Version_Edit\<close>: what is written is read back, across block boundaries and
    with every error status; decoding arbitrary bytes gives a well-formed edit.

  \<^bold>\<open>LevelDB: tables.\<close>
  \<^item> \<^verbatim>\<open>Iterators\<close>: the locale \<^verbatim>\<open>kv_iterator\<close>, a position in a list of pairs, which the iterators over blocks, tables
    and memtables satisfy.
  \<^item> \<^verbatim>\<open>Table_Format\<close>, \<^verbatim>\<open>Block_Builder\<close>, \<^verbatim>\<open>Block\<close>, \<^verbatim>\<open>Bloom_Policy\<close>, \<^verbatim>\<open>Filter_Block\<close>, \<^verbatim>\<open>Two_Level_Iterator\<close>, \<^verbatim>\<open>Table_Builder\<close>, \<^verbatim>\<open>Table\<close>:
    the files of the same names under \<^verbatim>\<open>table\<close> and \<^verbatim>\<open>util/bloom.cc\<close>.  A table built from sorted pairs opens, scans
    back to the pairs, seeks to the first pair not before the target, and finds every key.
  \<^item> \<^verbatim>\<open>Dumpfile\<close>: \<^verbatim>\<open>dumpfile.cc\<close>, the text printed for tables, logs and descriptors.

  \<^bold>\<open>LevelDB: the memtable.\<close>
  \<^item> \<^verbatim>\<open>Skiplist\<close>, \<^verbatim>\<open>Memtable\<close>: nodes with arrays of links and the entries in them.  Whatever heights are drawn the list
    is sorted, every search returns, and a lookup returns the newest entry visible at its sequence number.

  \<^bold>\<open>Conventions.\<close>  A \<^verbatim>\<open>Slice\<close>, a \<^verbatim>\<open>std::string\<close> and a range of bytes are HOL strings; integers are words where they can wrap
  and unbounded where they cannot.  State is passed explicitly in records, errors are \<^verbatim>\<open>Status\<close> values, options or
  sums.  An assertion of the source is a hypothesis of the properties that need it.  Code from outside the
  repository is an argument: \<^verbatim>\<open>std::hash\<close>, the compression libraries (\<^verbatim>\<open>codecs\<close>), the CRC instruction, \<^verbatim>\<open>new\<close>, the clock.

  \<^bold>\<open>Bounds and fuel.\<close>  No definition uses fuel.  Loops that end on every input are functions with a termination
  proof (entries of malformed blocks, the records of a log, the text of a dump); loops that may not end are
  partial functions into option types (\<^verbatim>\<open>createLevel\<close>, the searches of the skip list), and that they return is
  proved where they do.

  \<^bold>\<open>Not modelled.\<close>  The database engine (\<^verbatim>\<open>db_impl.cc\<close>, \<^verbatim>\<open>version_set.cc\<close>, \<^verbatim>\<open>db_iter.cc\<close>, \<^verbatim>\<open>merger.cc\<close>, \<^verbatim>\<open>table_cache.cc\<close>,
  \<^verbatim>\<open>builder.cc\<close>, \<^verbatim>\<open>cache.cc\<close>) is a parameter of the application model.  System calls (\<^verbatim>\<open>env_posix.cc\<close>,
  \<^verbatim>\<open>env_windows.cc\<close>), time and floating-point statistics (\<^verbatim>\<open>histogram.cc\<close>, the benchmarks, the class \<^verbatim>\<open>timer\<close>), the C
  wrappers, the repair tool, the in-memory test environment, tests, third-party code and build output are not
  modelled; neither are memory orders, since readers and writers of the skip list are not interleaved here.
\<close>

end
